(* ===== verification/Xv6_Base.thy ===== *)
theory Xv6_Base
  imports Main "HOL-Library.Word"
begin

text \<open>
  Prelude of the xv6 development: the C integer types as machine words, the constants
  of \<open>param.h\<close>, \<open>memlayout.h\<close>, \<open>mmu.h\<close>, \<open>fs.h\<close> and \<open>types.h\<close>, the result type that makes
  every \<open>panic\<close> and every point where a kernel thread would sleep a value of the model, and
  the generic lemmas on results, lists and words that the component theories share.
\<close>

unbundle bit_operations_syntax

section \<open>C integer types\<close>

type_synonym u8 = "8 word"
type_synonym u16 = "16 word"
type_synonym u32 = "32 word"

section \<open>Constants\<close>

text \<open>\<open>param.h\<close>\<close>

definition NPROC :: nat where "NPROC = 64"
definition NCPU :: nat where "NCPU = 8"
definition NOFILE :: nat where "NOFILE = 16"
definition NFILE :: nat where "NFILE = 100"
definition NINODE :: nat where "NINODE = 50"
definition NDEV :: nat where "NDEV = 10"
definition MAXARG :: nat where "MAXARG = 32"
definition MAXOPBLOCKS :: nat where "MAXOPBLOCKS = 10"
definition LOGSIZE :: nat where "LOGSIZE = MAXOPBLOCKS * 3"
definition NBUF :: nat where "NBUF = MAXOPBLOCKS * 3"
definition FSSIZE :: nat where "FSSIZE = 1000"
definition KSTACKSIZE :: u32 where "KSTACKSIZE = 4096"

text \<open>\<open>memlayout.h\<close> and \<open>mmu.h\<close>\<close>

definition EXTMEM :: u32 where "EXTMEM = 0x100000"
definition PHYSTOP :: u32 where "PHYSTOP = 0xE000000"
definition DEVSPACE :: u32 where "DEVSPACE = 0xFE000000"
definition KERNBASE :: u32 where "KERNBASE = 0x80000000"
definition PGSIZE :: u32 where "PGSIZE = 4096"

definition V2P :: "u32 \<Rightarrow> u32" where "V2P a = a - KERNBASE"
definition P2V :: "u32 \<Rightarrow> u32" where "P2V a = a + KERNBASE"

definition PGROUNDUP :: "u32 \<Rightarrow> u32" where
  "PGROUNDUP sz = (sz + PGSIZE - 1) AND NOT (PGSIZE - 1)"

definition PGROUNDDOWN :: "u32 \<Rightarrow> u32" where
  "PGROUNDDOWN a = a AND NOT (PGSIZE - 1)"

text \<open>\<open>types.h\<close>: the signal numbers and the two special handler values.\<close>

definition SIG_DFL :: u32 where "SIG_DFL = 0"
definition SIG_IGN :: u32 where "SIG_IGN = 1"
definition SIGKILL :: nat where "SIGKILL = 9"
definition SIGSTOP :: nat where "SIGSTOP = 17"
definition SIGCONT :: nat where "SIGCONT = 19"

text \<open>\<open>fs.h\<close> and \<open>buf.h\<close>\<close>

definition BSIZE :: nat where "BSIZE = 512"
definition DIRSIZ :: nat where "DIRSIZ = 14"
definition NDIRECT :: nat where "NDIRECT = 12"
definition NINDIRECT :: nat where "NINDIRECT = BSIZE div 4"
definition MAXFILE :: nat where "MAXFILE = NDIRECT + NINDIRECT"

named_theorems xv6_consts \<open>the numeric constants of the headers\<close>

lemmas [xv6_consts] =
  NPROC_def NCPU_def NOFILE_def NFILE_def NINODE_def NDEV_def MAXARG_def MAXOPBLOCKS_def
  LOGSIZE_def NBUF_def FSSIZE_def KSTACKSIZE_def EXTMEM_def PHYSTOP_def DEVSPACE_def
  KERNBASE_def PGSIZE_def SIG_DFL_def SIG_IGN_def SIGKILL_def SIGSTOP_def SIGCONT_def
  BSIZE_def DIRSIZ_def NDIRECT_def NINDIRECT_def MAXFILE_def

section \<open>Results: panics and sleeps as values\<close>

text \<open>
  A kernel routine either returns, or calls \<open>panic\<close> (which never returns), or reaches a
  \<open>sleep\<close> on some channel and gives up the CPU. The last two are faults of the result type.
  A spin that no other CPU can end (the lock is held and nothing in the model will release
  it) is reported as \<open>Spins\<close>. \<open>Undefined\<close> is an access the C language leaves undefined, such
  as an array index out of range.
\<close>

datatype fault = Panic string | Sleeps string | Spins | Undefined string

type_synonym 'a result = "fault + 'a"

definition andthen :: "'a result \<Rightarrow> ('a \<Rightarrow> 'b result) \<Rightarrow> 'b result" where
  "andthen m f = (case m of Inl e \<Rightarrow> Inl e | Inr x \<Rightarrow> f x)"

lemma andthen_simps [simp]:
  "andthen (Inl e) f = Inl e"
  "andthen (Inr x) f = f x"
  by (simp_all add: andthen_def)

lemma andthen_Inr_iff: "andthen m f = Inr y \<longleftrightarrow> (\<exists>x. m = Inr x \<and> f x = Inr y)"
  by (cases m) auto

lemma andthen_InrE [elim]:
  assumes "andthen m f = Inr y"
  obtains x where "m = Inr x" and "f x = Inr y"
  using assms by (auto simp: andthen_Inr_iff)

lemma andthen_assoc: "andthen (andthen m f) g = andthen m (\<lambda>x. andthen (f x) g)"
  by (cases m) auto

text \<open>\<open>if (!ok) panic(msg);\<close>\<close>

definition require :: "bool \<Rightarrow> string \<Rightarrow> unit result" where
  "require ok msg = (if ok then Inr () else Inl (Panic msg))"

lemma require_simps [simp]:
  "require True msg = Inr ()"
  "require False msg = Inl (Panic msg)"
  "require ok msg = Inr u \<longleftrightarrow> ok"
  by (auto simp: require_def)

section \<open>Word arithmetic\<close>

lemma unat_u32_lt: "unat (x :: u32) < 4294967296"
  using unsigned_less [of x] by simp

lemma unat_add_u32:
  "unat (a :: u32) + unat b < 4294967296 \<Longrightarrow> unat (a + b) = unat a + unat b"
  using unat_add_lem [of a b] by simp

lemma unat_of_nat_u32: "n < 4294967296 \<Longrightarrow> unat (of_nat n :: u32) = n"
  by (simp add: unat_of_nat)

lemma of_nat_u32_inj:
  "i < 4294967296 \<Longrightarrow> j < 4294967296 \<Longrightarrow> (of_nat i :: u32) = of_nat j \<longleftrightarrow> i = j"
  by (metis unat_of_nat_u32)

lemma unat_minus_one_u32: "unat (- 1 :: u32) = 4294967295"
proof -
  have "(- 1 :: u32) = 4294967295" by simp
  then show ?thesis by (simp only: unat_numeral) simp
qed

lemma word_diff_add_of_nat: "(a :: u32) = d + of_nat (unat (a - d))"
  by simp

end
