(* ===== verification/Xv6_String.thy ===== *)
theory Xv6_String
  imports Xv6_Base
begin

text \<open>
  The kernel's memory and string routines (\<open>string.c\<close>) over a byte-addressed memory with
  32-bit addresses. \<open>stosb\<close> and \<open>stosl\<close> are the string instructions of \<open>x86.h\<close>. The
  lemmas compare each routine with a one-line reference: \<open>fill\<close> for \<open>memset\<close>, \<open>copied\<close> for
  \<open>memmove\<close>, the NUL-delimited prefix \<open>cstr\<close> for the string routines.
\<close>

type_synonym mem = "u32 \<Rightarrow> u8"

section \<open>Words in memory\<close>

definition byte_of :: "u32 \<Rightarrow> nat \<Rightarrow> u8" where
  "byte_of w k = ucast (drop_bit (8 * k) w)"

definition st32 :: "mem \<Rightarrow> u32 \<Rightarrow> u32 \<Rightarrow> mem" where
  "st32 m a w =
     m(a := byte_of w 0, a + 1 := byte_of w 1, a + 2 := byte_of w 2, a + 3 := byte_of w 3)"

definition ld32 :: "mem \<Rightarrow> u32 \<Rightarrow> u32" where
  "ld32 m a =
     ucast (m a) OR push_bit 8 (ucast (m (a + 1)))
       OR push_bit 16 (ucast (m (a + 2))) OR push_bit 24 (ucast (m (a + 3)))"

section \<open>string.c\<close>

fun stosb :: "mem \<Rightarrow> u32 \<Rightarrow> u8 \<Rightarrow> nat \<Rightarrow> mem" where
  "stosb m a c 0 = m"
| "stosb m a c (Suc cnt) = stosb (m(a := c)) (a + 1) c cnt"

fun stosl :: "mem \<Rightarrow> u32 \<Rightarrow> u32 \<Rightarrow> nat \<Rightarrow> mem" where
  "stosl m a w 0 = m"
| "stosl m a w (Suc cnt) = stosl (st32 m a w) (a + 4) w cnt"

text \<open>Bytes stored at successive addresses.\<close>

fun store_bytes :: "mem \<Rightarrow> u32 \<Rightarrow> u8 list \<Rightarrow> mem" where
  "store_bytes m a [] = m"
| "store_bytes m a (b # bs) = store_bytes (m(a := b)) (a + 1) bs"

text \<open>\<open>(int)dst % 4 == 0\<close> does not depend on the rounding of C's \<open>%\<close>: only zero is tested.\<close>

definition memset :: "mem \<Rightarrow> u32 \<Rightarrow> u32 \<Rightarrow> u32 \<Rightarrow> mem" where
  "memset m dst c n =
     (if sint dst mod 4 = 0 \<and> n mod 4 = 0
      then let c = c AND 0xFF
           in stosl m dst (push_bit 24 c OR push_bit 16 c OR push_bit 8 c OR c) (unat (n div 4))
      else stosb m dst (ucast c) (unat n))"

fun memcmp_loop :: "mem \<Rightarrow> u32 \<Rightarrow> u32 \<Rightarrow> nat \<Rightarrow> int" where
  "memcmp_loop m s1 s2 0 = 0"
| "memcmp_loop m s1 s2 (Suc n) =
     (if m s1 \<noteq> m s2 then uint (m s1) - uint (m s2) else memcmp_loop m (s1 + 1) (s2 + 1) n)"

definition memcmp :: "mem \<Rightarrow> u32 \<Rightarrow> u32 \<Rightarrow> u32 \<Rightarrow> int" where
  "memcmp m v1 v2 n = memcmp_loop m v1 v2 (unat n)"

fun memmove_bwd :: "mem \<Rightarrow> u32 \<Rightarrow> u32 \<Rightarrow> nat \<Rightarrow> mem" where
  "memmove_bwd m d s 0 = m"
| "memmove_bwd m d s (Suc n) = memmove_bwd (m(d - 1 := m (s - 1))) (d - 1) (s - 1) n"

fun memmove_fwd :: "mem \<Rightarrow> u32 \<Rightarrow> u32 \<Rightarrow> nat \<Rightarrow> mem" where
  "memmove_fwd m d s 0 = m"
| "memmove_fwd m d s (Suc n) = memmove_fwd (m(d := m s)) (d + 1) (s + 1) n"

definition memmove :: "mem \<Rightarrow> u32 \<Rightarrow> u32 \<Rightarrow> u32 \<Rightarrow> mem" where
  "memmove m dst src n =
     (if src < dst \<and> src + n > dst
      then memmove_bwd m (dst + n) (src + n) (unat n)
      else memmove_fwd m dst src (unat n))"

fun strncmp :: "mem \<Rightarrow> u32 \<Rightarrow> u32 \<Rightarrow> nat \<Rightarrow> int" where
  "strncmp m p q 0 = 0"
| "strncmp m p q (Suc n) =
     (if m p \<noteq> 0 \<and> m p = m q then strncmp m (p + 1) (q + 1) n
      else uint (m p) - uint (m q))"

fun strncpy_pad :: "mem \<Rightarrow> u32 \<Rightarrow> nat \<Rightarrow> mem" where
  "strncpy_pad m s 0 = m"
| "strncpy_pad m s (Suc n) = strncpy_pad (m(s := 0)) (s + 1) n"

fun strncpy_loop :: "mem \<Rightarrow> u32 \<Rightarrow> u32 \<Rightarrow> nat \<Rightarrow> mem" where
  "strncpy_loop m s t 0 = m"
| "strncpy_loop m s t (Suc n) =
     (if m t \<noteq> 0 then strncpy_loop (m(s := m t)) (s + 1) (t + 1) n
      else strncpy_pad (m(s := m t)) (s + 1) n)"

definition strncpy :: "mem \<Rightarrow> u32 \<Rightarrow> u32 \<Rightarrow> int \<Rightarrow> mem" where
  "strncpy m s t n = strncpy_loop m s t (nat n)"

text \<open>The counter of the loop is \<open>n - 1\<close>, what \<open>--n\<close> leaves after the first test.\<close>

fun safestrcpy_loop :: "mem \<Rightarrow> u32 \<Rightarrow> u32 \<Rightarrow> nat \<Rightarrow> mem" where
  "safestrcpy_loop m s t 0 = m(s := 0)"
| "safestrcpy_loop m s t (Suc k) =
     (if m t \<noteq> 0 then safestrcpy_loop (m(s := m t)) (s + 1) (t + 1) k
      else (m(s := m t))(s + 1 := 0))"

definition safestrcpy :: "mem \<Rightarrow> u32 \<Rightarrow> u32 \<Rightarrow> int \<Rightarrow> mem" where
  "safestrcpy m s t n = (if n \<le> 0 then m else safestrcpy_loop m s t (nat n - 1))"

partial_function (option) strlen_loop :: "mem \<Rightarrow> u32 \<Rightarrow> nat \<Rightarrow> nat option" where
  "strlen_loop m s n = (if m (s + of_nat n) = 0 then Some n else strlen_loop m s (n + 1))"

definition strlen :: "mem \<Rightarrow> u32 \<Rightarrow> nat option" where
  "strlen m s = strlen_loop m s 0"

section \<open>Reference definitions\<close>

definition fill :: "mem \<Rightarrow> u32 \<Rightarrow> u8 \<Rightarrow> nat \<Rightarrow> mem" where
  "fill m dst c n = (\<lambda>a. if unat (a - dst) < n then c else m a)"

definition copied :: "mem \<Rightarrow> u32 \<Rightarrow> u32 \<Rightarrow> nat \<Rightarrow> mem" where
  "copied m dst src n = (\<lambda>a. if unat (a - dst) < n then m (src + (a - dst)) else m a)"

fun cstr :: "mem \<Rightarrow> u32 \<Rightarrow> nat \<Rightarrow> u8 list" where
  "cstr m p 0 = []"
| "cstr m p (Suc n) = (if m p = 0 then [] else m p # cstr m (p + 1) n)"

text \<open>\<open>range_apart s t n\<close>: the \<open>n\<close> bytes at \<open>s\<close> and the \<open>n\<close> bytes at \<open>t\<close> do not overlap.\<close>

definition range_apart :: "u32 \<Rightarrow> u32 \<Rightarrow> nat \<Rightarrow> bool" where
  "range_apart s t n \<longleftrightarrow> (\<forall>i<n. \<forall>j<n. s + of_nat i \<noteq> t + of_nat j)"

section \<open>Words\<close>

lemma ld32_st32 [simp]: "ld32 (st32 m a w) a = w"
proof (rule bit_word_eqI)
  fix n
  assume "n < LENGTH(32)"
  then consider "n < 8" | "8 \<le> n" "n < 16" | "16 \<le> n" "n < 24" | "24 \<le> n" "n < 32"
    by fastforce
  then show "bit (ld32 (st32 m a w) a) n = bit w n"
    by cases (auto simp: ld32_def st32_def byte_of_def bit_simps fun_upd_apply)
qed

lemma ld32_cong: "(\<And>k. k < 4 \<Longrightarrow> m (a + of_nat k) = m' (a + of_nat k)) \<Longrightarrow> ld32 m a = ld32 m' a"
proof -
  assume h: "\<And>k. k < 4 \<Longrightarrow> m (a + of_nat k) = m' (a + of_nat k)"
  show ?thesis using h [of 0] h [of 1] h [of 2] h [of 3] by (simp add: ld32_def)
qed

lemma st32_apply: "st32 m a w x = (if unat (x - a) < 4 then byte_of w (unat (x - a)) else m x)"
proof -
  define d where "d = x - a"
  then have x: "x = a + d" by simp
  have "unat d < 4 \<longleftrightarrow> d = 0 \<or> d = 1 \<or> d = 2 \<or> d = 3"
    unfolding word_less_nat_alt [symmetric] by unat_arith
  then show ?thesis
    unfolding st32_def x by (auto simp: fun_upd_apply)
qed

section \<open>memset\<close>

lemma of_nat_unat_u32: "of_nat (unat (k :: u32)) = k"
  by simp

lemma unat_numeral_u32_4: "unat (4 :: u32) = 4"
  by simp

lemma unat_pred: "(d :: u32) \<noteq> 0 \<Longrightarrow> unat (d - 1) = unat d - 1"
  by unat_arith

lemma unat_diff_Suc: "(x :: u32) \<noteq> a \<Longrightarrow> unat (x - (a + 1)) = unat (x - a) - 1"
  using unat_pred [of "x - a"] by (simp add: diff_diff_eq)

lemma stosb_fill: "n \<le> 4294967296 \<Longrightarrow> stosb m a c n = fill m a c n"
proof (induction n arbitrary: m a)
  case 0
  then show ?case by (simp add: fill_def)
next
  case (Suc n)
  have "fill (m(a := c)) (a + 1) c n x = fill m a c (Suc n) x" for x
  proof (cases "x = a")
    case True
    then show ?thesis by (simp add: fill_def)
  next
    case False
    then have "unat (x - (a + 1)) = unat (x - a) - 1" "unat (x - a) > 0"
      using unat_diff_Suc [of x a] by (auto simp: unat_gt_0)
    with False show ?thesis by (auto simp: fill_def)
  qed
  with Suc show ?case by auto
qed

lemma stosb_add: "stosb m a c (j + k) = stosb (stosb m a c j) (a + of_nat j) c k"
  by (induction j arbitrary: m a) (simp_all add: add.assoc)

lemma unat_sub_swap_u32: "(x :: u32) \<noteq> y \<Longrightarrow> unat (x - y) + unat (y - x) = 4294967296"
proof -
  assume "x \<noteq> y"
  then have "unat x \<noteq> unat y" by (metis unsigned_word_eqI)
  then show ?thesis
    using unat_u32_lt [of x] unat_u32_lt [of y] by (simp add: unat_sub_if_size word_size)
qed

lemma unat_sub_add_u32:
  "unat (b - a :: u32) + k < 4294967296 \<Longrightarrow> unat (b + of_nat k - a) = unat (b - a) + k"
proof -
  assume h: "unat (b - a) + k < 4294967296"
  have e: "b + of_nat k - a = b - a + of_nat k" by simp
  show ?thesis unfolding e using h by (subst unat_add_u32) (simp_all add: unat_of_nat_u32)
qed

lemma ld32_st32_other:
  assumes "4 \<le> unat (b - a)" "4 \<le> unat (a - b)"
  shows "ld32 (st32 m a w) b = ld32 m b"
proof (rule ld32_cong)
  fix k :: nat
  assume k: "k < 4"
  have "unat (b - a) + unat (a - b) = 4294967296"
    using assms unat_sub_swap_u32 [of b a] by fastforce
  then have "unat (b + of_nat k - a) = unat (b - a) + k"
    using assms k by (intro unat_sub_add_u32) simp
  then show "st32 m a w (b + of_nat k) = m (b + of_nat k)"
    using assms by (simp add: st32_apply)
qed

lemma st32_stosb:
  assumes "\<And>k. k < 4 \<Longrightarrow> byte_of w k = c"
  shows "st32 m a w = stosb m a c 4"
  using assms [of 0] assms [of 1] assms [of 2] assms [of 3]
  by (simp add: st32_def numeral_eq_Suc add.assoc)

lemma stosl_stosb:
  assumes "\<And>k. k < 4 \<Longrightarrow> byte_of w k = c"
  shows "stosl m a w n = stosb m a c (4 * n)"
proof (induction n arbitrary: m a)
  case (Suc n)
  have "stosb m a c (4 * Suc n) = stosb (stosb m a c 4) (a + 4) c (4 * n)"
    using stosb_add [of m a c 4 "4 * n"] by simp
  with Suc show ?case by (simp add: st32_stosb [OF assms])
qed simp

definition spread :: "u32 \<Rightarrow> u32" where
  "spread c = push_bit 24 c OR push_bit 16 c OR push_bit 8 c OR c"

lemma bit_and_FF: "bit (c AND 0xFF :: u32) i \<longleftrightarrow> i < 8 \<and> bit c i"
  using bit_mask_iff [of 8 i, where 'a = "32 word"]
  by (auto simp: bit_and_iff mask_eq_exp_minus_1 dest: bit_imp_le_length)

lemma byte_of_spread_low:
  assumes "k < 4" and low: "\<And>i. bit b i \<longleftrightarrow> i < 8 \<and> bit c i"
  shows "byte_of (spread b) k = ucast c"
proof (rule bit_word_eqI)
  fix n
  assume n: "n < LENGTH(8)"
  from assms(1) consider "k = 0" | "k = 1" | "k = 2" | "k = 3" by fastforce
  then show "bit (byte_of (spread b) k) n = bit (ucast c :: u8) n"
    using n by cases (auto simp: byte_of_def spread_def bit_simps low)
qed

lemmas byte_of_spread = byte_of_spread_low [OF _ bit_and_FF]

theorem memset_fill: "memset m dst c n = fill m dst (ucast c) (unat n)"
proof (cases "sint dst mod 4 = 0 \<and> n mod 4 = 0")
  case True
  have "unat n mod 4 = 0"
    using True by (metis unat_mod unat_0 unat_numeral_u32_4)
  then have "4 * unat (n div 4) = unat n"
    using mult_div_mod_eq [of 4 "unat n"] by (simp add: unat_div)
  with True show ?thesis
    by (simp add: memset_def Let_def spread_def [symmetric] stosl_stosb [OF byte_of_spread]
        stosb_fill less_imp_le unat_u32_lt)
next
  case False
  then have "memset m dst c n = stosb m dst (ucast c) (unat n)"
    by (simp only: memset_def if_False)
  then show ?thesis by (simp add: stosb_fill less_imp_le unat_u32_lt)
qed

section \<open>memmove\<close>

lemma memmove_fwd_copied:
  assumes "unat s + n \<le> 4294967296" "unat d + n \<le> 4294967296"
    and "unat d \<le> unat s \<or> unat s + n \<le> unat d"
  shows "memmove_fwd m d s n = copied m d s n"
  using assms
proof (induction n arbitrary: m d s)
  case 0
  then show ?case by (simp add: copied_def)
next
  case (Suc n)
  show ?case
  proof (cases "n = 0")
    case True
    have "unat (a - d) = 0 \<longleftrightarrow> a = d" for a
      by (simp add: unat_eq_0)
    with True show ?thesis by (auto simp: copied_def)
  next
    case False
    then have s1: "unat (s + 1) = unat s + 1" and d1: "unat (d + 1) = unat d + 1"
      using Suc.prems by (auto intro!: unat_add_u32 [of _ 1, simplified])
    have "copied (m(d := m s)) (d + 1) (s + 1) n a = copied m d s (Suc n) a" for a
    proof (cases "a = d")
      case True
      then show ?thesis using Suc.prems by (simp add: copied_def)
    next
      case False
      define k where "k = a - d"
      have k: "a = d + k" "k \<noteq> 0" "unat k > 0"
        using False by (auto simp: k_def unat_gt_0)
      have "s + k \<noteq> d" if "unat k < Suc n"
      proof
        assume "s + k = d"
        then have "unat d = unat s + unat k"
          using that Suc.prems unat_add_u32 [of s k] by auto
        with Suc.prems(3) that k show False by auto
      qed
      moreover have "s + 1 + (a - (d + 1)) = s + k"
        by (simp add: k_def)
      ultimately show ?thesis
        using False unat_diff_Suc [OF False] k
        by (auto simp: copied_def k_def [symmetric])
    qed
    then have "copied (m(d := m s)) (d + 1) (s + 1) n = copied m d s (Suc n)" ..
    moreover have "memmove_fwd (m(d := m s)) (d + 1) (s + 1) n = copied (m(d := m s)) (d + 1) (s + 1) n"
      using Suc.prems s1 d1 by (intro Suc.IH) auto
    ultimately show ?thesis by simp
  qed
qed

lemma memmove_bwd_copied:
  assumes "unat s + n \<le> 4294967295" "unat d + n \<le> 4294967295" "unat s < unat d"
  shows "memmove_bwd m (d + of_nat n) (s + of_nat n) n = copied m d s n"
  using assms
proof (induction n arbitrary: m)
  case 0
  then show ?case by (simp add: copied_def)
next
  case (Suc n)
  define m' where "m' = m(d + of_nat n := m (s + of_nat n))"
  have n: "unat (of_nat n :: u32) = n"
    using Suc.prems by (intro unat_of_nat_u32) simp
  have "copied m' d s n a = copied m d s (Suc n) a" for a
  proof -
    define k where "k = a - d"
    have a: "a = d + k" by (simp add: k_def)
    have "s + k \<noteq> d + of_nat n" if "unat k < n"
      using that Suc.prems n unat_add_u32 [of s k] unat_add_u32 [of d "of_nat n"] by force
    moreover have "unat k = n \<longleftrightarrow> k = of_nat n"
      using n by (metis of_nat_unat_u32)
    ultimately show ?thesis
      unfolding copied_def m'_def k_def [symmetric] by (auto simp: a less_Suc_eq)
  qed
  then have "copied m' d s n = copied m d s (Suc n)" ..
  with Suc show ?case by (simp add: m'_def)
qed

theorem memmove_copied:
  assumes "unat src + unat n \<le> 4294967295" "unat dst + unat n \<le> 4294967295"
  shows "memmove m dst src n = copied m dst src (unat n)"
proof -
  have sn: "unat (src + n) = unat src + unat n"
    using assms by (intro unat_add_u32) simp
  show ?thesis
  proof (cases "src < dst \<and> src + n > dst")
    case True
    then have "unat src < unat dst" by (simp add: word_less_nat_alt)
    then have "memmove_bwd m (dst + of_nat (unat n)) (src + of_nat (unat n)) (unat n)
        = copied m dst src (unat n)"
      using assms by (intro memmove_bwd_copied)
    with True show ?thesis by (simp add: memmove_def)
  next
    case False
    then have "unat dst \<le> unat src \<or> unat src + unat n \<le> unat dst"
      using sn by (auto simp: word_less_nat_alt)
    then have "memmove_fwd m dst src (unat n) = copied m dst src (unat n)"
      using assms by (intro memmove_fwd_copied) auto
    moreover have "memmove m dst src n = memmove_fwd m dst src (unat n)"
      unfolding memmove_def by (rule if_not_P) (rule False)
    ultimately show ?thesis by simp
  qed
qed

section \<open>Strings\<close>

lemma cstr_length: "length (cstr m p n) \<le> n"
  by (induction n arbitrary: p) auto

lemma cstr_cong:
  "(\<And>i. i < n \<Longrightarrow> m (p + of_nat i) = m' (p + of_nat i)) \<Longrightarrow> cstr m p n = cstr m' p n"
proof (induction n arbitrary: p)
  case (Suc n)
  have "cstr m (p + 1) n = cstr m' (p + 1) n"
  proof (rule Suc.IH)
    fix i assume "i < n"
    then show "m (p + 1 + of_nat i) = m' (p + 1 + of_nat i)"
      using Suc.prems [of "Suc i"] by (simp add: add.assoc)
  qed
  then show ?case using Suc.prems [of 0] by simp
qed simp

theorem strncmp_zero_iff: "strncmp m p q n = 0 \<longleftrightarrow> cstr m p n = cstr m q n"
  by (induction n arbitrary: p q) (auto simp: uint_0_iff dest: word_uint_eqI)

lemma memcmp_loop_zero_iff:
  "memcmp_loop m p q n = 0 \<longleftrightarrow> (\<forall>i<n. m (p + of_nat i) = m (q + of_nat i))"
proof (induction n arbitrary: p q)
  case (Suc n)
  show ?case
    using Suc [of "p + 1" "q + 1"]
    by (auto simp: less_Suc_eq_0_disj add.assoc dest: word_uint_eqI)
qed simp

lemma range_apart_Suc:
  assumes "range_apart s t (Suc n)"
  shows "range_apart (s + 1) (t + 1) n" "s \<noteq> t"
  using assms unfolding range_apart_def
  by (auto simp: add.assoc of_nat_Suc [symmetric] simp del: of_nat_Suc)

lemma strncpy_pad_stosb: "strncpy_pad m s n = stosb m s 0 n"
  by (induction n arbitrary: m s) simp_all

text \<open>What \<open>strncpy\<close> leaves in memory: the string, then zeros up to \<open>n\<close> bytes.\<close>

lemma strncpy_loop_bytes:
  assumes "n \<le> 4294967296" "range_apart s t n"
  shows "strncpy_loop m s t n a =
    (if unat (a - s) < n
     then if unat (a - s) < length (cstr m t n) then cstr m t n ! unat (a - s) else 0
     else m a)"
  using assms
proof (induction n arbitrary: m s t)
  case 0
  then show ?case by simp
next
  case (Suc n)
  note apart = range_apart_Suc [OF Suc.prems(2)]
  show ?case
  proof (cases "m t = 0")
    case True
    have "strncpy_loop m s t (Suc n) = stosb m s 0 (Suc n)"
      using True by (simp add: strncpy_pad_stosb)
    also have "\<dots> = fill m s 0 (Suc n)"
      using Suc.prems(1) by (rule stosb_fill)
    finally show ?thesis using True by (simp add: fill_def)
  next
    case False
    define m1 where "m1 = m(s := m t)"
    have m1: "m1 s = m t" "\<And>x. x \<noteq> s \<Longrightarrow> m1 x = m x" by (simp_all add: m1_def)
    have same: "cstr m1 (t + 1) n = cstr m (t + 1) n"
    proof (rule cstr_cong)
      fix i assume "i < n"
      then have "s + of_nat 0 \<noteq> t + of_nat (Suc i)"
        using Suc.prems(2) unfolding range_apart_def by (metis Suc_less_eq zero_less_Suc)
      then show "m1 (t + 1 + of_nat i) = m (t + 1 + of_nat i)"
        by (intro m1(2)) (simp add: add.assoc)
    qed
    have IH: "strncpy_loop m1 (s + 1) (t + 1) n a =
        (if unat (a - (s + 1)) < n
         then if unat (a - (s + 1)) < length (cstr m (t + 1) n)
              then cstr m (t + 1) n ! unat (a - (s + 1)) else 0
         else m1 a)"
      using Suc.IH [of "s + 1" "t + 1" m1] Suc.prems apart same by simp
    have "unat (a - (s + 1)) = unat (a - s) - 1" "0 < unat (a - s)" if "a \<noteq> s"
      using that unat_diff_Suc [OF that] by (simp_all add: unat_gt_0)
    then show ?thesis
      using False IH Suc.prems(1) m1
      by (cases "a = s") (auto simp: nth_Cons' m1_def [symmetric] unat_minus_one_u32)
  qed
qed

lemma cstr_nonzero: "0 \<notin> set (cstr m p n)"
  by (induction n arbitrary: p) auto

lemma cstr_eqI:
  assumes "length l \<le> n" "0 \<notin> set l"
    and "\<And>i. i < length l \<Longrightarrow> m (p + of_nat i) = l ! i"
    and "length l < n \<Longrightarrow> m (p + of_nat (length l)) = 0"
  shows "cstr m p n = l"
  using assms
proof (induction l arbitrary: p n)
  case Nil
  then show ?case by (cases n) auto
next
  case (Cons x l)
  then obtain k where n: "n = Suc k" by (cases n) auto
  have x: "m p = x" using Cons.prems(3) [of 0] by simp
  have "cstr m (p + 1) k = l"
  proof (rule Cons.IH)
    show "m (p + 1 + of_nat i) = l ! i" if "i < length l" for i
      using that Cons.prems(3) [of "Suc i"] by (simp add: add.assoc)
    show "m (p + 1 + of_nat (length l)) = 0" if "length l < k"
      using that Cons.prems(4) n by (simp add: add.assoc)
  qed (use Cons.prems n in auto)
  with x n Cons.prems(2) show ?case by auto
qed

lemma ld32_fill_zero:
  assumes "unat (b - dst) + 4 \<le> n" "n < 4294967296"
  shows "ld32 (fill m dst 0 n) b = 0"
proof -
  have "unat (b + of_nat k - dst) < n" if "k < 4" for k
    using assms that by (subst unat_sub_add_u32) simp_all
  from this [of 0] this [of 1] this [of 2] this [of 3] show ?thesis
    by (simp add: ld32_def fill_def)
qed

lemma ld32_fill_other:
  assumes "n \<le> unat (b - dst)" "4 \<le> unat (dst - b)"
  shows "ld32 (fill m dst c n) b = ld32 m b"
proof (cases "b = dst")
  case False
  have "n \<le> unat (b + of_nat k - dst)" if "k < 4" for k
    using assms that unat_sub_swap_u32 [of b dst] False by (subst unat_sub_add_u32) simp_all
  then have "\<not> unat (b + of_nat k - dst) < n" if "k < 4" for k
    using that by (simp add: linorder_not_less)
  then show ?thesis by (intro ld32_cong) (simp add: fill_def)
qed (use assms in simp)

lemma unat_offset: "i < 4294967296 \<Longrightarrow> unat (s + of_nat i - s :: u32) = i"
  by (simp add: unat_of_nat_u32)

theorem strncpy_correct:
  assumes "n \<le> 4294967296" "range_apart s t (nat n)"
  shows "cstr (strncpy m s t n) s (nat n) = cstr m t (nat n)"
    and "\<not> unat (a - s) < nat n \<Longrightarrow> strncpy m s t n a = m a"
proof -
  let ?l = "cstr m t (nat n)"
  have n: "nat n \<le> 4294967296" using assms(1) by simp
  note bytes = strncpy_loop_bytes [OF n assms(2), where m = m, folded strncpy_def]
  show "cstr (strncpy m s t n) s (nat n) = ?l"
  proof (rule cstr_eqI)
    show "length ?l \<le> nat n" by (rule cstr_length)
    then show "strncpy m s t n (s + of_nat i) = ?l ! i" if "i < length ?l" for i
      using that n bytes [of "s + of_nat i"] unat_offset [of i s] by simp
    show "strncpy m s t n (s + of_nat (length ?l)) = 0" if "length ?l < nat n"
      using that n bytes [of "s + of_nat (length ?l)"] unat_offset [of "length ?l" s] by simp
  qed (rule cstr_nonzero)
  show "strncpy m s t n a = m a" if "\<not> unat (a - s) < nat n"
    using that bytes [of a] by simp
qed

text \<open>
  \<open>safestrcpy\<close> on a buffer of \<open>Suc k\<close> bytes: the bytes of the string, a terminator, and
  nothing written beyond the buffer.
\<close>

lemma safestrcpy_loop_bytes:
  fixes m :: mem
  assumes "k < 4294967296" "range_apart s t (Suc k)"
  defines "l \<equiv> cstr m t k" and "m' \<equiv> safestrcpy_loop m s t k"
  shows "(\<forall>i<length l. m' (s + of_nat i) = l ! i) \<and> m' (s + of_nat (length l)) = 0 \<and>
         (\<forall>a. Suc k \<le> unat (a - s) \<longrightarrow> m' a = m a)"
  using assms(1,2) unfolding l_def m'_def
proof (induction k arbitrary: m s t)
  case 0
  then show ?case by auto
next
  case (Suc k)
  note apart = range_apart_Suc [OF Suc.prems(2)]
  show ?case
  proof (cases "m t = 0")
    case True
    have "unat (a - s) < 2" if "a = s \<or> a = s + 1" for a using that by auto
    with True show ?thesis by (auto simp: fun_upd_apply)
  next
    case False
    define m1 where "m1 = m(s := m t)"
    have m1: "m1 s = m t" "\<And>x. x \<noteq> s \<Longrightarrow> m1 x = m x" by (simp_all add: m1_def)
    have same: "cstr m1 (t + 1) k = cstr m (t + 1) k"
    proof (rule cstr_cong)
      fix i assume "i < k"
      then have "s + of_nat 0 \<noteq> t + of_nat (Suc i)"
        using Suc.prems(2) unfolding range_apart_def
        by (metis Suc_less_eq less_SucI zero_less_Suc)
      then show "m1 (t + 1 + of_nat i) = m (t + 1 + of_nat i)"
        by (intro m1(2)) (simp add: add.assoc)
    qed
    let ?c = "cstr m (t + 1) k" and ?r = "safestrcpy_loop m1 (s + 1) (t + 1) k"
    have IH: "\<forall>i<length ?c. ?r (s + 1 + of_nat i) = ?c ! i"
      "?r (s + 1 + of_nat (length ?c)) = 0"
      "\<And>a. Suc k \<le> unat (a - (s + 1)) \<Longrightarrow> ?r a = m1 a"
      using Suc.IH [of "s + 1" "t + 1" m1] Suc.prems apart same by simp_all
    have far: "?r a = m a" if "Suc (Suc k) \<le> unat (a - s)" for a
      using that unat_diff_Suc [of a s] IH(3) [of a] m1(2) [of a] by (cases "a = s") auto
    have first: "?r s = m t"
      using IH(3) [of s] m1(1) Suc.prems(1) by (simp add: unat_minus_one_u32)
    show ?thesis
      using False IH(1,2) far first
      by (auto simp: less_Suc_eq_0_disj add.assoc m1_def [symmetric])
  qed
qed

theorem safestrcpy_correct:
  assumes "0 < n" "n \<le> 4294967296" "range_apart s t (nat n)"
  shows "cstr (safestrcpy m s t n) s (nat n) = cstr m t (nat n - 1)"
    and "\<exists>i<nat n. safestrcpy m s t n (s + of_nat i) = 0"
    and "nat n \<le> unat (a - s) \<Longrightarrow> safestrcpy m s t n a = m a"
proof -
  define k where "k = nat n - 1"
  have k: "nat n = Suc k" "k < 4294967296" using assms by (auto simp: k_def)
  have eq: "safestrcpy m s t n = safestrcpy_loop m s t k"
    using assms(1) by (simp add: safestrcpy_def k_def)
  note bytes = safestrcpy_loop_bytes [OF k(2), of s t m, folded eq]
  have apart: "range_apart s t (Suc k)" using assms(3) k by simp
  have len: "length (cstr m t k) \<le> k" by (rule cstr_length)
  show "cstr (safestrcpy m s t n) s (nat n) = cstr m t (nat n - 1)"
    using bytes [OF apart] len cstr_nonzero [of m t k] unfolding k
    by (intro cstr_eqI) auto
  show "\<exists>i<nat n. safestrcpy m s t n (s + of_nat i) = 0"
    using bytes [OF apart] len unfolding k by (intro exI [of _ "length (cstr m t k)"]) auto
  show "safestrcpy m s t n a = m a" if "nat n \<le> unat (a - s)"
    using that bytes [OF apart] unfolding k by auto
qed

lemma strlen_loop_Some:
  assumes "\<And>i. i < k \<Longrightarrow> m (s + of_nat (j + i)) \<noteq> 0" "m (s + of_nat (j + k)) = 0"
  shows "strlen_loop m s j = Some (j + k)"
  using assms
proof (induction k arbitrary: j)
  case 0
  then show ?case by (subst strlen_loop.simps) simp
next
  case (Suc k)
  have "strlen_loop m s (j + 1) = Some (j + 1 + k)"
  proof (rule Suc.IH)
    show "m (s + of_nat (j + 1 + i)) \<noteq> 0" if "i < k" for i
      using that Suc.prems(1) [of "Suc i"] by (simp add: add_ac)
    show "m (s + of_nat (j + 1 + k)) = 0" using Suc.prems(2) by (simp add: add_ac)
  qed
  then show ?case using Suc.prems(1) [of 0] by (subst strlen_loop.simps) simp
qed

theorem strlen_returns:
  assumes "\<forall>i<k. m (s + of_nat i) \<noteq> 0" "m (s + of_nat k) = 0"
  shows "strlen m s = Some k"
  using assms strlen_loop_Some [of k m s 0] by (simp add: strlen_def)

section \<open>Properties\<close>

text \<open>
  C22. \<open>memmove\<close> is correct for overlapping ranges, in both directions: afterwards every byte of
  the destination is what the source held before, and no other byte has changed.
\<close>

theorem memmove_overlap:
  assumes "unat src + unat n \<le> 4294967295" "unat dst + unat n \<le> 4294967295"
  shows "(\<forall>i < unat n. memmove m dst src n (dst + of_nat i) = m (src + of_nat i)) \<and>
    (\<forall>a. unat n \<le> unat (a - dst) \<longrightarrow> memmove m dst src n a = m a)"
proof -
  have "memmove m dst src n (dst + of_nat i) = m (src + of_nat i)" if "i < unat n" for i
    using that assms unat_u32_lt [of n] by (simp add: memmove_copied copied_def unat_of_nat_u32)
  then show ?thesis using assms by (simp add: memmove_copied copied_def)
qed

definition demo_bytes :: mem where
  "demo_bytes = (\<lambda>_. 0)(100 := 1, 101 := 2, 102 := 3)"

theorem memmove_overlap_witness:
  "memmove demo_bytes 101 100 3 (101 + of_nat 2) = 3 \<and> memmove demo_bytes 101 100 3 100 = 1"
proof -
  have "\<forall>i < unat (3 :: u32). memmove demo_bytes 101 100 3 (101 + of_nat i) = demo_bytes (100 + of_nat i)"
    "\<forall>a. unat (3 :: u32) \<le> unat (a - 101) \<longrightarrow> memmove demo_bytes 101 100 3 a = demo_bytes a"
    using memmove_overlap [of 100 3 101 demo_bytes] by simp_all
  from this(1) [rule_format, of 2] this(2) [rule_format, of 100] show ?thesis
    by (simp add: demo_bytes_def unat_minus_one_u32)
qed

text \<open>
  C30. A name written with \<open>strncpy\<close> compares equal to its source with \<open>strncmp\<close> at the same
  length, which is how directory entries are written and looked up, and nothing outside the
  destination changes.
\<close>

theorem strncpy_strncmp:
  assumes "n \<le> 4294967296" "range_apart s t (nat n)"
  shows "strncmp (strncpy m s t n) s t (nat n) = 0 \<and>
    (\<forall>a. \<not> unat (a - s) < nat n \<longrightarrow> strncpy m s t n a = m a)"
proof -
  have same: "strncpy m s t n (t + of_nat j) = m (t + of_nat j)" if j: "j < nat n" for j
  proof (rule strncpy_correct(2) [OF assms])
    show "\<not> unat (t + of_nat j - s) < nat n"
    proof
      assume "unat (t + of_nat j - s) < nat n"
      moreover have "s + of_nat (unat (t + of_nat j - s)) = t + of_nat j"
        by (simp add: of_nat_unat_u32)
      ultimately show False using assms(2) j unfolding range_apart_def by metis
    qed
  qed
  have "cstr (strncpy m s t n) t (nat n) = cstr m t (nat n)"
    by (rule cstr_cong) (use same in simp)
  then have "cstr (strncpy m s t n) s (nat n) = cstr (strncpy m s t n) t (nat n)"
    using strncpy_correct(1) [OF assms] by simp
  then show ?thesis using strncpy_correct(2) [OF assms] by (simp add: strncmp_zero_iff)
qed

theorem strncpy_strncmp_witness:
  "strncmp (strncpy demo_bytes 200 100 14) 200 100 14 = 0"
proof -
  have "range_apart 200 100 14"
    unfolding range_apart_def
  proof (intro allI impI notI)
    fix i j :: nat
    assume "i < 14" "j < 14" "200 + of_nat i = (100 + of_nat j :: u32)"
    then have "(of_nat (200 + i) :: u32) = of_nat (100 + j)" by simp
    then show False
      using \<open>i < 14\<close> \<open>j < 14\<close> of_nat_u32_inj [of "200 + i" "100 + j"] by linarith
  qed
  then show ?thesis using strncpy_strncmp [of 14 200 100 demo_bytes] by simp
qed

text \<open>
  \<open>safestrcpy\<close> with a positive size always leaves a terminated string inside the buffer,
  the longest prefix of the source that fits, and does not write past the buffer.
\<close>

theorem safestrcpy_terminates:
  assumes "0 < n" "n \<le> 4294967296" "range_apart s t (nat n)"
  shows "(\<exists>i<nat n. safestrcpy m s t n (s + of_nat i) = 0) \<and>
    cstr (safestrcpy m s t n) s (nat n) = cstr m t (nat n - 1) \<and>
    (\<forall>a. nat n \<le> unat (a - s) \<longrightarrow> safestrcpy m s t n a = m a)"
  using safestrcpy_correct [OF assms] by blast

theorem safestrcpy_terminates_witness:
  "cstr (safestrcpy demo_bytes 0 100 3) 0 3 = cstr demo_bytes 100 2"
proof -
  have "range_apart 0 100 3"
    unfolding range_apart_def by (auto simp: numeral_3_eq_3 less_Suc_eq)
  then show ?thesis using safestrcpy_terminates [of 3 0 100 demo_bytes] by simp
qed

text \<open>
  \<open>memset\<close>, with its fast path of four bytes at a time, writes the low byte of its argument
  to exactly the bytes of the range.
\<close>

theorem memset_spec:
  "memset m dst c n a = (if unat (a - dst) < unat n then ucast c else m a)"
  by (simp add: memset_fill fill_def)

end
