(* ===== verification/Xv6_Spinlock.thy ===== *)
theory Xv6_Spinlock
  imports Xv6_String
begin

text \<open>
  Per-CPU interrupt nesting, spin locks (\<open>spinlock.c\<close>, \<open>mycpu\<close> of \<open>proc.c\<close>) and sleep
  locks (\<open>sleeplock.c\<close>). The routines are functions on one CPU and one lock. The
  interleaving of any number of CPUs on one lock is the step relation \<open>lstep\<close>, whose steps
  are the single memory accesses of \<open>acquire\<close> and \<open>release\<close>; its invariant gives mutual
  exclusion, and it is what lets the other theories treat a critical section as one step.
\<close>

section \<open>CPU state\<close>

record cpu =
  c_apicid :: u8
  c_ncli :: int
  c_intena :: bool
  c_if :: bool \<comment> \<open>the interrupt flag of EFLAGS on this CPU\<close>
  c_proc :: "nat option"

text \<open>
  \<open>lapicid()\<close> reads a device register: the id it returns is the argument \<open>apicid\<close>. The
  loop compares it with the \<open>ncpu\<close> entries of \<open>cpus\<close>.
\<close>

fun find_apicid :: "cpu list \<Rightarrow> u8 \<Rightarrow> nat \<Rightarrow> nat result" where
  "find_apicid [] apicid i = Inl (Panic ''unknown apicid'')"
| "find_apicid (c # cs) apicid i =
     (if c_apicid c = apicid then Inr i else find_apicid cs apicid (i + 1))"

definition mycpu :: "cpu list \<Rightarrow> u8 \<Rightarrow> bool \<Rightarrow> nat result" where
  "mycpu cpus apicid fl_if =
     (if fl_if then Inl (Panic ''mycpu called with interrupts enabled'')
      else find_apicid cpus apicid 0)"

definition pushcli :: "cpu \<Rightarrow> cpu" where
  "pushcli c =
     (let eflags = c_if c;
          c = c\<lparr>c_if := False\<rparr>;
          c = (if c_ncli c = 0 then c\<lparr>c_intena := eflags\<rparr> else c)
      in c\<lparr>c_ncli := c_ncli c + 1\<rparr>)"

definition popcli :: "cpu \<Rightarrow> cpu result" where
  "popcli c =
     (if c_if c then Inl (Panic ''popcli - interruptible'')
      else let c = c\<lparr>c_ncli := c_ncli c - 1\<rparr>
           in if c_ncli c < 0 then Inl (Panic ''popcli'')
              else Inr (if c_ncli c = 0 \<and> c_intena c then c\<lparr>c_if := True\<rparr> else c))"

section \<open>Spin locks\<close>

record spinlock =
  lk_locked :: u32
  lk_name :: string
  lk_cpu :: "nat option" \<comment> \<open>index of the CPU holding the lock\<close>
  lk_pcs :: "u32 list"

definition initlock :: "spinlock \<Rightarrow> string \<Rightarrow> spinlock" where
  "initlock lk name = lk\<lparr>lk_name := name, lk_locked := 0, lk_cpu := None\<rparr>"

definition holding :: "nat \<Rightarrow> cpu \<Rightarrow> spinlock \<Rightarrow> (bool \<times> cpu) result" where
  "holding me c lk =
     (let c = pushcli c;
          r = lk_locked lk \<noteq> 0 \<and> lk_cpu lk = Some me
      in andthen (popcli c) (\<lambda>c. Inr (r, c)))"

definition xchg :: "spinlock \<Rightarrow> u32 \<Rightarrow> u32 \<times> spinlock" where
  "xchg lk newval = (lk_locked lk, lk\<lparr>lk_locked := newval\<rparr>)"

text \<open>
  \<open>getcallerpcs\<close> follows the saved \<open>%ebp\<close> chain of the stack in memory \<open>m\<close>, starting two
  words below its argument.
\<close>

fun walk_ebp :: "mem \<Rightarrow> u32 \<Rightarrow> nat \<Rightarrow> u32 list" where
  "walk_ebp m ebp 0 = []"
| "walk_ebp m ebp (Suc n) =
     (if ebp = 0 \<or> ebp < KERNBASE \<or> ebp = 0xffffffff then []
      else ld32 m (ebp + 4) # walk_ebp m (ld32 m ebp) n)"

definition getcallerpcs :: "mem \<Rightarrow> u32 \<Rightarrow> u32 list" where
  "getcallerpcs m v =
     (let pcs = walk_ebp m (v - 8) 10 in pcs @ replicate (10 - length pcs) 0)"

text \<open>
  \<open>acquire\<close>: a first \<open>xchg\<close> that finds the lock taken goes on spinning, which is
  \<open>Spins\<close> here; \<open>pcs\<close> is what \<open>getcallerpcs\<close> records.
\<close>

definition acquire :: "nat \<Rightarrow> u32 list \<Rightarrow> cpu \<Rightarrow> spinlock \<Rightarrow> (cpu \<times> spinlock) result" where
  "acquire me pcs c lk =
     (let c = pushcli c in
      andthen (holding me c lk) (\<lambda>(h, c).
      if h then Inl (Panic ''acquire'')
      else case xchg lk 1 of (old, lk) \<Rightarrow>
           if old \<noteq> 0 then Inl Spins
           else Inr (c, lk\<lparr>lk_cpu := Some me, lk_pcs := pcs\<rparr>)))"

definition release :: "nat \<Rightarrow> cpu \<Rightarrow> spinlock \<Rightarrow> (cpu \<times> spinlock) result" where
  "release me c lk =
     andthen (holding me c lk) (\<lambda>(h, c).
     if \<not> h then Inl (Panic ''release'')
     else let lk = lk\<lparr>lk_pcs := (lk_pcs lk)[0 := 0], lk_cpu := None\<rparr>;
              lk = lk\<lparr>lk_locked := 0\<rparr>
          in andthen (popcli c) (\<lambda>c. Inr (c, lk)))"

section \<open>Sleep locks\<close>

text \<open>
  The spin lock inside a sleep lock only makes the routines atomic. A locked lock puts the
  caller to sleep.
\<close>

record sleeplock =
  sl_locked :: bool
  sl_pid :: int

definition initsleeplock :: sleeplock where
  "initsleeplock = \<lparr>sl_locked = False, sl_pid = 0\<rparr>"

definition acquiresleep :: "int \<Rightarrow> sleeplock \<Rightarrow> sleeplock result" where
  "acquiresleep pid lk =
     (if sl_locked lk then Inl (Sleeps ''sleep lock'')
      else Inr (lk\<lparr>sl_locked := True, sl_pid := pid\<rparr>))"

definition releasesleep :: "sleeplock \<Rightarrow> sleeplock" where
  "releasesleep lk = lk\<lparr>sl_locked := False, sl_pid := 0\<rparr>"

definition holdingsleep :: "int \<Rightarrow> sleeplock \<Rightarrow> bool" where
  "holdingsleep pid lk \<longleftrightarrow> sl_locked lk \<and> sl_pid lk = pid"

section \<open>The routines of one CPU\<close>

text \<open>
  Well-formed interrupt nesting: the depth is never negative and interrupts are off while
  it is positive.
\<close>

definition cpu_ok :: "cpu \<Rightarrow> bool" where
  "cpu_ok c \<longleftrightarrow> 0 \<le> c_ncli c \<and> (0 < c_ncli c \<longrightarrow> \<not> c_if c)"

lemma find_apicid_nth:
  assumes "distinct (map c_apicid cpus)" "i < length cpus"
  shows "find_apicid cpus (c_apicid (cpus ! i)) k = Inr (k + i)"
  using assms
proof (induction cpus arbitrary: i k)
  case (Cons c cs)
  show ?case
  proof (cases i)
    case (Suc j)
    with Cons.prems have "c_apicid c \<noteq> c_apicid (cs ! j)" by (metis Suc_less_eq distinct.simps(2)
        length_Cons length_map list.simps(9) nth_map nth_mem)
    with Suc Cons show ?thesis by simp
  qed simp
qed simp

lemma pushcli_simps [simp]:
  "c_ncli (pushcli c) = c_ncli c + 1"
  "c_if (pushcli c) = False"
  "c_intena (pushcli c) = (if c_ncli c = 0 then c_if c else c_intena c)"
  "c_proc (pushcli c) = c_proc c"
  "c_apicid (pushcli c) = c_apicid c"
  by (simp_all add: pushcli_def Let_def)

lemma cpu_ok_pushcli: "cpu_ok c \<Longrightarrow> cpu_ok (pushcli c)"
  by (simp add: cpu_ok_def)

text \<open>\<open>settle c\<close> is \<open>c\<close> after a matched pair: only the saved flag may have changed.\<close>

definition settle :: "cpu \<Rightarrow> cpu" where
  "settle c = (if c_ncli c = 0 then c\<lparr>c_intena := c_if c\<rparr> else c)"

lemma settle_simps [simp]:
  "c_ncli (settle c) = c_ncli c" "c_if (settle c) = c_if c" "c_proc (settle c) = c_proc c"
  "c_apicid (settle c) = c_apicid c"
  by (auto simp: settle_def)

lemma settle_pushcli: "cpu_ok c \<Longrightarrow> settle (pushcli c) = pushcli c"
  by (simp add: settle_def cpu_ok_def)

lemma cpu_ok_settle [simp]: "cpu_ok (settle c) = cpu_ok c"
  by (simp add: cpu_ok_def)

lemma popcli_pushcli: "cpu_ok c \<Longrightarrow> popcli (pushcli c) = Inr (settle c)"
  by (cases c) (auto simp: popcli_def pushcli_def settle_def cpu_ok_def Let_def)

lemma holding_eq:
  "cpu_ok c \<Longrightarrow> holding me c lk = Inr (lk_locked lk \<noteq> 0 \<and> lk_cpu lk = Some me, settle c)"
  by (simp add: holding_def Let_def popcli_pushcli)

lemma acquire_free:
  assumes "cpu_ok c" "lk_locked lk = 0"
  shows "acquire me pcs c lk =
    Inr (pushcli c, lk\<lparr>lk_locked := 1, lk_cpu := Some me, lk_pcs := pcs\<rparr>)"
  using assms
  by (simp add: acquire_def Let_def holding_eq cpu_ok_pushcli settle_pushcli xchg_def)

lemma acquire_taken:
  assumes "cpu_ok c" "lk_locked lk \<noteq> 0"
  shows "acquire me pcs c lk = Inl (if lk_cpu lk = Some me then Panic ''acquire'' else Spins)"
  using assms
  by (simp add: acquire_def Let_def holding_eq cpu_ok_pushcli settle_pushcli xchg_def)

lemma release_held:
  assumes "cpu_ok c" "lk_locked lk \<noteq> 0" "lk_cpu lk = Some me"
  shows "release me (pushcli c) lk =
    Inr (settle c, lk\<lparr>lk_pcs := (lk_pcs lk)[0 := 0], lk_cpu := None, lk_locked := 0\<rparr>)"
  using assms
  by (simp add: release_def Let_def holding_eq cpu_ok_pushcli settle_pushcli popcli_pushcli)

lemma release_not_held:
  assumes "cpu_ok c" "\<not> (lk_locked lk \<noteq> 0 \<and> lk_cpu lk = Some me)"
  shows "release me c lk = Inl (Panic ''release'')"
  using assms by (simp add: release_def holding_eq)

section \<open>CPUs racing for one lock\<close>

text \<open>
  Where a CPU stands in \<open>acquire\<close> or \<open>release\<close>. \<open>Check\<close> and \<open>RCheck\<close> are the two reads of
  \<open>holding\<close>; the flag is the value of \<open>lock->locked\<close> that was read first.
\<close>

datatype lpc =
    Outside
  | Check1 | Check2 bool
  | Spin
  | Record
  | Critical
  | RCheck1 | RCheck2 bool
  | Clear
  | Store
  | Pop
  | Dead string

record lsys =
  l_cpus :: "nat \<Rightarrow> cpu"
  l_lock :: spinlock
  l_pc :: "nat \<Rightarrow> lpc"

definition goto :: "nat \<Rightarrow> lpc \<Rightarrow> lsys \<Rightarrow> lsys" where
  "goto i pc s = s\<lparr>l_pc := (l_pc s)(i := pc)\<rparr>"

definition with_lock :: "(spinlock \<Rightarrow> spinlock) \<Rightarrow> lsys \<Rightarrow> lsys" where
  "with_lock f s = s\<lparr>l_lock := f (l_lock s)\<rparr>"

definition with_cpu :: "nat \<Rightarrow> cpu \<Rightarrow> lsys \<Rightarrow> lsys" where
  "with_cpu i c s = s\<lparr>l_cpus := (l_cpus s)(i := c)\<rparr>"

inductive lstep :: "lsys \<Rightarrow> lsys \<Rightarrow> bool" where
  acq_pushcli: "l_pc s i = Outside \<Longrightarrow>
     lstep s (goto i Check1 (with_cpu i (pushcli (l_cpus s i)) s))"
| acq_read_locked: "l_pc s i = Check1 \<Longrightarrow>
     lstep s (goto i (Check2 (lk_locked (l_lock s) \<noteq> 0)) s)"
| acq_read_cpu: "l_pc s i = Check2 b \<Longrightarrow>
     lstep s (goto i (if b \<and> lk_cpu (l_lock s) = Some i then Dead ''acquire'' else Spin) s)"
| acq_xchg: "l_pc s i = Spin \<Longrightarrow> xchg (l_lock s) 1 = (old, lk) \<Longrightarrow>
     lstep s (goto i (if old \<noteq> 0 then Spin else Record) (with_lock (\<lambda>_. lk) s))"
| acq_record: "l_pc s i = Record \<Longrightarrow>
     lstep s (goto i Critical
       (with_lock (\<lambda>lk. lk\<lparr>lk_cpu := Some i, lk_pcs := pcs\<rparr>) s))"
| rel_enter: "l_pc s i = Critical \<Longrightarrow> lstep s (goto i RCheck1 s)"
| rel_read_locked: "l_pc s i = RCheck1 \<Longrightarrow>
     lstep s (goto i (RCheck2 (lk_locked (l_lock s) \<noteq> 0)) s)"
| rel_read_cpu: "l_pc s i = RCheck2 b \<Longrightarrow>
     lstep s (goto i (if \<not> (b \<and> lk_cpu (l_lock s) = Some i) then Dead ''release'' else Clear) s)"
| rel_clear: "l_pc s i = Clear \<Longrightarrow>
     lstep s (goto i Store
       (with_lock (\<lambda>lk. lk\<lparr>lk_pcs := (lk_pcs lk)[0 := 0], lk_cpu := None\<rparr>) s))"
| rel_store: "l_pc s i = Store \<Longrightarrow>
     lstep s (goto i Pop (with_lock (\<lambda>lk. lk\<lparr>lk_locked := 0\<rparr>) s))"
| rel_popcli: "l_pc s i = Pop \<Longrightarrow> popcli (l_cpus s i) = Inr c \<Longrightarrow>
     lstep s (goto i Outside (with_cpu i c s))"
| rel_popcli_panic: "l_pc s i = Pop \<Longrightarrow> popcli (l_cpus s i) = Inl (Panic msg) \<Longrightarrow>
     lstep s (goto i (Dead msg) s)"

definition linit :: "lsys \<Rightarrow> bool" where
  "linit s \<longleftrightarrow> (\<forall>i. l_pc s i = Outside \<and> cpu_ok (l_cpus s i)) \<and>
     lk_locked (l_lock s) = 0 \<and> lk_cpu (l_lock s) = None"

inductive lreach :: "lsys \<Rightarrow> bool" where
  start: "linit s \<Longrightarrow> lreach s"
| step: "lreach s \<Longrightarrow> lstep s t \<Longrightarrow> lreach t"

text \<open>The program points between a successful \<open>xchg\<close> and the store that frees the lock.\<close>

fun inside :: "lpc \<Rightarrow> bool" where
  "inside Record = True"
| "inside Critical = True"
| "inside RCheck1 = True"
| "inside (RCheck2 b) = True"
| "inside Clear = True"
| "inside Store = True"
| "inside _ = False"

fun owns :: "lpc \<Rightarrow> bool" where
  "owns Critical = True"
| "owns RCheck1 = True"
| "owns (RCheck2 b) = True"
| "owns Clear = True"
| "owns _ = False"

definition lock_inv :: "lsys \<Rightarrow> bool" where
  "lock_inv s \<longleftrightarrow>
     (\<forall>i j. inside (l_pc s i) \<longrightarrow> inside (l_pc s j) \<longrightarrow> i = j) \<and>
     (lk_locked (l_lock s) \<noteq> 0 \<longleftrightarrow> (\<exists>i. inside (l_pc s i))) \<and>
     (\<forall>i. lk_cpu (l_lock s) = Some i \<longleftrightarrow> owns (l_pc s i)) \<and>
     (\<forall>i. l_pc s i \<noteq> RCheck2 False \<and> (\<forall>msg. l_pc s i \<noteq> Dead msg)) \<and>
     (\<forall>i. cpu_ok (l_cpus s i) \<and> (l_pc s i \<noteq> Outside \<longrightarrow> 1 \<le> c_ncli (l_cpus s i)))"

lemmas lsys_upd = goto_def with_lock_def with_cpu_def

lemma owns_inside: "owns pc \<Longrightarrow> inside pc"
  by (cases pc) auto

lemma lock_inv_init: "linit s \<Longrightarrow> lock_inv s"
  by (simp add: linit_def lock_inv_def)

lemma popcli_ok:
  assumes "cpu_ok c" "1 \<le> c_ncli c"
  shows "\<exists>c'. popcli c = Inr c' \<and> cpu_ok c' \<and> c_ncli c' = c_ncli c - 1"
  using assms by (auto simp: popcli_def cpu_ok_def Let_def)

lemma lock_inv_move:
  assumes inv: "lock_inv s"
    and pc: "inside pc = inside (l_pc s i)" "owns pc = owns (l_pc s i)"
      "pc \<noteq> RCheck2 False" "\<And>msg. pc \<noteq> Dead msg"
    and c: "cpu_ok c" "pc \<noteq> Outside \<Longrightarrow> 1 \<le> c_ncli c"
  shows "lock_inv (goto i pc (with_cpu i c s))"
proof -
  let ?t = "goto i pc (with_cpu i c s)"
  have same: "l_lock ?t = l_lock s" "inside (l_pc ?t k) = inside (l_pc s k)"
    "owns (l_pc ?t k) = owns (l_pc s k)" for k
    using pc by (simp_all add: goto_def with_cpu_def)
  have "l_pc ?t k \<noteq> RCheck2 False \<and> (\<forall>msg. l_pc ?t k \<noteq> Dead msg)"
    "cpu_ok (l_cpus ?t k) \<and> (l_pc ?t k \<noteq> Outside \<longrightarrow> 1 \<le> c_ncli (l_cpus ?t k))" for k
    using inv pc c by (simp_all add: goto_def with_cpu_def lock_inv_def)
  with inv show ?thesis unfolding lock_inv_def same by blast
qed

lemma lock_inv_goto:
  assumes "lock_inv s" "inside pc = inside (l_pc s i)" "owns pc = owns (l_pc s i)"
    and "pc \<noteq> RCheck2 False" "\<And>msg. pc \<noteq> Dead msg" "l_pc s i \<noteq> Outside"
  shows "lock_inv (goto i pc s)"
proof -
  have "goto i pc s = goto i pc (with_cpu i (l_cpus s i) s)"
    by (simp add: goto_def with_cpu_def)
  also have "lock_inv \<dots>"
    using assms by (intro lock_inv_move) (auto simp: lock_inv_def)
  finally show ?thesis .
qed

lemma lock_invD:
  assumes "lock_inv s"
  shows "lk_cpu (l_lock s) = Some i \<longleftrightarrow> owns (l_pc s i)"
    and "l_pc s i \<noteq> RCheck2 False"
    and "cpu_ok (l_cpus s i)"
    and "l_pc s i \<noteq> Outside \<Longrightarrow> 1 \<le> c_ncli (l_cpus s i)"
    and "l_pc s i \<noteq> Dead msg"
  using assms by (simp_all add: lock_inv_def)

lemma inside_unique:
  assumes "lock_inv s" "inside (l_pc s i)"
  shows "\<And>k. inside (l_pc s k) \<longleftrightarrow> k = i" "\<And>k. k \<noteq> i \<Longrightarrow> \<not> owns (l_pc s k)"
    and "lk_locked (l_lock s) \<noteq> 0"
  using assms owns_inside unfolding lock_inv_def by blast+

lemma lock_invI_held:
  assumes "lk_locked (l_lock t) \<noteq> 0" "\<And>k. inside (l_pc t k) \<longleftrightarrow> k = i"
    and "\<And>k. owns (l_pc t k) \<longleftrightarrow> lk_cpu (l_lock t) = Some k"
    and "\<And>k. l_pc t k \<noteq> RCheck2 False" "\<And>k msg. l_pc t k \<noteq> Dead msg"
    and "\<And>k. cpu_ok (l_cpus t k)" "\<And>k. l_pc t k \<noteq> Outside \<Longrightarrow> 1 \<le> c_ncli (l_cpus t k)"
  shows "lock_inv t"
  using assms unfolding lock_inv_def by simp

lemma lock_invI_free:
  assumes "lk_locked (l_lock t) = 0" "lk_cpu (l_lock t) = None" "\<And>k. \<not> inside (l_pc t k)"
    and "\<And>k. l_pc t k \<noteq> RCheck2 False" "\<And>k msg. l_pc t k \<noteq> Dead msg"
    and "\<And>k. cpu_ok (l_cpus t k)" "\<And>k. l_pc t k \<noteq> Outside \<Longrightarrow> 1 \<le> c_ncli (l_cpus t k)"
  shows "lock_inv t"
proof -
  have "\<not> owns (l_pc t k)" for k using owns_inside assms(3) by blast
  with assms show ?thesis unfolding lock_inv_def by simp
qed

lemma lstep_inv: "lstep s t \<Longrightarrow> lock_inv s \<Longrightarrow> lock_inv t"
proof (induction rule: lstep.induct)
  case (acq_pushcli s i)
  then show ?case
    using lock_invD(3) [of s i] cpu_ok_pushcli [of "l_cpus s i"]
    by (intro lock_inv_move) (auto simp: cpu_ok_def)
next
  case (acq_read_locked s i)
  then show ?case by (intro lock_inv_goto) auto
next
  case (acq_read_cpu s i b)
  then have "lk_cpu (l_lock s) \<noteq> Some i" using lock_invD(1) [of s i] by simp
  with acq_read_cpu show ?case by (intro lock_inv_goto) auto
next
  case (acq_xchg s i old lk)
  show ?case
  proof (cases "old = 0")
    case True
    with acq_xchg have free: "\<not> inside (l_pc s k)" for k
      unfolding lock_inv_def xchg_def by auto
    show ?thesis
      by (rule lock_invI_held [where i = i])
        (use True acq_xchg free owns_inside lock_invD [OF acq_xchg(3)] in
          \<open>auto simp: lsys_upd xchg_def split: if_splits\<close>)
  next
    case False
    with acq_xchg have "lock_inv (with_lock (\<lambda>_. lk) s)"
      unfolding lock_inv_def with_lock_def xchg_def by auto
    then have "lock_inv (goto i Spin (with_lock (\<lambda>_. lk) s))"
      using acq_xchg(1) by (intro lock_inv_goto) (auto simp: with_lock_def)
    with False show ?thesis by simp
  qed
next
  case (acq_record s i pcs)
  then have "inside (l_pc s i)" by simp
  note u = inside_unique [OF acq_record(2) this]
  show ?case
    by (rule lock_invI_held [where i = i])
      (use acq_record u lock_invD [OF acq_record(2)] in \<open>auto simp: lsys_upd split: if_splits\<close>)
next
  case (rel_enter s i)
  then show ?case by (intro lock_inv_goto) auto
next
  case (rel_read_locked s i)
  then have "lk_locked (l_lock s) \<noteq> 0"
    using inside_unique(3) [of s i] by simp
  with rel_read_locked show ?case by (intro lock_inv_goto) auto
next
  case (rel_read_cpu s i b)
  then have "lk_cpu (l_lock s) = Some i" using lock_invD(1) [of s i] by simp
  moreover have "b" using rel_read_cpu lock_invD(2) [of s i] by (cases b) auto
  ultimately show ?case using rel_read_cpu by (intro lock_inv_goto) auto
next
  case (rel_clear s i)
  then have "inside (l_pc s i)" by simp
  note u = inside_unique [OF rel_clear(2) this]
  show ?case
    by (rule lock_invI_held [where i = i])
      (use rel_clear u lock_invD [OF rel_clear(2)] in \<open>auto simp: lsys_upd split: if_splits\<close>)
next
  case (rel_store s i)
  then have "inside (l_pc s i)" by simp
  note u = inside_unique [OF rel_store(2) this]
  have "\<not> owns (l_pc s k)" for k using u(2) [of k] rel_store(1) by (cases "k = i") auto
  then have "lk_cpu (l_lock s) = None"
    using lock_invD(1) [OF rel_store(2)] by (cases "lk_cpu (l_lock s)") auto
  show ?case
    by (rule lock_invI_free)
      (use \<open>lk_cpu (l_lock s) = None\<close> rel_store u lock_invD(2-5) [OF rel_store(2)] in \<open>auto simp: lsys_upd split: if_splits\<close>)
next
  case (rel_popcli s i c)
  have "cpu_ok (l_cpus s i)" "1 \<le> c_ncli (l_cpus s i)"
    using lock_invD(3,4) [OF rel_popcli(3), of i] rel_popcli(1) by simp_all
  from popcli_ok [OF this] rel_popcli(2) have "cpu_ok c" by auto
  with rel_popcli show ?case by (intro lock_inv_move) simp_all
next
  case (rel_popcli_panic s i msg)
  have "cpu_ok (l_cpus s i)" "1 \<le> c_ncli (l_cpus s i)"
    using lock_invD(3,4) [OF rel_popcli_panic(3), of i] rel_popcli_panic(1) by simp_all
  from popcli_ok [OF this] obtain c' where "popcli (l_cpus s i) = Inr c'" by blast
  with rel_popcli_panic(2) have False by simp
  then show ?case ..
qed

lemma lreach_inv: "lreach s \<Longrightarrow> lock_inv s"
proof (induction rule: lreach.induct)
  case (start s)
  then show ?case by (rule lock_inv_init)
next
  case (step s t)
  from step.hyps(2) step.IH show ?case by (rule lstep_inv)
qed

section \<open>Properties\<close>


definition demo_lsys :: lsys where
  "demo_lsys =
     \<lparr>l_cpus = (\<lambda>_. \<lparr>c_apicid = 0, c_ncli = 0, c_intena = False, c_if = True, c_proc = None\<rparr>),
      l_lock = \<lparr>lk_locked = 0, lk_name = ''kmem'', lk_cpu = None, lk_pcs = replicate 10 0\<rparr>,
      l_pc = (\<lambda>_. Outside)\<rparr>"

lemma lreach_acquire:
  assumes "lreach s" "l_pc s i = Outside" "lk_locked (l_lock s) = 0"
  shows "\<exists>t. lreach t \<and> l_pc t i = Record"
proof -
  define a where "a = goto i Check1 (with_cpu i (pushcli (l_cpus s i)) s)"
  have a: "lreach a" "l_pc a i = Check1" "lk_locked (l_lock a) = 0"
    using lreach.step [OF assms(1) acq_pushcli [OF assms(2)]] assms(3)
    by (simp_all add: a_def lsys_upd)
  define b where "b = goto i (Check2 (lk_locked (l_lock a) \<noteq> 0)) a"
  have b: "lreach b" "l_pc b i = Check2 False" "lk_locked (l_lock b) = 0"
    using lreach.step [OF a(1) acq_read_locked [OF a(2)]] a(3) by (simp_all add: b_def lsys_upd)
  define c where "c = goto i Spin b"
  have c: "lreach c" "l_pc c i = Spin" "lk_locked (l_lock c) = 0"
    using lreach.step [OF b(1) acq_read_cpu [OF b(2)]] b(3) by (simp_all add: c_def lsys_upd)
  define d where "d = goto i Record (with_lock (\<lambda>_. snd (xchg (l_lock c) 1)) c)"
  have "lstep c d"
    using acq_xchg [OF c(2), of 0 "snd (xchg (l_lock c) 1)"] c(3) by (simp add: d_def xchg_def)
  with c(1) have "lreach d" by (rule lreach.step)
  then show ?thesis by (intro exI [of _ d]) (simp add: d_def lsys_upd)
qed


text \<open>
  C24. A critical section leaves no trace. On a CPU with well-formed interrupt nesting,
  \<open>acquire\<close> of a free lock succeeds with interrupts off and the lock held, and the matching
  \<open>release\<close> gives back the nesting depth, the interrupt flag and the current process of the
  CPU, and a free lock.
\<close>

theorem acquire_release_roundtrip:
  assumes "cpu_ok c" and "lk_locked lk = 0"
  shows "\<exists>c1 lk1 c2 lk2. acquire me pcs c lk = Inr (c1, lk1) \<and>
    \<not> c_if c1 \<and> c_ncli c1 = c_ncli c + 1 \<and> holding me c1 lk1 = Inr (True, c1) \<and>
    release me c1 lk1 = Inr (c2, lk2) \<and>
    c_ncli c2 = c_ncli c \<and> c_if c2 = c_if c \<and> c_proc c2 = c_proc c \<and>
    lk_locked lk2 = 0 \<and> lk_cpu lk2 = None \<and> lk_name lk2 = lk_name lk"
  using assms
  by (simp add: acquire_free release_held holding_eq cpu_ok_pushcli settle_pushcli)

theorem acquire_release_roundtrip_witness:
  "\<exists>c1 lk1 c2 lk2. acquire 2 [] (l_cpus demo_lsys 2) (l_lock demo_lsys) = Inr (c1, lk1) \<and>
    \<not> c_if c1 \<and> release 2 c1 lk1 = Inr (c2, lk2) \<and> c_if c2"
proof -
  have "cpu_ok (l_cpus demo_lsys 2)" "lk_locked (l_lock demo_lsys) = 0" "c_if (l_cpus demo_lsys 2)"
    by (simp_all add: demo_lsys_def cpu_ok_def)
  with acquire_release_roundtrip [of "l_cpus demo_lsys 2" "l_lock demo_lsys" 2 "[]"]
  show ?thesis by auto
qed

end
