(* ===== verification/Xv6_Kalloc.thy ===== *)
theory Xv6_Kalloc
  imports Xv6_Spinlock
begin

text \<open>
  The physical page allocator (\<open>kalloc.c\<close>). The free list is threaded through the free
  pages themselves: the first word of a free page holds the address of the next one. The
  model keeps it there, in the byte memory of \<open>Xv6_String\<close>, so that an allocator that
  handed out a page still on its list, or a client that wrote to a free page, would corrupt
  it. \<open>kmem.lock\<close> makes each routine atomic and is not part of the state.
\<close>

record kmem =
  km_mem :: mem
  km_use_lock :: bool
  km_freelist :: u32 \<comment> \<open>0 is the null pointer\<close>

text \<open>\<open>kend\<close> is the linker symbol \<open>end\<close>, the first address after the kernel image.\<close>

definition kfree :: "u32 \<Rightarrow> u32 \<Rightarrow> kmem \<Rightarrow> kmem result" where
  "kfree kend v s =
     (if v mod PGSIZE \<noteq> 0 \<or> v < kend \<or> PHYSTOP \<le> V2P v then Inl (Panic ''kfree'')
      else let m = memset (km_mem s) v 1 PGSIZE;
               m = st32 m v (km_freelist s)
           in Inr (s\<lparr>km_mem := m, km_freelist := v\<rparr>))"

definition kalloc :: "kmem \<Rightarrow> u32 \<times> kmem" where
  "kalloc s =
     (let r = km_freelist s
      in if r \<noteq> 0 then (r, s\<lparr>km_freelist := ld32 (km_mem s) r\<rparr>) else (r, s))"

text \<open>A page that \<open>kfree\<close> accepts lies below \<open>KERNBASE + PHYSTOP\<close>, so the cursor of
  \<open>freerange\<close> never wraps and the loop ends.\<close>

lemma kfree_Inr_bound:
  assumes "kfree kend p s = Inr s'"
  shows "unat p < 0x8E000000" "p mod PGSIZE = 0"
proof -
  from assms have h: "V2P p < PHYSTOP" "p mod PGSIZE = 0"
    by (auto simp: kfree_def Let_def not_le split: if_splits)
  define d where "d = V2P p"
  then have p: "p = d + 0x80000000" by (simp add: V2P_def KERNBASE_def)
  from h d_def have "unat d < 0xE000000" by (simp add: PHYSTOP_def word_less_nat_alt)
  then show "unat p < 0x8E000000" unfolding p by (subst unat_add_u32) simp_all
  from h show "p mod PGSIZE = 0" by simp
qed

function freerange_loop :: "u32 \<Rightarrow> u32 \<Rightarrow> u32 \<Rightarrow> kmem \<Rightarrow> kmem result" where
  "freerange_loop kend p vend s =
     (if p + PGSIZE \<le> vend
      then case kfree kend p s of
             Inl e \<Rightarrow> Inl e
           | Inr s' \<Rightarrow> freerange_loop kend (p + PGSIZE) vend s'
      else Inr s)"
  by pat_completeness auto
termination
proof (relation "measure (\<lambda>(kend, p, vend, s). 0x8E001000 - unat p)")
  fix kend p vend :: u32 and s s' :: kmem
  assume "kfree kend p s = Inr s'"
  then have "unat p < 0x8E000000" by (rule kfree_Inr_bound)
  then have "unat (p + PGSIZE) = unat p + 4096"
    by (subst unat_add_u32) (simp_all add: PGSIZE_def)
  with \<open>unat p < 0x8E000000\<close>
  show "((kend, p + PGSIZE, vend, s'), (kend, p, vend, s))
      \<in> measure (\<lambda>(kend, p, vend, s). 0x8E001000 - unat p)"
    by simp
qed simp

declare freerange_loop.simps [simp del]

definition freerange :: "u32 \<Rightarrow> u32 \<Rightarrow> u32 \<Rightarrow> kmem \<Rightarrow> kmem result" where
  "freerange kend vstart vend s = freerange_loop kend (PGROUNDUP vstart) vend s"

definition kinit1 :: "u32 \<Rightarrow> u32 \<Rightarrow> u32 \<Rightarrow> kmem \<Rightarrow> kmem result" where
  "kinit1 kend vstart vend s = freerange kend vstart vend (s\<lparr>km_use_lock := False\<rparr>)"

definition kinit2 :: "u32 \<Rightarrow> u32 \<Rightarrow> u32 \<Rightarrow> kmem \<Rightarrow> kmem result" where
  "kinit2 kend vstart vend s =
     andthen (freerange kend vstart vend s) (\<lambda>s. Inr (s\<lparr>km_use_lock := True\<rparr>))"

section \<open>Pages\<close>

definition in_page :: "u32 \<Rightarrow> u32 \<Rightarrow> bool" where
  "in_page p a \<longleftrightarrow> unat (a - p) < 4096"

text \<open>The pages the allocator may own: what \<open>kfree\<close> checks.\<close>

definition page_ok :: "u32 \<Rightarrow> u32 \<Rightarrow> bool" where
  "page_ok kend p \<longleftrightarrow> p mod PGSIZE = 0 \<and> kend \<le> p \<and> V2P p < PHYSTOP"

lemma page_aligned: "p mod PGSIZE = 0 \<Longrightarrow> 4096 dvd unat p"
proof -
  assume "p mod PGSIZE = 0"
  then have "unat p mod unat PGSIZE = 0" by (metis unat_0 unat_mod)
  then show ?thesis by (simp add: PGSIZE_def dvd_eq_mod_eq_0)
qed

lemma in_page_iff:
  assumes "4096 dvd unat p"
  shows "in_page p a \<longleftrightarrow> unat a div 4096 = unat p div 4096"
proof -
  from assms obtain k where k: "unat p = 4096 * k" by blast
  have kb: "k < 1048576" using unat_u32_lt [of p] k by simp
  show ?thesis
  proof
    assume h: "in_page p a"
    then have "unat (p + (a - p)) = unat p + unat (a - p)"
      using k kb by (intro unat_add_u32) (simp add: in_page_def)
    with h k show "unat a div 4096 = unat p div 4096" by (simp add: in_page_def)
  next
    assume h: "unat a div 4096 = unat p div 4096"
    then have "unat p \<le> unat a" "unat a < unat p + 4096" using k by simp_all
    then show "in_page p a"
      unfolding in_page_def by (subst unat_sub) (simp_all add: word_le_nat_alt)
  qed
qed

lemma in_page_unique:
  assumes "p mod PGSIZE = 0" "q mod PGSIZE = 0" "in_page p a" "in_page q a"
  shows "p = q"
proof -
  have "unat p div 4096 = unat q div 4096"
    using assms page_aligned in_page_iff by metis
  then have "unat p = unat q"
    using page_aligned [OF assms(1)] page_aligned [OF assms(2)] by (metis dvd_mult_div_cancel)
  then show ?thesis by (metis of_nat_unat_u32)
qed

lemma in_page_word:
  assumes "k < 4096"
  shows "in_page p (p + of_nat k)"
  using assms by (simp add: in_page_def unat_of_nat_u32)

lemma page_ok_zero [simp]: "\<not> page_ok kend 0"
  by (simp add: page_ok_def V2P_def xv6_consts)

section \<open>The free list\<close>

fun fl :: "mem \<Rightarrow> u32 \<Rightarrow> u32 list \<Rightarrow> bool" where
  "fl m r [] \<longleftrightarrow> r = 0"
| "fl m r (p # ps) \<longleftrightarrow> r = p \<and> p \<noteq> 0 \<and> fl m (ld32 m p) ps"

definition kmem_inv :: "u32 \<Rightarrow> kmem \<Rightarrow> u32 list \<Rightarrow> bool" where
  "kmem_inv kend s ps \<longleftrightarrow>
     fl (km_mem s) (km_freelist s) ps \<and> distinct ps \<and> (\<forall>p\<in>set ps. page_ok kend p)"

lemma fl_cong:
  assumes "\<And>p k. p \<in> set ps \<Longrightarrow> k < 4 \<Longrightarrow> m (p + of_nat k) = m' (p + of_nat k)"
  shows "fl m r ps \<longleftrightarrow> fl m' r ps"
  using assms
proof (induction ps arbitrary: r)
  case (Cons p ps)
  have "ld32 m p = ld32 m' p"
    by (rule ld32_cong) (use Cons.prems [of p] in simp)
  with Cons show ?case by simp
qed simp

text \<open>The free list is determined by memory: at most one list of pages represents it.\<close>

lemma fl_unique: "fl m r ps \<Longrightarrow> fl m r qs \<Longrightarrow> ps = qs"
proof (induction ps arbitrary: r qs)
  case Nil
  then show ?case by (cases qs) auto
next
  case (Cons p ps)
  then show ?case by (cases qs) auto
qed

text \<open>Memory outside the free pages belongs to the clients: changing it keeps the list.\<close>

lemma kmem_inv_frame:
  assumes "kmem_inv kend s ps"
    and "\<And>p a. p \<in> set ps \<Longrightarrow> in_page p a \<Longrightarrow> m a = km_mem s a"
  shows "kmem_inv kend (s\<lparr>km_mem := m\<rparr>) ps"
proof -
  have "fl m (km_freelist s) ps = fl (km_mem s) (km_freelist s) ps"
    by (rule fl_cong) (use assms(2) in_page_word in simp)
  with assms(1) show ?thesis by (simp add: kmem_inv_def)
qed

text \<open>Writing to a page that is not free keeps the free list.\<close>

lemma kmem_inv_page_write:
  assumes inv: "kmem_inv kend s ps" and p: "p mod PGSIZE = 0" "p \<notin> set ps"
    and m: "\<And>a. \<not> in_page p a \<Longrightarrow> m a = km_mem s a"
  shows "kmem_inv kend (s\<lparr>km_mem := m\<rparr>) ps"
proof (rule kmem_inv_frame [OF inv])
  fix q a
  assume q: "q \<in> set ps" "in_page q a"
  then have "q mod PGSIZE = 0" "q \<noteq> p" using inv p by (auto simp: kmem_inv_def page_ok_def)
  then have "\<not> in_page p a" using in_page_unique [of q p a] p q by auto
  then show "m a = km_mem s a" by (rule m)
qed

lemma kfree_ok:
  assumes "kmem_inv kend s ps" "page_ok kend p" "p \<notin> set ps"
  shows "\<exists>s'. kfree kend p s = Inr s' \<and> kmem_inv kend s' (p # ps) \<and>
    km_use_lock s' = km_use_lock s \<and>
    (\<forall>a. \<not> in_page p a \<longrightarrow> km_mem s' a = km_mem s a) \<and>
    (\<forall>a. in_page p a \<longrightarrow> 4 \<le> unat (a - p) \<longrightarrow> km_mem s' a = 1)"
proof -
  define m where "m = st32 (memset (km_mem s) p 1 PGSIZE) p (km_freelist s)"
  define s' where "s' = s\<lparr>km_mem := m, km_freelist := p\<rparr>"
  have run: "kfree kend p s = Inr s'"
    using assms(2) by (auto simp: kfree_def page_ok_def s'_def m_def Let_def)
  have m: "m a = (if unat (a - p) < 4 then byte_of (km_freelist s) (unat (a - p))
      else if in_page p a then 1 else km_mem s a)" for a
    by (simp add: m_def st32_apply memset_fill fill_def in_page_def PGSIZE_def)
  have "fl m (km_freelist s) ps = fl (km_mem s) (km_freelist s) ps"
  proof (rule fl_cong)
    fix q :: u32 and k :: nat
    assume q: "q \<in> set ps" and k: "k < 4"
    have "in_page q (q + of_nat k)" using k by (intro in_page_word) simp
    moreover have "q mod PGSIZE = 0" "p mod PGSIZE = 0" "q \<noteq> p"
      using assms q by (auto simp: kmem_inv_def page_ok_def)
    ultimately have "\<not> in_page p (q + of_nat k)"
      using in_page_unique [of q p "q + of_nat k"] by auto
    then show "m (q + of_nat k) = km_mem s (q + of_nat k)" by (auto simp: m in_page_def)
  qed
  moreover have "ld32 m p = km_freelist s" by (simp add: m_def)
  ultimately have "kmem_inv kend s' (p # ps)"
    using assms by (auto simp: kmem_inv_def s'_def)
  with run m show ?thesis by (intro exI [of _ s']) (auto simp: s'_def in_page_def)
qed

lemma kalloc_ok:
  assumes "kmem_inv kend s (p # ps)"
  shows "\<exists>s'. kalloc s = (p, s') \<and> kmem_inv kend s' ps \<and> km_mem s' = km_mem s \<and>
    km_use_lock s' = km_use_lock s"
  using assms by (auto simp: kmem_inv_def kalloc_def Let_def)

lemma kalloc_empty: "kmem_inv kend s [] \<Longrightarrow> kalloc s = (0, s)"
  by (auto simp: kmem_inv_def kalloc_def Let_def)

section \<open>The allocator as an interface\<close>

text \<open>
  What the clients of the allocator (kernel stacks, page tables, user pages, pipes) rely
  on: \<open>free s\<close> is the abstract list of free pages.
\<close>

locale page_allocator =
  fixes inv :: "'s \<Rightarrow> u32 list \<Rightarrow> bool"
    and ok :: "u32 \<Rightarrow> bool"
    and alloc :: "'s \<Rightarrow> u32 \<times> 's"
    and release :: "u32 \<Rightarrow> 's \<Rightarrow> 's result"
  assumes alloc_none: "inv s [] \<Longrightarrow> alloc s = (0, s)"
    and alloc_some: "inv s (p # ps) \<Longrightarrow> \<exists>s'. alloc s = (p, s') \<and> inv s' ps"
    and release_ok: "inv s ps \<Longrightarrow> ok p \<Longrightarrow> p \<notin> set ps \<Longrightarrow> \<exists>s'. release p s = Inr s' \<and> inv s' (p # ps)"
    and inv_pages: "inv s ps \<Longrightarrow> distinct ps \<and> (\<forall>p\<in>set ps. ok p \<and> p \<noteq> 0)"
begin

primrec alloc_n :: "nat \<Rightarrow> 's \<Rightarrow> u32 list \<times> 's" where
  "alloc_n 0 s = ([], s)"
| "alloc_n (Suc n) s =
     (let (p, s1) = alloc s; (ps, s2) = alloc_n n s1 in (p # ps, s2))"

text \<open>\<open>n\<close> allocations with enough free pages return \<open>n\<close> distinct non-null pages.\<close>

lemma alloc_n_take:
  "inv s ps \<Longrightarrow> n \<le> length ps \<Longrightarrow> \<exists>s'. alloc_n n s = (take n ps, s') \<and> inv s' (drop n ps)"
proof (induction n arbitrary: s ps)
  case (Suc n)
  then obtain p qs where ps: "ps = p # qs" by (cases ps) auto
  with Suc.prems obtain s1 where s1: "alloc s = (p, s1)" "inv s1 qs"
    using alloc_some by blast
  with Suc.IH [OF s1(2)] Suc.prems(2) ps obtain s2 where
    "alloc_n n s1 = (take n qs, s2)" "inv s2 (drop n qs)" by auto
  with s1 ps show ?case by simp
qed simp

lemma alloc_n_distinct:
  assumes "inv s ps" "n \<le> length ps" "alloc_n n s = (qs, s')"
  shows "length qs = n" "distinct qs" "0 \<notin> set qs" "set qs \<inter> set (drop n ps) = {}"
proof -
  from alloc_n_take [OF assms(1,2)] assms(3) have qs: "qs = take n ps" by auto
  have d: "distinct (take n ps @ drop n ps)" and nz: "0 \<notin> set ps"
    using inv_pages [OF assms(1)] by auto
  show "length qs = n" "distinct qs" "0 \<notin> set qs" "set qs \<inter> set (drop n ps) = {}"
    using qs assms(2) d nz by (auto simp del: append_take_drop_id dest: in_set_takeD)
qed

lemma release_alloc:
  assumes "inv s ps" "ok p" "p \<notin> set ps"
  shows "\<exists>s1 s2. release p s = Inr s1 \<and> alloc s1 = (p, s2) \<and> inv s2 ps"
  using release_ok [OF assms] alloc_some by blast

end

interpretation kpages: page_allocator "kmem_inv kend" "page_ok kend" kalloc "kfree kend"
  for kend
proof unfold_locales
  fix s :: kmem and p :: u32 and ps :: "u32 list"
  show "kmem_inv kend s [] \<Longrightarrow> kalloc s = (0, s)" by (rule kalloc_empty)
  show "kmem_inv kend s (p # ps) \<Longrightarrow> \<exists>s'. kalloc s = (p, s') \<and> kmem_inv kend s' ps"
    using kalloc_ok by blast
  show "kmem_inv kend s ps \<Longrightarrow> page_ok kend p \<Longrightarrow> p \<notin> set ps \<Longrightarrow>
      \<exists>s'. kfree kend p s = Inr s' \<and> kmem_inv kend s' (p # ps)"
    using kfree_ok by blast
  show "kmem_inv kend s ps \<Longrightarrow> distinct ps \<and> (\<forall>p\<in>set ps. page_ok kend p \<and> p \<noteq> 0)"
    by (metis kmem_inv_def page_ok_zero)
qed

section \<open>Initialisation\<close>

text \<open>The pages that \<open>freerange\<close> frees, in the order it frees them.\<close>

definition pages_from :: "u32 \<Rightarrow> nat \<Rightarrow> u32 list" where
  "pages_from p n = map (\<lambda>i. p + of_nat (4096 * i)) [0..<n]"

lemma pages_from_Suc: "pages_from p (Suc n) = p # pages_from (p + 4096) n"
proof -
  have "[0..<Suc n] = 0 # map Suc [0..<n]" by (simp add: map_Suc_upt upt_conv_Cons)
  then show ?thesis by (simp add: pages_from_def o_def algebra_simps)
qed

lemma page_ok_next:
  assumes "p mod PGSIZE = 0" "kend \<le> p" "KERNBASE \<le> p" "unat p + 4096 \<le> 0x8E000000"
  shows "page_ok kend p" "unat (p + 4096) = unat p + 4096" "(p + 4096) mod PGSIZE = 0"
proof -
  have "unat (V2P p) = unat p - 0x80000000"
    using assms(3) unfolding V2P_def by (subst unat_sub) (simp_all add: KERNBASE_def)
  moreover have "0x80000000 \<le> unat p" using assms(3) by (simp add: KERNBASE_def word_le_nat_alt)
  ultimately show "page_ok kend p"
    using assms by (auto simp: page_ok_def PHYSTOP_def word_less_nat_alt)
  show u: "unat (p + 4096) = unat p + 4096"
    using assms(4) by (subst unat_add_u32) simp_all
  have "unat ((p + 4096) mod PGSIZE) = 0"
    using page_aligned [OF assms(1)] u by (simp add: unat_mod PGSIZE_def dvd_eq_mod_eq_0)
  then show "(p + 4096) mod PGSIZE = 0" by (simp add: unat_eq_0)
qed

lemma freerange_loop_ok:
  assumes "kmem_inv kend s ps" "p mod PGSIZE = 0" "kend \<le> p" "KERNBASE \<le> p"
    and "unat p + 4096 * n \<le> unat vend" "unat vend < unat p + 4096 * Suc n"
    and "unat vend \<le> 0x8E000000" "set (pages_from p n) \<inter> set ps = {}"
  shows "\<exists>s'. freerange_loop kend p vend s = Inr s' \<and>
    kmem_inv kend s' (rev (pages_from p n) @ ps) \<and> km_use_lock s' = km_use_lock s"
  using assms
proof (induction n arbitrary: p s ps)
  case 0
  have "unat (p + PGSIZE) = unat p + 4096"
    using 0 by (subst unat_add_u32) (simp_all add: PGSIZE_def)
  with 0 have "\<not> p + PGSIZE \<le> vend" by (simp add: word_le_nat_alt)
  with 0 show ?case by (subst freerange_loop.simps) (simp add: pages_from_def)
next
  case (Suc n)
  note nxt = page_ok_next [OF Suc.prems(2-4)]
  have b: "unat p + 4096 \<le> 0x8E000000" using Suc.prems by simp
  have le: "p + PGSIZE \<le> vend"
    using nxt(2) [OF b] Suc.prems(5) by (simp add: word_le_nat_alt PGSIZE_def)
  have p: "p \<notin> set ps" using Suc.prems(8) by (simp add: pages_from_Suc)
  obtain s1 where s1: "kfree kend p s = Inr s1" "kmem_inv kend s1 (p # ps)"
    "km_use_lock s1 = km_use_lock s"
    using kfree_ok [OF Suc.prems(1) nxt(1) [OF b] p] by blast
  have "p \<notin> set (pages_from (p + 4096) n)"
  proof
    assume "p \<in> set (pages_from (p + 4096) n)"
    then obtain i where i: "i < n" "p = p + 4096 + of_nat (4096 * i)"
      by (auto simp: pages_from_def)
    have "unat (p + 4096 + of_nat (4096 * i)) = unat p + 4096 + 4096 * i"
      using nxt(2) [OF b] i Suc.prems(5,7) unat_of_nat_u32 [of "4096 * i"]
      by (subst unat_add_u32) auto
    with arg_cong [OF i(2), of unat] show False by linarith
  qed
  then have apart: "set (pages_from (p + 4096) n) \<inter> set (p # ps) = {}"
    using Suc.prems(8) by (auto simp: pages_from_Suc)
  have "kend \<le> p + 4096" "KERNBASE \<le> p + 4096"
    using Suc.prems(3,4) nxt(2) [OF b] by (simp_all add: word_le_nat_alt)
  then obtain s2 where "freerange_loop kend (p + 4096) vend s1 = Inr s2"
    "kmem_inv kend s2 (rev (pages_from (p + 4096) n) @ p # ps)" "km_use_lock s2 = km_use_lock s1"
    using Suc.IH [OF s1(2) nxt(3) [OF b]] Suc.prems(5-7) nxt(2) [OF b] apart by auto
  with le s1 show ?case
    by (subst freerange_loop.simps) (simp add: pages_from_Suc PGSIZE_def)
qed

lemma PGROUNDUP_spec:
  assumes "unat a \<le> 0xFFFFF000"
  shows "PGROUNDUP a mod PGSIZE = 0" "unat a \<le> unat (PGROUNDUP a)"
    "unat (PGROUNDUP a) < unat a + 4096"
proof -
  define b where "b = a + 4095"
  have b: "unat b = unat a + 4095"
    using assms unfolding b_def by (subst unat_add_u32) simp_all
  have "PGROUNDUP a = b AND NOT (mask 12)"
    by (simp add: PGROUNDUP_def b_def PGSIZE_def mask_eq_exp_minus_1 add.commute)
  also have "\<dots> = push_bit 12 (drop_bit 12 b)"
    by (rule bit_word_eqI) (auto simp: bit_simps)
  finally have r: "PGROUNDUP a = push_bit 12 (drop_bit 12 b)" .
  have "PGROUNDUP a = b div 4096 * 4096"
    unfolding r by (simp add: drop_bit_eq_div push_bit_eq_mult)
  moreover have "unat (b div 4096) * unat (4096 :: u32) < 2 ^ LENGTH(32)"
    using unat_u32_lt [of b] by (simp add: unat_div)
  then have "unat (b div 4096 * 4096) = unat (b div 4096) * unat (4096 :: u32)"
    by (simp only: unat_mult_lem)
  ultimately have u: "unat (PGROUNDUP a) = unat b div 4096 * 4096"
    by (simp add: unat_div)
  have "unat (PGROUNDUP a mod PGSIZE) = 0" by (simp add: unat_mod u PGSIZE_def)
  then show "PGROUNDUP a mod PGSIZE = 0" by (simp add: unat_eq_0)
  show "unat a \<le> unat (PGROUNDUP a)" "unat (PGROUNDUP a) < unat a + 4096"
    using div_mult_mod_eq [of "unat b" 4096] mod_less_divisor [of 4096 "unat b"] b
    unfolding u by linarith+
qed

lemma freerange_ok:
  assumes "kmem_inv kend s ps" "kend \<le> vstart" "KERNBASE \<le> vstart"
    and "vstart \<le> vend" "unat (PGROUNDUP vstart) \<le> unat vend" "unat vend \<le> 0x8E000000"
  defines "n \<equiv> (unat vend - unat (PGROUNDUP vstart)) div 4096"
  assumes "set (pages_from (PGROUNDUP vstart) n) \<inter> set ps = {}"
  shows "\<exists>s'. freerange kend vstart vend s = Inr s' \<and>
    kmem_inv kend s' (rev (pages_from (PGROUNDUP vstart) n) @ ps) \<and>
    km_use_lock s' = km_use_lock s"
proof -
  have b: "unat vstart \<le> 0xFFFFF000"
    using assms(4,6) by (simp add: word_le_nat_alt)
  note r = PGROUNDUP_spec [OF b]
  have "kend \<le> PGROUNDUP vstart" "KERNBASE \<le> PGROUNDUP vstart"
    using assms(2,3) r(2) by (simp_all add: word_le_nat_alt)
  moreover have "unat (PGROUNDUP vstart) + 4096 * n \<le> unat vend"
    "unat vend < unat (PGROUNDUP vstart) + 4096 * Suc n"
    using assms(5) times_div_less_eq_dividend [of 4096 "unat vend - unat (PGROUNDUP vstart)"]
      dividend_less_times_div [of 4096 "unat vend - unat (PGROUNDUP vstart)"]
    unfolding n_def by auto
  ultimately show ?thesis
    unfolding freerange_def
    using assms(1,6,8) r(1) by (intro freerange_loop_ok) auto
qed

section \<open>Properties\<close>

text \<open>
  C23. The free list is a list of free pages. Freeing a page that is page-aligned, above the
  kernel image, below \<open>PHYSTOP\<close> and not already free succeeds, pushes it on the list
  threaded through memory, fills the rest of the page with ones and touches no other page;
  the next \<open>kalloc\<close> returns that page and restores the list.
\<close>

theorem kfree_kalloc_lifo:
  assumes "kmem_inv kend s ps" "page_ok kend p" "p \<notin> set ps"
  shows "\<exists>s1 s2. kfree kend p s = Inr s1 \<and> kmem_inv kend s1 (p # ps) \<and>
    kalloc s1 = (p, s2) \<and> kmem_inv kend s2 ps \<and>
    (\<forall>a. \<not> in_page p a \<longrightarrow> km_mem s2 a = km_mem s a) \<and>
    (\<forall>a. in_page p a \<longrightarrow> 4 \<le> unat (a - p) \<longrightarrow> km_mem s2 a = 1)"
proof -
  obtain s1 where s1: "kfree kend p s = Inr s1" "kmem_inv kend s1 (p # ps)"
    "\<forall>a. \<not> in_page p a \<longrightarrow> km_mem s1 a = km_mem s a"
    "\<forall>a. in_page p a \<longrightarrow> 4 \<le> unat (a - p) \<longrightarrow> km_mem s1 a = 1"
    using kfree_ok [OF assms] by blast
  obtain s2 where "kalloc s1 = (p, s2)" "kmem_inv kend s2 ps" "km_mem s2 = km_mem s1"
    using kalloc_ok [OF s1(2)] by blast
  with s1 show ?thesis by auto
qed

definition demo_kmem :: kmem where
  "demo_kmem = \<lparr>km_mem = (\<lambda>_. 0), km_use_lock = False, km_freelist = 0\<rparr>"

theorem kfree_kalloc_lifo_witness:
  "\<exists>s1 s2. kfree 0x80150000 0x80200000 demo_kmem = Inr s1 \<and> kalloc s1 = (0x80200000, s2) \<and>
    kmem_inv 0x80150000 s2 []"
proof -
  have "kmem_inv 0x80150000 demo_kmem []" by (simp add: kmem_inv_def demo_kmem_def)
  moreover have "page_ok 0x80150000 0x80200000" by (simp add: page_ok_def V2P_def xv6_consts)
  moreover have "(0x80200000 :: u32) \<notin> set []" by simp
  ultimately show ?thesis using kfree_kalloc_lifo by blast
qed

text \<open>
  C18. Booting the allocator. \<open>kinit1\<close> on an empty allocator returns without a panic and
  leaves exactly the whole pages of \<open>[vstart, vend)\<close> on the free list, each once; from then
  on any number of \<open>kalloc\<close> calls up to the number of those pages return distinct non-null
  pages.
\<close>

theorem kinit1_frees_all_pages:
  assumes "km_freelist s = 0" "kend \<le> vstart" "KERNBASE \<le> vstart"
    and "vstart \<le> vend" "unat (PGROUNDUP vstart) \<le> unat vend" "unat vend \<le> 0x8E000000"
  defines "n \<equiv> (unat vend - unat (PGROUNDUP vstart)) div 4096"
  shows "\<exists>s'. kinit1 kend vstart vend s = Inr s' \<and>
    kmem_inv kend s' (rev (pages_from (PGROUNDUP vstart) n)) \<and> \<not> km_use_lock s' \<and>
    (\<forall>k\<le>n. \<exists>qs s''. kpages.alloc_n k s' = (qs, s'') \<and> length qs = k \<and> distinct qs \<and> 0 \<notin> set qs)"
proof -
  let ?ps = "rev (pages_from (PGROUNDUP vstart) n)"
  have inv: "kmem_inv kend (s\<lparr>km_use_lock := False\<rparr>) []"
    using assms(1) by (simp add: kmem_inv_def)
  have "set (pages_from (PGROUNDUP vstart) n) \<inter> set [] = {}" by simp
  from freerange_ok [OF inv assms(2-6) this [unfolded n_def]]
  obtain s' where s': "kinit1 kend vstart vend s = Inr s'" "kmem_inv kend s' ?ps" "\<not> km_use_lock s'"
    unfolding kinit1_def n_def [symmetric] append_Nil2 by auto
  have "\<exists>qs s''. kpages.alloc_n k s' = (qs, s'') \<and> length qs = k \<and> distinct qs \<and> 0 \<notin> set qs"
    if "k \<le> n" for k
  proof -
    have k: "k \<le> length ?ps" using that by (simp add: pages_from_def)
    obtain qs s'' where q: "kpages.alloc_n k s' = (qs, s'')" by fastforce
    with kpages.alloc_n_distinct [OF s'(2) k q] show ?thesis by blast
  qed
  with s' show ?thesis by blast
qed

theorem kinit1_frees_all_pages_witness:
  "\<exists>s' qs s''. kinit1 0x80150000 0x80200001 0x80206000 demo_kmem = Inr s' \<and>
    kpages.alloc_n 5 s' = (qs, s'') \<and> length qs = 5 \<and> distinct qs"
proof -
  have r: "PGROUNDUP 0x80200001 = 0x80201000" by (simp add: PGROUNDUP_def PGSIZE_def)
  have h: "km_freelist demo_kmem = 0" "(0x80150000 :: u32) \<le> 0x80200001" "KERNBASE \<le> 0x80200001"
    "(0x80200001 :: u32) \<le> 0x80206000" "unat (PGROUNDUP 0x80200001) \<le> unat (0x80206000 :: u32)"
    "unat (0x80206000 :: u32) \<le> 0x8E000000"
    by (simp_all add: demo_kmem_def KERNBASE_def r)
  have n: "(unat (0x80206000 :: u32) - unat (PGROUNDUP 0x80200001)) div 4096 = 5"
    by (simp add: r)
  from kinit1_frees_all_pages [OF h] show ?thesis unfolding n by blast
qed

end
