(* ===== verification/Xv6_Ptable.thy ===== *)
theory Xv6_Ptable
  imports Xv6_Kalloc
begin

text \<open>
  The process table (\<open>proc.h\<close>, \<open>proc.c\<close>): process states, \<open>struct proc\<close>, the
  compare-and-swap that replaced the table lock, \<open>allocpid\<close> under concurrency,
  \<open>allocproc\<close>, \<open>wakeup1\<close> and \<open>kill\<close>.
\<close>

section \<open>Data\<close>

datatype procstate =
    UNUSED | EMBRYO | SLEEPING | RUNNABLE | RUNNING | ZOMBIE
  | NEG_UNUSED | NEG_SLEEPING | NEG_RUNNABLE | NEG_RUNNING | NEG_ZOMBIE

text \<open>The fields of \<open>struct trapframe\<close> without its padding.\<close>

record trapframe =
  tf_edi :: u32
  tf_esi :: u32
  tf_ebp :: u32
  tf_oesp :: u32
  tf_ebx :: u32
  tf_edx :: u32
  tf_ecx :: u32
  tf_eax :: u32
  tf_gs :: u16
  tf_fs :: u16
  tf_es :: u16
  tf_ds :: u16
  tf_trapno :: u32
  tf_err :: u32
  tf_eip :: u32
  tf_cs :: u16
  tf_eflags :: u32
  tf_esp :: u32
  tf_ss :: u16

text \<open>
  \<open>struct proc\<close>. Pointers into the process table and the file table are indices, \<open>chan\<close>,
  \<open>pgdir\<close>, \<open>kstack\<close>, \<open>context\<close> and the trap frame's address are addresses (0 is null).
  \<open>p_tf\<close> is the trap frame that \<open>p->tf\<close> points to; each process owns its kernel stack, so
  no other pointer reaches it.
\<close>

record proc =
  p_sz :: u32
  p_pgdir :: u32
  p_kstack :: u32
  p_state :: procstate
  p_pid :: int
  p_parent :: "nat option"
  p_tfaddr :: u32
  p_tf :: trapframe
  p_context :: u32
  p_chan :: u32
  p_killed :: bool
  p_ofile :: "nat option list"
  p_cwd :: "nat option"
  p_name :: string
  p_pending :: u32
  p_mask :: u32
  p_handlers :: "u32 list"
  p_backup :: trapframe
  p_mask_backup :: u32

text \<open>
  \<open>cas(&p->state, expected, newval)\<close>: \<open>lock; cmpxchgl\<close>, whose zero flag is the result.
\<close>

definition cas :: "proc \<Rightarrow> procstate \<Rightarrow> procstate \<Rightarrow> bool \<times> proc" where
  "cas p expected newval =
     (if p_state p = expected then (True, p\<lparr>p_state := newval\<rparr>) else (False, p))"

section \<open>allocpid\<close>

text \<open>
  \<open>nextpid\<close> is a volatile variable that \<open>allocpid\<close> reads three times before its
  compare-and-swap. A thread of the model stands before the first read, or has done one,
  two or three of them; a failed swap starts over. \<open>pd_given\<close> lists the pids handed out.
\<close>

datatype pidpc =
    PStart
  | PRead1 int \<comment> \<open>old\<close>
  | PRead2 int int \<comment> \<open>old, pid\<close>
  | PRead3 int int int \<comment> \<open>old, pid, the new value passed to \<open>cas\<close>\<close>

record pidsys =
  pd_next :: int
  pd_pc :: "nat \<Rightarrow> pidpc"
  pd_given :: "int list"

fun allocpid_step :: "nat \<Rightarrow> pidsys \<Rightarrow> pidsys" where
  "allocpid_step t s =
     (case pd_pc s t of
        PStart \<Rightarrow> s\<lparr>pd_pc := (pd_pc s)(t := PRead1 (pd_next s))\<rparr>
      | PRead1 old \<Rightarrow> s\<lparr>pd_pc := (pd_pc s)(t := PRead2 old (pd_next s + 1))\<rparr>
      | PRead2 old pid \<Rightarrow> s\<lparr>pd_pc := (pd_pc s)(t := PRead3 old pid (pd_next s + 1))\<rparr>
      | PRead3 old pid newval \<Rightarrow>
          (if pd_next s = old
           then s\<lparr>pd_next := newval, pd_pc := (pd_pc s)(t := PStart), pd_given := pid # pd_given s\<rparr>
           else s\<lparr>pd_pc := (pd_pc s)(t := PStart)\<rparr>))"

definition pid_init :: "pidsys \<Rightarrow> bool" where
  "pid_init s \<longleftrightarrow> pd_next s = 1 \<and> (\<forall>t. pd_pc s t = PStart) \<and> pd_given s = []"

text \<open>A schedule is the list of threads in the order they take a step.\<close>

definition pid_run :: "nat list \<Rightarrow> pidsys \<Rightarrow> pidsys" where
  "pid_run ts s = fold allocpid_step ts s"

fun pidpc_ok :: "int \<Rightarrow> pidpc \<Rightarrow> bool" where
  "pidpc_ok n PStart = True"
| "pidpc_ok n (PRead1 old) = (old \<le> n)"
| "pidpc_ok n (PRead2 old pid) = (old \<le> pid - 1 \<and> pid - 1 \<le> n)"
| "pidpc_ok n (PRead3 old pid newval) = (old \<le> pid - 1 \<and> pid - 1 \<le> newval - 1 \<and> newval - 1 \<le> n)"

definition pid_inv :: "pidsys \<Rightarrow> bool" where
  "pid_inv s \<longleftrightarrow> (\<forall>t. pidpc_ok (pd_next s) (pd_pc s t)) \<and>
     distinct (pd_given s) \<and> (\<forall>p\<in>set (pd_given s). 2 \<le> p \<and> p \<le> pd_next s) \<and> 1 \<le> pd_next s"

lemma pidpc_ok_mono: "pidpc_ok n pc \<Longrightarrow> n \<le> n' \<Longrightarrow> pidpc_ok n' pc"
  by (cases pc) auto

lemma allocpid_step_inv: "pid_inv s \<Longrightarrow> pid_inv (allocpid_step t s)"
proof -
  assume inv: "pid_inv s"
  then have ok: "pidpc_ok (pd_next s) (pd_pc s t)" by (simp add: pid_inv_def)
  show ?thesis
  proof (cases "pd_pc s t")
    case (PRead3 old pid newval)
    show ?thesis
    proof (cases "pd_next s = old")
      case True
      with ok PRead3 have "pid = pd_next s + 1" "newval = pd_next s + 1" by auto
      moreover have "pidpc_ok (pd_next s + 1) (pd_pc s t')" for t'
        using inv pidpc_ok_mono [of "pd_next s" "pd_pc s t'" "pd_next s + 1"]
        by (simp add: pid_inv_def)
      ultimately show ?thesis using inv True PRead3 by (auto simp: pid_inv_def)
    next
      case False
      with inv PRead3 show ?thesis by (simp add: pid_inv_def)
    qed
  qed (use inv ok in \<open>simp_all add: pid_inv_def\<close>)
qed

lemma pid_run_inv: "pid_inv s \<Longrightarrow> pid_inv (pid_run ts s)"
  unfolding pid_run_def by (induction ts arbitrary: s) (simp_all del: allocpid_step.simps add: allocpid_step_inv)

section \<open>allocproc\<close>

text \<open>
  The state \<open>allocproc\<close> works on: the table, \<open>nextpid\<close> and the page allocator with the
  kernel's memory. \<open>forkret\<close> and \<open>trapret\<close> are code addresses, parameters of the model.
\<close>

record ptable =
  pt_proc :: "proc list"
  pt_nextpid :: int
  pt_initproc :: "nat option"
  pt_kmem :: kmem

text \<open>Without interference the \<open>cas\<close> of \<open>allocpid\<close> succeeds at once.\<close>

definition allocpid :: "ptable \<Rightarrow> int \<times> ptable" where
  "allocpid s = (pt_nextpid s + 1, s\<lparr>pt_nextpid := pt_nextpid s + 1\<rparr>)"

fun cas_scan :: "procstate \<Rightarrow> procstate \<Rightarrow> proc list \<Rightarrow> nat \<Rightarrow> (nat \<times> proc) option" where
  "cas_scan expected newval [] i = None"
| "cas_scan expected newval (p # ps) i =
     (case cas p expected newval of
        (True, p') \<Rightarrow> Some (i, p')
      | (False, _) \<Rightarrow> cas_scan expected newval ps (i + 1))"

definition sizeof_trapframe :: u32 where "sizeof_trapframe = 76"
definition sizeof_context :: u32 where "sizeof_context = 20"

definition allocproc :: "u32 \<Rightarrow> u32 \<Rightarrow> ptable \<Rightarrow> nat option \<times> ptable" where
  "allocproc forkret trapret s =
     (case cas_scan UNUSED EMBRYO (pt_proc s) 0 of
        None \<Rightarrow> (None, s)
      | Some (i, p) \<Rightarrow>
          let p = p\<lparr>p_handlers := replicate 32 SIG_DFL, p_pending := 0, p_mask := 0\<rparr>;
              (pid, s) = allocpid s;
              p = p\<lparr>p_pid := pid\<rparr>;
              (kstack, km) = kalloc (pt_kmem s);
              p = p\<lparr>p_kstack := kstack\<rparr>;
              s = s\<lparr>pt_kmem := km\<rparr>
          in if kstack = 0
             then (None, s\<lparr>pt_proc := (pt_proc s)[i := snd (cas p EMBRYO UNUSED)]\<rparr>)
             else let sp = kstack + KSTACKSIZE;
                      sp = sp - sizeof_trapframe;
                      p = p\<lparr>p_tfaddr := sp\<rparr>;
                      sp = sp - 4;
                      m = st32 (km_mem km) sp trapret;
                      sp = sp - sizeof_context;
                      p = p\<lparr>p_context := sp\<rparr>;
                      m = memset m sp 0 sizeof_context;
                      m = st32 m (sp + 16) forkret
                  in (Some i, s\<lparr>pt_proc := (pt_proc s)[i := p], pt_kmem := km\<lparr>km_mem := m\<rparr>\<rparr>))"

section \<open>wakeup and kill\<close>

text \<open>
  \<open>wakeup1\<close> waits for a process that is on its way to sleep; nothing in this sequential
  model will move it, so the loop is \<open>Spins\<close>.
\<close>

fun wakeup1 :: "u32 \<Rightarrow> proc list \<Rightarrow> proc list result" where
  "wakeup1 chan [] = Inr []"
| "wakeup1 chan (p # ps) =
     (if p_chan p = chan
      then if fst (cas p NEG_SLEEPING NEG_SLEEPING) then Inl Spins
           else andthen (wakeup1 chan ps) (\<lambda>ps. Inr (snd (cas p SLEEPING RUNNABLE) # ps))
      else andthen (wakeup1 chan ps) (\<lambda>ps. Inr (p # ps)))"

text \<open>
  \<open>1 << n\<close> on x86: the shift count is taken modulo 32.
\<close>

definition shl1 :: "int \<Rightarrow> u32" where
  "shl1 n = push_bit (nat (n mod 32)) 1"

fun kill_scan :: "int \<Rightarrow> u32 \<Rightarrow> proc list \<Rightarrow> proc list option" where
  "kill_scan pid b [] = None"
| "kill_scan pid b (p # ps) =
     (if p_pid p = pid then Some (p\<lparr>p_pending := p_pending p OR b\<rparr> # ps)
      else map_option (Cons p) (kill_scan pid b ps))"

definition kill :: "int \<Rightarrow> int \<Rightarrow> proc list \<Rightarrow> int \<times> proc list" where
  "kill pid signum ps =
     (if signum > 32 then (-1, ps)
      else case kill_scan pid (shl1 signum) ps of
             None \<Rightarrow> (-1, ps)
           | Some ps' \<Rightarrow> (0, ps'))"


section \<open>Lemmas\<close>

lemma cas_simps [simp]:
  "fst (cas p e n) \<longleftrightarrow> p_state p = e"
  "p_state p = e \<Longrightarrow> cas p e n = (True, p\<lparr>p_state := n\<rparr>)"
  "p_state p \<noteq> e \<Longrightarrow> cas p e n = (False, p)"
  by (simp_all add: cas_def)

lemma cas_scan_Some:
  "cas_scan e n ps k = Some (j, q) \<Longrightarrow>
   \<exists>i < length ps. j = k + i \<and> p_state (ps ! i) = e \<and> q = (ps ! i)\<lparr>p_state := n\<rparr> \<and>
     (\<forall>i' < i. p_state (ps ! i') \<noteq> e)"
proof (induction ps arbitrary: k)
  case (Cons p ps)
  show ?case
  proof (cases "p_state p = e")
    case True
    with Cons.prems show ?thesis by (intro exI [of _ 0]) simp
  next
    case False
    with Cons.prems have "cas_scan e n ps (k + 1) = Some (j, q)" by simp
    from Cons.IH [OF this] obtain i where i: "i < length ps" "j = k + 1 + i"
      "p_state (ps ! i) = e" "q = (ps ! i)\<lparr>p_state := n\<rparr>" "\<forall>i' < i. p_state (ps ! i') \<noteq> e" by blast
    have "\<forall>i' < Suc i. p_state ((p # ps) ! i') \<noteq> e"
      using False i(5) by (auto simp: less_Suc_eq_0_disj)
    with i show ?thesis by (intro exI [of _ "Suc i"]) simp
  qed
qed simp

lemma cas_scan_None: "cas_scan e n ps k = None \<longleftrightarrow> (\<forall>p\<in>set ps. p_state p \<noteq> e)"
  by (induction ps arbitrary: k) (auto simp: cas_def)

lemma kill_scan_Some:
  "kill_scan pid b ps = Some ps' \<Longrightarrow>
   \<exists>i<length ps. p_pid (ps ! i) = pid \<and> (\<forall>j<i. p_pid (ps ! j) \<noteq> pid) \<and>
     ps' = ps[i := (ps ! i)\<lparr>p_pending := p_pending (ps ! i) OR b\<rparr>]"
proof (induction ps arbitrary: ps')
  case (Cons p ps)
  show ?case
  proof (cases "p_pid p = pid")
    case True
    with Cons.prems show ?thesis by (intro exI [of _ 0]) simp
  next
    case False
    with Cons.prems obtain qs where qs: "kill_scan pid b ps = Some qs" "ps' = p # qs" by auto
    from Cons.IH [OF qs(1)] obtain i where i: "i < length ps" "p_pid (ps ! i) = pid"
      "\<forall>j<i. p_pid (ps ! j) \<noteq> pid" "qs = ps[i := (ps ! i)\<lparr>p_pending := p_pending (ps ! i) OR b\<rparr>]"
      by blast
    have "\<forall>j<Suc i. p_pid ((p # ps) ! j) \<noteq> pid"
      using False i(3) by (auto simp: less_Suc_eq_0_disj)
    with i qs show ?thesis by (intro exI [of _ "Suc i"]) simp
  qed
qed simp

lemma kill_scan_None: "kill_scan pid b ps = None \<longleftrightarrow> pid \<notin> p_pid ` set ps"
  by (induction ps) auto

lemma bit_shl1: "0 \<le> n \<Longrightarrow> n < 32 \<Longrightarrow> bit (shl1 n) k \<longleftrightarrow> k = nat n"
  by (auto simp: shl1_def bit_simps)

text \<open>The stack that \<open>allocproc\<close> builds, in terms of the words read back from it.\<close>

lemma stack_layout:
  fixes m :: mem and k t f :: u32
  defines "m' \<equiv> st32 (memset (st32 m (k + 4016) t) (k + 3996) 0 20) (k + 4012) f"
  shows "ld32 m' (k + 4012) = f" and "ld32 m' (k + 4016) = t"
    and "ld32 m' (k + 3996) = 0" and "ld32 m' (k + 4000) = 0"
    and "ld32 m' (k + 4004) = 0" and "ld32 m' (k + 4008) = 0"
  unfolding m'_def
  by (simp_all add: memset_fill ld32_st32_other ld32_fill_zero ld32_fill_other)

lemma stack_layout_frame:
  fixes m :: mem and k t f :: u32
  assumes "\<not> in_page k a"
  shows "st32 (memset (st32 m (k + 4016) t) (k + 3996) 0 20) (k + 4012) f a = m a"
proof -
  have far: "\<not> unat (a - (k + of_nat c)) < l" if "c + l \<le> 4096" for c l
  proof
    assume l: "unat (a - (k + of_nat c)) < l"
    have "a - k = a - (k + of_nat c) + of_nat c" by simp
    moreover have "unat (a - (k + of_nat c) + of_nat c) = unat (a - (k + of_nat c)) + c"
      using l that by (subst unat_add_u32) (simp_all add: unat_of_nat_u32)
    ultimately have "unat (a - k) = unat (a - (k + of_nat c)) + c" by metis
    with assms l that show False by (simp add: in_page_def)
  qed
  from far [of 4016 4] far [of 3996 20] far [of 4012 4] show ?thesis
    by (simp add: st32_apply memset_fill fill_def)
qed

text \<open>
  The whole of \<open>allocproc\<close> when a slot and a page are there: the first unused slot, a fresh
  pid, and a stack that will start at \<open>forkret\<close> and return to \<open>trapret\<close>.
\<close>

definition fresh_proc :: "int \<Rightarrow> u32 \<Rightarrow> proc \<Rightarrow> proc" where
  "fresh_proc pid kstack p =
     p\<lparr>p_state := EMBRYO, p_handlers := replicate 32 SIG_DFL, p_pending := 0, p_mask := 0,
       p_pid := pid, p_kstack := kstack, p_tfaddr := kstack + 4020, p_context := kstack + 3996\<rparr>"

lemma cas_scan_first:
  "i < length ps \<Longrightarrow> p_state (ps ! i) = e \<Longrightarrow> (\<forall>j<i. p_state (ps ! j) \<noteq> e) \<Longrightarrow>
   cas_scan e n ps k = Some (k + i, (ps ! i)\<lparr>p_state := n\<rparr>)"
proof (induction ps arbitrary: i k)
  case (Cons p ps)
  show ?case
  proof (cases i)
    case (Suc i')
    moreover have "p_state p \<noteq> e" using Cons.prems(3) Suc by auto
    moreover have "\<forall>j<i'. p_state (ps ! j) \<noteq> e" using Cons.prems(3) Suc by auto
    ultimately show ?thesis using Cons.prems Cons.IH [of i' "k + 1"] by simp
  qed (use Cons.prems in simp)
qed simp

lemma allocproc_run:
  assumes inv: "kmem_inv kend (pt_kmem s) (pg # pgs)"
    and i: "i < length (pt_proc s)" "p_state (pt_proc s ! i) = UNUSED"
      "\<forall>j<i. p_state (pt_proc s ! j) \<noteq> UNUSED"
  shows "\<exists>m. allocproc forkret trapret s =
      (Some i, s\<lparr>pt_nextpid := pt_nextpid s + 1,
                 pt_proc := (pt_proc s)[i := fresh_proc (pt_nextpid s + 1) pg (pt_proc s ! i)],
                 pt_kmem := (snd (kalloc (pt_kmem s)))\<lparr>km_mem := m\<rparr>\<rparr>) \<and>
    kmem_inv kend ((snd (kalloc (pt_kmem s)))\<lparr>km_mem := m\<rparr>) pgs \<and>
    ld32 m (pg + 3996 + 16) = forkret \<and> ld32 m (pg + 3996 + 20) = trapret \<and>
    (\<forall>a. \<not> in_page pg a \<longrightarrow> m a = km_mem (pt_kmem s) a)"
proof -
  define m where "m = st32 (memset (st32 (km_mem (pt_kmem s)) (pg + 4016) trapret) (pg + 3996) 0 20)
    (pg + 4012) forkret"
  obtain km where km: "kalloc (pt_kmem s) = (pg, km)" "kmem_inv kend km pgs"
      "km_mem km = km_mem (pt_kmem s)"
    using kalloc_ok [OF inv] by blast
  have pg: "pg \<noteq> 0" "pg mod PGSIZE = 0" "pg \<notin> set pgs"
    using inv by (auto simp: kmem_inv_def page_ok_def)
  have fr: "\<not> in_page pg a \<Longrightarrow> m a = km_mem (pt_kmem s) a" for a
    unfolding m_def by (rule stack_layout_frame)
  have "kmem_inv kend (km\<lparr>km_mem := m\<rparr>) pgs"
    using km pg fr by (intro kmem_inv_page_write [of kend km pgs pg]) auto
  moreover have "ld32 m (pg + 3996 + 16) = forkret" "ld32 m (pg + 3996 + 20) = trapret"
    unfolding m_def using stack_layout(1,2) by (simp_all add: add.assoc)
  moreover have "allocproc forkret trapret s =
      (Some i, s\<lparr>pt_nextpid := pt_nextpid s + 1,
                 pt_proc := (pt_proc s)[i := fresh_proc (pt_nextpid s + 1) pg (pt_proc s ! i)],
                 pt_kmem := km\<lparr>km_mem := m\<rparr>\<rparr>)"
    using km pg cas_scan_first [OF i, of EMBRYO 0]
    by (simp add: allocproc_def allocpid_def fresh_proc_def Let_def sizeof_trapframe_def
        sizeof_context_def KSTACKSIZE_def m_def add.commute)
  ultimately show ?thesis using km fr by auto
qed

lemma allocproc_no_slot:
  "\<forall>p\<in>set (pt_proc s). p_state p \<noteq> UNUSED \<Longrightarrow> allocproc forkret trapret s = (None, s)"
  using cas_scan_None [of UNUSED EMBRYO "pt_proc s" 0] by (simp add: allocproc_def)

section \<open>Properties\<close>

definition demo_proc :: proc where
  "demo_proc =
     (let tf = \<lparr>tf_edi = 0, tf_esi = 0, tf_ebp = 0, tf_oesp = 0, tf_ebx = 0, tf_edx = 0, tf_ecx = 0,
                tf_eax = 0, tf_gs = 0, tf_fs = 0, tf_es = 0, tf_ds = 0, tf_trapno = 0, tf_err = 0,
                tf_eip = 0, tf_cs = 0, tf_eflags = 0, tf_esp = 0, tf_ss = 0\<rparr>
      in \<lparr>p_sz = 0, p_pgdir = 0, p_kstack = 0, p_state = UNUSED, p_pid = 0, p_parent = None,
          p_tfaddr = 0, p_tf = tf, p_context = 0, p_chan = 0, p_killed = False,
          p_ofile = replicate 16 None, p_cwd = None, p_name = [], p_pending = 0, p_mask = 0,
          p_handlers = replicate 32 0, p_backup = tf, p_mask_backup = 0\<rparr>)"



text \<open>
  C20. \<open>allocproc\<close> with an unused slot and a free page takes the first unused slot, makes it
  \<open>EMBRYO\<close> with a fresh pid, no pending or masked signals and default handlers, and builds on
  the new kernel stack a context that starts at \<open>forkret\<close> and returns to \<open>trapret\<close>, just below
  the trap frame that ends the stack. The other slots and the rest of memory do not change and
  the free list loses exactly that page.
\<close>

theorem allocproc_correct:
  assumes "kmem_inv kend (pt_kmem s) (pg # pgs)"
    and "i < length (pt_proc s)" "p_state (pt_proc s ! i) = UNUSED"
      "\<forall>j<i. p_state (pt_proc s ! j) \<noteq> UNUSED"
  shows "\<exists>s'. allocproc forkret trapret s = (Some i, s') \<and>
    (let q = pt_proc s' ! i; m = km_mem (pt_kmem s') in
       p_state q = EMBRYO \<and> p_pid q = pt_nextpid s' \<and> pt_nextpid s' = pt_nextpid s + 1 \<and>
       p_pending q = 0 \<and> p_mask q = 0 \<and> p_handlers q = replicate 32 SIG_DFL \<and>
       p_kstack q = pg \<and> p_tfaddr q + sizeof_trapframe = pg + KSTACKSIZE \<and>
       p_context q + sizeof_context + 4 = p_tfaddr q \<and>
       ld32 m (p_context q + 16) = forkret \<and> ld32 m (p_context q + 20) = trapret) \<and>
    (\<forall>j. j \<noteq> i \<longrightarrow> pt_proc s' ! j = pt_proc s ! j) \<and>
    (\<forall>a. \<not> in_page pg a \<longrightarrow> km_mem (pt_kmem s') a = km_mem (pt_kmem s) a) \<and>
    kmem_inv kend (pt_kmem s') pgs"
  using allocproc_run [OF assms, of forkret trapret] assms(2)
  by (auto simp: Let_def fresh_proc_def sizeof_trapframe_def sizeof_context_def KSTACKSIZE_def)

theorem allocproc_correct_witness:
  "\<exists>s'. allocproc 0x80104000 0x80105000
      \<lparr>pt_proc = [demo_proc\<lparr>p_state := RUNNING\<rparr>, demo_proc, demo_proc], pt_nextpid = 1,
       pt_initproc = Some 0, pt_kmem = demo_kmem\<lparr>km_freelist := 0x80200000\<rparr>\<rparr> = (Some 1, s') \<and>
    p_pid (pt_proc s' ! 1) = 2 \<and> ld32 (km_mem (pt_kmem s')) (p_context (pt_proc s' ! 1) + 16) = 0x80104000"
proof -
  let ?s = "\<lparr>pt_proc = [demo_proc\<lparr>p_state := RUNNING\<rparr>, demo_proc, demo_proc], pt_nextpid = 1,
       pt_initproc = Some 0, pt_kmem = demo_kmem\<lparr>km_freelist := 0x80200000\<rparr>\<rparr>"
  have "kmem_inv 0x80150000 (pt_kmem ?s) [0x80200000]"
    by (simp add: kmem_inv_def demo_kmem_def page_ok_def V2P_def xv6_consts ld32_def)
  moreover have "1 < length (pt_proc ?s)" by simp
  moreover have "p_state (pt_proc ?s ! 1) = UNUSED" by (simp add: demo_proc_def Let_def)
  moreover have "\<forall>j<1. p_state (pt_proc ?s ! j) \<noteq> UNUSED" by simp
  ultimately show ?thesis
    using allocproc_correct [where kend = "0x80150000" and s = ?s and pg = "0x80200000" and pgs = "[]" and i = 1
        and forkret = "0x80104000" and trapret = "0x80105000"]
    by (auto simp: Let_def)
qed

text \<open>
  C28. What \<open>wakeup1\<close> does to the table: it makes runnable exactly the processes that sleep on
  the channel, and it waits exactly when one of them is still on its way to sleep.
\<close>

theorem wakeup1_spec:
  "wakeup1 chan ps =
     (if \<exists>p\<in>set ps. p_chan p = chan \<and> p_state p = NEG_SLEEPING then Inl Spins
      else Inr (map (\<lambda>p. if p_chan p = chan \<and> p_state p = SLEEPING
                         then p\<lparr>p_state := RUNNABLE\<rparr> else p) ps))"
proof (induction ps)
  case (Cons p ps)
  show ?case
    by (cases "p_chan p = chan"; cases "p_state p = NEG_SLEEPING"; cases "p_state p = SLEEPING")
      (auto simp: Cons.IH)
qed simp

text \<open>
  C29. \<open>kill\<close> with a signal number below 32: it fails exactly when no slot has the pid, and
  otherwise sets that one bit of the first slot with the pid and nothing else.
\<close>

theorem kill_sets_pending:
  assumes "0 \<le> signum" "signum < 32"
  shows "case kill pid signum ps of (r, ps') \<Rightarrow>
    (r = - 1 \<and> ps' = ps \<and> pid \<notin> p_pid ` set ps) \<or>
    (r = 0 \<and> (\<exists>i<length ps. p_pid (ps ! i) = pid \<and> (\<forall>j<i. p_pid (ps ! j) \<noteq> pid) \<and>
       (\<exists>w. ps' = ps[i := (ps ! i)\<lparr>p_pending := w\<rparr>] \<and>
            (\<forall>n. bit w n \<longleftrightarrow> bit (p_pending (ps ! i)) n \<or> n = nat signum))))"
proof (cases "kill_scan pid (shl1 signum) ps")
  case None
  then have "pid \<notin> p_pid ` set ps" by (rule kill_scan_None [THEN iffD1])
  with assms None show ?thesis by (simp add: kill_def)
next
  case (Some ps')
  from kill_scan_Some [OF this] obtain i where "i < length ps" "p_pid (ps ! i) = pid"
      "\<forall>j<i. p_pid (ps ! j) \<noteq> pid"
      "ps' = ps[i := (ps ! i)\<lparr>p_pending := p_pending (ps ! i) OR shl1 signum\<rparr>]"
    by blast
  moreover have "bit (p_pending (ps ! i) OR shl1 signum) n \<longleftrightarrow>
      bit (p_pending (ps ! i)) n \<or> n = nat signum" for n
    using assms by (simp add: bit_or_iff bit_shl1)
  ultimately have "\<exists>i<length ps. p_pid (ps ! i) = pid \<and> (\<forall>j<i. p_pid (ps ! j) \<noteq> pid) \<and>
       (\<exists>w. ps' = ps[i := (ps ! i)\<lparr>p_pending := w\<rparr>] \<and>
            (\<forall>n. bit w n \<longleftrightarrow> bit (p_pending (ps ! i)) n \<or> n = nat signum))"
    by blast
  moreover have "kill pid signum ps = (0, ps')" using assms Some by (simp add: kill_def)
  ultimately show ?thesis by simp
qed

theorem kill_sets_pending_witness:
  "fst (kill 7 9 [demo_proc, demo_proc\<lparr>p_pid := 7\<rparr>]) = 0 \<and>
   bit (p_pending (snd (kill 7 9 [demo_proc, demo_proc\<lparr>p_pid := 7\<rparr>]) ! 1)) 9"
proof -
  have "fst (kill 7 9 [demo_proc, demo_proc\<lparr>p_pid := 7\<rparr>]) = 0"
    by (simp add: kill_def demo_proc_def Let_def)
  with kill_sets_pending [of 9 "[demo_proc, demo_proc\<lparr>p_pid := 7\<rparr>]" 7] show ?thesis
    by (auto simp: less_Suc_eq demo_proc_def Let_def split: prod.splits)
qed


end
