(* ===== verification/Xv6_Sched.thy ===== *)
theory Xv6_Sched
  imports Xv6_Ptable
begin

text \<open>
  The concurrent life of the process table (\<open>proc.c\<close>): \<open>scheduler\<close>, \<open>sched\<close>, \<open>yield\<close>,
  \<open>sleep\<close>, \<open>wakeup1\<close>, \<open>exit\<close>, \<open>wait\<close>, \<open>fork\<close> and \<open>kill_handler\<close> as programs whose steps are the
  single accesses to shared \<open>struct proc\<close> fields, interleaved over any number of CPUs.

  A CPU is in its scheduler loop, in an interrupt handler it took there, or executes the
  kernel thread of a process. The thread's program point belongs to the CPU while it runs
  (it is in the CPU's registers and on the stack) and is saved in \<open>p->context\<close> by \<open>swtch\<close>.
\<close>

section \<open>Program points\<close>

text \<open>
  A \<open>ppc\<close> is the next shared access of a kernel thread; the \<open>ppc\<close> argument of a constructor
  is where the thread continues when the function it is in returns. \<open>Run\<close> is any code that
  does not touch the table.
\<close>

datatype ppc =
    Run
  | YCas ppc                \<comment> \<open>yield: \<open>cas(&myproc()->state, RUNNING, NEG_RUNNABLE)\<close>\<close>
  | SlRel nat ppc           \<comment> \<open>sleep: \<open>pushcli(); release(lk)\<close>\<close>
  | SlChan nat ppc          \<comment> \<open>sleep: \<open>p->chan = chan\<close>\<close>
  | SlCas ppc               \<comment> \<open>sleep: \<open>cas(&p->state, RUNNING, NEG_SLEEPING)\<close>\<close>
  | SlTidy ppc              \<comment> \<open>sleep: \<open>p->chan = 0\<close>\<close>
  | SchedChk ppc            \<comment> \<open>sched: \<open>p->state == RUNNING\<close>\<close>
  | SchedChk2 ppc           \<comment> \<open>sched: \<open>p->state == NEG_RUNNING\<close>\<close>
  | Swtch ppc               \<comment> \<open>sched: \<open>swtch(&p->context, mycpu()->scheduler)\<close>\<close>
  | WkScan nat nat ppc      \<comment> \<open>wakeup1: \<open>p->chan == chan\<close>, at slot, for channel\<close>
  | WkSpin nat nat ppc      \<comment> \<open>wakeup1: \<open>while (cas(&p->state, NEG_SLEEPING, NEG_SLEEPING))\<close>\<close>
  | WkCas nat nat ppc       \<comment> \<open>wakeup1: \<open>cas(&p->state, SLEEPING, RUNNABLE)\<close>\<close>
  | KhCas                   \<comment> \<open>kill_handler: \<open>cas(&myproc()->state, SLEEPING, RUNNABLE)\<close>\<close>
  | ExCas                   \<comment> \<open>exit: \<open>cas(&curproc->state, RUNNING, NEG_ZOMBIE)\<close>\<close>
  | ExWake                  \<comment> \<open>exit: \<open>wakeup1(curproc->parent)\<close>\<close>
  | ExOrphan nat            \<comment> \<open>exit: \<open>p->parent == curproc\<close>, at slot\<close>
  | ExAdopt nat             \<comment> \<open>exit: \<open>p->state == ZOMBIE\<close>, for a child given to init\<close>
  | ExAdopt2 nat            \<comment> \<open>exit: \<open>p->state == NEG_ZOMBIE\<close>\<close>
  | ExDone                  \<comment> \<open>exit: \<open>panic("zombie exit")\<close>\<close>
  | WtScan nat bool         \<comment> \<open>wait: \<open>p->parent != curproc\<close>, at slot, with \<open>havekids\<close>\<close>
  | WtTest nat              \<comment> \<open>wait: \<open>cas(&p->state, NEG_ZOMBIE, NEG_ZOMBIE)\<close>\<close>
  | WtTest2 nat             \<comment> \<open>wait: \<open>cas(&p->state, ZOMBIE, ZOMBIE)\<close>\<close>
  | WtGrab nat              \<comment> \<open>wait: \<open>cas(&p->state, ZOMBIE, NEG_UNUSED)\<close>\<close>
  | WtFree nat              \<comment> \<open>wait: the slot's fields are cleared\<close>
  | WtDone nat              \<comment> \<open>wait: \<open>cas(&p->state, NEG_UNUSED, UNUSED)\<close>\<close>
  | WtEnd bool              \<comment> \<open>wait: \<open>!havekids || curproc->killed\<close>\<close>
  | FkScan nat              \<comment> \<open>allocproc: \<open>cas(&p->state, UNUSED, EMBRYO)\<close>\<close>
  | FkBuild nat             \<comment> \<open>fork: the new process is filled in\<close>
  | FkFail nat              \<comment> \<open>fork, allocproc: \<open>cas(&np->state, EMBRYO, UNUSED)\<close>\<close>
  | FkRun nat               \<comment> \<open>fork: \<open>cas(&np->state, EMBRYO, RUNNABLE)\<close>\<close>
  | Dead string             \<comment> \<open>panic\<close>

datatype cpc =
    SIdle                   \<comment> \<open>\<open>sti()\<close>: the top of the scheduler's loop\<close>
  | SIntr ppc               \<comment> \<open>an interrupt handler taken there\<close>
  | SLook nat               \<comment> \<open>\<open>p->state != RUNNABLE\<close>\<close>
  | SGrab nat               \<comment> \<open>\<open>cas(&p->state, RUNNABLE, NEG_RUNNING)\<close>\<close>
  | SSet nat                \<comment> \<open>\<open>c->proc = p; switchuvm(p)\<close>\<close>
  | SMark nat               \<comment> \<open>\<open>cas(&p->state, NEG_RUNNING, RUNNING)\<close>\<close>
  | SSwtch nat              \<comment> \<open>\<open>swtch(&(c->scheduler), p->context)\<close>\<close>
  | InProc nat ppc          \<comment> \<open>the CPU executes the thread of the process in that slot\<close>
  | SBack1 nat              \<comment> \<open>\<open>cas(&p->state, NEG_RUNNABLE, RUNNABLE)\<close>\<close>
  | SBack2 nat              \<comment> \<open>\<open>cas(&p->state, NEG_SLEEPING, SLEEPING)\<close>\<close>
  | SBack3 nat              \<comment> \<open>\<open>cas(&p->state, NEG_ZOMBIE, ZOMBIE)\<close>\<close>
  | SClear nat              \<comment> \<open>\<open>c->proc = 0\<close>\<close>
  | SDead string            \<comment> \<open>panic\<close>

text \<open>
  The shared state. Channel 0 is the null pointer; \<open>pchan i\<close> is the address of slot \<open>i\<close>, the
  channel that \<open>wait\<close> sleeps on; slot 0 is \<open>initproc\<close>.
\<close>

record sys =
  s_st :: "nat \<Rightarrow> procstate"
  s_chan :: "nat \<Rightarrow> nat"
  s_parent :: "nat \<Rightarrow> nat option"
  s_ctx :: "nat \<Rightarrow> ppc"
  s_cpu :: "nat \<Rightarrow> cpc"
  s_cproc :: "nat \<Rightarrow> nat option"

definition pchan :: "nat \<Rightarrow> nat" where "pchan i = Suc i"

definition parent_chan :: "nat option \<Rightarrow> nat" where
  "parent_chan p = (case p of None \<Rightarrow> 0 | Some i \<Rightarrow> pchan i)"

definition initproc :: nat where "initproc = 0"

definition setst :: "sys \<Rightarrow> nat \<Rightarrow> procstate \<Rightarrow> sys" where
  "setst s j v = s\<lparr>s_st := (s_st s)(j := v)\<rparr>"

definition scas :: "sys \<Rightarrow> nat \<Rightarrow> procstate \<Rightarrow> procstate \<Rightarrow> sys" where
  "scas s j e n = (if s_st s j = e then setst s j n else s)"

text \<open>
  What a thread does next where the code leaves it open: which function it calls from \<open>Run\<close>,
  whether a timer interrupt makes it yield, whether an allocation fails or it was killed.
\<close>

datatype choice =
  Go | DoYield | DoSleep nat | DoWakeup nat | DoExit | DoKilled | DoWait | DoFork | DoFail

section \<open>Steps\<close>

fun wakeup1_step :: "sys \<Rightarrow> ppc \<Rightarrow> (sys \<times> ppc) option" where
  "wakeup1_step s (WkScan j ch k) =
     Some (s, if j \<ge> NPROC then k else if s_chan s j = ch then WkSpin j ch k else WkScan (j + 1) ch k)"
| "wakeup1_step s (WkSpin j ch k) =
     Some (s, if s_st s j = NEG_SLEEPING then WkSpin j ch k else WkCas j ch k)"
| "wakeup1_step s (WkCas j ch k) = Some (scas s j SLEEPING RUNNABLE, WkScan (j + 1) ch k)"
| "wakeup1_step s _ = None"

fun run_step :: "choice \<Rightarrow> nat \<Rightarrow> ppc option" where
  "run_step Go me = Some Run"
| "run_step DoYield me = Some (YCas Run)"
| "run_step (DoSleep ch) me = (if ch = 0 then None else Some (SlRel ch Run))"
| "run_step (DoWakeup ch) me = Some (WkScan 0 ch Run)"
| "run_step DoExit me = Some (if me = initproc then Dead ''init exiting'' else ExCas)"
| "run_step DoKilled me = Some KhCas"
| "run_step DoWait me = Some (WtScan 0 False)"
| "run_step DoFork me = Some (FkScan 0)"
| "run_step DoFail me = None"

fun sched_step :: "nat \<Rightarrow> sys \<Rightarrow> ppc \<Rightarrow> (sys \<times> ppc) option" where
  "sched_step me s (SchedChk k) =
     Some (s, if s_st s me = RUNNING then Dead ''sched running'' else SchedChk2 k)"
| "sched_step me s (SchedChk2 k) =
     Some (s, if s_st s me = NEG_RUNNING then Dead ''sched -running'' else Swtch k)"
| "sched_step me s _ = None"

fun yield_step :: "nat \<Rightarrow> sys \<Rightarrow> ppc \<Rightarrow> (sys \<times> ppc) option" where
  "yield_step me s (YCas k) = Some (scas s me RUNNING NEG_RUNNABLE, SchedChk k)"
| "yield_step me s _ = None"

fun sleep_step :: "nat \<Rightarrow> sys \<Rightarrow> ppc \<Rightarrow> (sys \<times> ppc) option" where
  "sleep_step me s (SlRel c k) = Some (s, SlChan c k)"
| "sleep_step me s (SlChan c k) = Some (s\<lparr>s_chan := (s_chan s)(me := c)\<rparr>, SlCas k)"
| "sleep_step me s (SlCas k) = Some (scas s me RUNNING NEG_SLEEPING, SchedChk (SlTidy k))"
| "sleep_step me s (SlTidy k) = Some (s\<lparr>s_chan := (s_chan s)(me := 0)\<rparr>, k)"
| "sleep_step me s _ = None"

fun fork_step :: "choice \<Rightarrow> nat \<Rightarrow> sys \<Rightarrow> ppc \<Rightarrow> (sys \<times> ppc) option" where
  "fork_step ch me s (FkScan j) =
     Some (if j \<ge> NPROC then (s, Run)
           else if s_st s j = UNUSED then (setst s j EMBRYO, FkBuild j) else (s, FkScan (j + 1)))"
| "fork_step ch me s (FkBuild j) =
     Some (if ch = DoYield then (s, YCas (FkBuild j))
           else if ch = DoFail then (s, FkFail j)
           else (s\<lparr>s_parent := (s_parent s)(j := Some me), s_ctx := (s_ctx s)(j := Run)\<rparr>, FkRun j))"
| "fork_step ch me s (FkFail j) = Some (scas s j EMBRYO UNUSED, Run)"
| "fork_step ch me s (FkRun j) =
     Some (if s_st s j = EMBRYO then (setst s j RUNNABLE, Run)
           else (s, Dead ''assert p->state == EMBRYO violated''))"
| "fork_step ch me s _ = None"

fun kill_handler_step :: "nat \<Rightarrow> sys \<Rightarrow> ppc \<Rightarrow> (sys \<times> ppc) option" where
  "kill_handler_step me s KhCas =
     Some (scas s me SLEEPING RUNNABLE, if me = initproc then Dead ''init exiting'' else ExCas)"
| "kill_handler_step me s _ = None"

fun exit_step :: "nat \<Rightarrow> sys \<Rightarrow> ppc \<Rightarrow> (sys \<times> ppc) option" where
  "exit_step me s ExCas = Some (scas s me RUNNING NEG_ZOMBIE, ExWake)"
| "exit_step me s ExWake = Some (s, WkScan 0 (parent_chan (s_parent s me)) (ExOrphan 0))"
| "exit_step me s (ExOrphan j) =
     (if j \<ge> NPROC then Some (s, SchedChk ExDone)
      else if s_parent s j = Some me
           then Some (s\<lparr>s_parent := (s_parent s)(j := Some initproc)\<rparr>, ExAdopt j)
           else Some (s, ExOrphan (j + 1)))"
| "exit_step me s (ExAdopt j) =
     Some (s, if s_st s j = ZOMBIE then WkScan 0 (pchan initproc) (ExOrphan (j + 1)) else ExAdopt2 j)"
| "exit_step me s (ExAdopt2 j) =
     Some (s, if s_st s j = NEG_ZOMBIE then WkScan 0 (pchan initproc) (ExOrphan (j + 1))
              else ExOrphan (j + 1))"
| "exit_step me s ExDone = Some (s, Dead ''zombie exit'')"
| "exit_step me s _ = None"

fun wait_step :: "choice \<Rightarrow> nat \<Rightarrow> sys \<Rightarrow> ppc \<Rightarrow> (sys \<times> ppc) option" where
  "wait_step ch me s (WtScan j kids) =
     Some (s, if j \<ge> NPROC then WtEnd kids
              else if s_parent s j \<noteq> Some me then WtScan (j + 1) kids else WtTest j)"
| "wait_step ch me s (WtTest j) =
     Some (s, if s_st s j = NEG_ZOMBIE then WtGrab j else WtTest2 j)"
| "wait_step ch me s (WtTest2 j) =
     Some (s, if s_st s j = ZOMBIE then WtGrab j else WtScan (j + 1) True)"
| "wait_step ch me s (WtGrab j) =
     Some (if s_st s j = ZOMBIE then (setst s j NEG_UNUSED, WtFree j) else (s, WtTest j))"
| "wait_step ch me s (WtFree j) = Some (s\<lparr>s_parent := (s_parent s)(j := None)\<rparr>, WtDone j)"
| "wait_step ch me s (WtDone j) =
     Some (if s_st s j = NEG_UNUSED then (setst s j UNUSED, Run)
           else (s, Dead ''assert p->state==UNUSED is violated''))"
| "wait_step ch me s (WtEnd kids) =
     Some (s, if \<not> kids \<or> ch = DoFail then Run else SlChan (pchan me) (WtScan 0 False))"
| "wait_step ch me s _ = None"

text \<open>The thread of process \<open>me\<close>, wherever it is.\<close>

fun proc_step :: "choice \<Rightarrow> nat \<Rightarrow> sys \<Rightarrow> ppc \<Rightarrow> (sys \<times> ppc) option" where
  "proc_step ch me s Run = map_option (Pair s) (run_step ch me)"
| "proc_step ch me s (YCas k) = yield_step me s (YCas k)"
| "proc_step ch me s (SlRel c k) = sleep_step me s (SlRel c k)"
| "proc_step ch me s (SlChan c k) = sleep_step me s (SlChan c k)"
| "proc_step ch me s (SlCas k) = sleep_step me s (SlCas k)"
| "proc_step ch me s (SlTidy k) = sleep_step me s (SlTidy k)"
| "proc_step ch me s (SchedChk k) = sched_step me s (SchedChk k)"
| "proc_step ch me s (SchedChk2 k) = sched_step me s (SchedChk2 k)"
| "proc_step ch me s KhCas = kill_handler_step me s KhCas"
| "proc_step ch me s ExCas = exit_step me s ExCas"
| "proc_step ch me s ExWake = exit_step me s ExWake"
| "proc_step ch me s (ExOrphan j) = exit_step me s (ExOrphan j)"
| "proc_step ch me s (ExAdopt j) = exit_step me s (ExAdopt j)"
| "proc_step ch me s (ExAdopt2 j) = exit_step me s (ExAdopt2 j)"
| "proc_step ch me s ExDone = exit_step me s ExDone"
| "proc_step ch me s (WtScan j kids) = wait_step ch me s (WtScan j kids)"
| "proc_step ch me s (WtTest j) = wait_step ch me s (WtTest j)"
| "proc_step ch me s (WtTest2 j) = wait_step ch me s (WtTest2 j)"
| "proc_step ch me s (WtGrab j) = wait_step ch me s (WtGrab j)"
| "proc_step ch me s (WtFree j) = wait_step ch me s (WtFree j)"
| "proc_step ch me s (WtDone j) = wait_step ch me s (WtDone j)"
| "proc_step ch me s (WtEnd kids) = wait_step ch me s (WtEnd kids)"
| "proc_step ch me s (FkScan j) = fork_step ch me s (FkScan j)"
| "proc_step ch me s (FkBuild j) = fork_step ch me s (FkBuild j)"
| "proc_step ch me s (FkFail j) = fork_step ch me s (FkFail j)"
| "proc_step ch me s (FkRun j) = fork_step ch me s (FkRun j)"
| "proc_step ch me s pc = wakeup1_step s pc"

definition set_cpc :: "nat \<Rightarrow> cpc \<Rightarrow> sys \<Rightarrow> sys" where
  "set_cpc c pc s = s\<lparr>s_cpu := (s_cpu s)(c := pc)\<rparr>"

fun scheduler_step :: "nat \<Rightarrow> choice \<Rightarrow> sys \<Rightarrow> cpc \<Rightarrow> (sys \<times> cpc) option" where
  "scheduler_step c ch s SIdle =
     Some (s, case ch of DoWakeup k \<Rightarrow> SIntr (WkScan 0 k Run) | _ \<Rightarrow> SLook 0)"
| "scheduler_step c ch s (SIntr pc) =
     (if pc = Run then Some (s, SIdle)
      else map_option (\<lambda>(s', pc'). (s', SIntr pc')) (wakeup1_step s pc))"
| "scheduler_step c ch s (SLook i) =
     Some (s, if i \<ge> NPROC then SIdle else if s_st s i \<noteq> RUNNABLE then SLook (i + 1) else SGrab i)"
| "scheduler_step c ch s (SGrab i) =
     Some (if s_st s i = RUNNABLE then (setst s i NEG_RUNNING, SSet i) else (s, SLook (i + 1)))"
| "scheduler_step c ch s (SSet i) = Some (s\<lparr>s_cproc := (s_cproc s)(c := Some i)\<rparr>, SMark i)"
| "scheduler_step c ch s (SMark i) =
     Some (if s_st s i = NEG_RUNNING then (setst s i RUNNING, SSwtch i)
           else (s, SDead ''scheduler:: assert p->state == -RUNNING violated''))"
| "scheduler_step c ch s (SSwtch i) = Some (s, InProc i (s_ctx s i))"
| "scheduler_step c ch s (InProc i pc) =
     (case pc of
        Swtch k \<Rightarrow> Some (s\<lparr>s_ctx := (s_ctx s)(i := k)\<rparr>, SBack1 i)
      | _ \<Rightarrow> map_option (\<lambda>(s', pc'). (s', InProc i pc')) (proc_step ch i s pc))"
| "scheduler_step c ch s (SBack1 i) = Some (scas s i NEG_RUNNABLE RUNNABLE, SBack2 i)"
| "scheduler_step c ch s (SBack2 i) = Some (scas s i NEG_SLEEPING SLEEPING, SBack3 i)"
| "scheduler_step c ch s (SBack3 i) = Some (scas s i NEG_ZOMBIE ZOMBIE, SClear i)"
| "scheduler_step c ch s (SClear i) = Some (s\<lparr>s_cproc := (s_cproc s)(c := None)\<rparr>, SLook (i + 1))"
| "scheduler_step c ch s (SDead m) = None"

definition cpu_step :: "nat \<Rightarrow> choice \<Rightarrow> sys \<Rightarrow> sys option" where
  "cpu_step c ch s = map_option (\<lambda>(s', pc). set_cpc c pc s') (scheduler_step c ch s (s_cpu s c))"

text \<open>\<open>userinit\<close> has made slot 0 runnable; every CPU enters its scheduler.\<close>

definition boot :: sys where
  "boot = \<lparr>s_st = (\<lambda>_. UNUSED)(0 := RUNNABLE), s_chan = (\<lambda>_. 0), s_parent = (\<lambda>_. None),
           s_ctx = (\<lambda>_. Run), s_cpu = (\<lambda>_. SIdle), s_cproc = (\<lambda>_. None)\<rparr>"

inductive reach :: "nat \<Rightarrow> sys \<Rightarrow> bool" for ncpu where
  reach_boot: "reach ncpu boot"
| reach_step: "reach ncpu s \<Longrightarrow> c < ncpu \<Longrightarrow> cpu_step c ch s = Some s' \<Longrightarrow> reach ncpu s'"

fun sched_run :: "(nat \<times> choice) list \<Rightarrow> sys \<Rightarrow> sys option" where
  "sched_run [] s = Some s"
| "sched_run ((c, ch) # xs) s = (case cpu_step c ch s of None \<Rightarrow> None | Some s' \<Rightarrow> sched_run xs s')"

lemma sched_run_reach:
  "reach n s \<Longrightarrow> sched_run xs s = Some s' \<Longrightarrow> (\<forall>(c, ch)\<in>set xs. c < n) \<Longrightarrow> reach n s'"
proof (induction xs arbitrary: s)
  case (Cons x xs)
  obtain c ch where x: "x = (c, ch)" by (cases x)
  with Cons.prems obtain s1 where s1: "cpu_step c ch s = Some s1" "sched_run xs s1 = Some s'"
    by (auto split: option.splits)
  have "reach n s1" using Cons.prems x s1 by (auto intro: reach_step)
  with Cons.IH s1 Cons.prems show ?case by auto
qed simp


section \<open>Well-formed program points\<close>

text \<open>Where a thread may be suspended, and the shapes the continuations can have.\<close>

fun wf_ctx :: "ppc \<Rightarrow> bool" where
  "wf_ctx Run = True"
| "wf_ctx (FkBuild j) = True"
| "wf_ctx (SlTidy k) = (k = Run \<or> k = WtScan 0 False)"
| "wf_ctx ExDone = True"
| "wf_ctx _ = False"

fun wf_wk :: "ppc \<Rightarrow> bool" where
  "wf_wk Run = True"
| "wf_wk (ExOrphan j) = True"
| "wf_wk _ = False"

fun wf_pc :: "ppc \<Rightarrow> bool" where
  "wf_pc (YCas k) = (k = Run \<or> (\<exists>j. k = FkBuild j))"
| "wf_pc (SlRel c k) = (c \<noteq> 0 \<and> (k = Run \<or> k = WtScan 0 False))"
| "wf_pc (SlChan c k) = (c \<noteq> 0 \<and> (k = Run \<or> k = WtScan 0 False))"
| "wf_pc (SlCas k) = (k = Run \<or> k = WtScan 0 False)"
| "wf_pc (SlTidy k) = (k = Run \<or> k = WtScan 0 False)"
| "wf_pc (SchedChk k) = wf_ctx k"
| "wf_pc (SchedChk2 k) = wf_ctx k"
| "wf_pc (Swtch k) = wf_ctx k"
| "wf_pc (WkScan j c k) = wf_wk k"
| "wf_pc (WkSpin j c k) = wf_wk k"
| "wf_pc (WkCas j c k) = wf_wk k"
| "wf_pc _ = True"

fun wf_intr :: "ppc \<Rightarrow> bool" where
  "wf_intr Run = True"
| "wf_intr (WkScan j c k) = (k = Run)"
| "wf_intr (WkSpin j c k) = (k = Run)"
| "wf_intr (WkCas j c k) = (k = Run)"
| "wf_intr _ = False"

fun wf_cpc :: "cpc \<Rightarrow> bool" where
  "wf_cpc (SIntr pc) = wf_intr pc"
| "wf_cpc (InProc i pc) = wf_pc pc"
| "wf_cpc _ = True"

lemma wf_ctx_pc: "wf_ctx k \<Longrightarrow> wf_pc k"
  by (cases k) auto

lemma wf_wk_pc: "wf_wk k \<Longrightarrow> wf_pc k"
  by (cases k) auto

definition wf_sys :: "sys \<Rightarrow> bool" where
  "wf_sys s \<longleftrightarrow> (\<forall>i. wf_ctx (s_ctx s i)) \<and> (\<forall>c. wf_cpc (s_cpu s c))"

lemma scas_frame [simp]:
  "s_chan (scas s j e n) = s_chan s" "s_parent (scas s j e n) = s_parent s"
  "s_ctx (scas s j e n) = s_ctx s" "s_cpu (scas s j e n) = s_cpu s"
  "s_cproc (scas s j e n) = s_cproc s"
  by (simp_all add: scas_def setst_def)

lemma setst_frame [simp]:
  "s_st (setst s j v) = (s_st s)(j := v)"
  "s_chan (setst s j v) = s_chan s" "s_parent (setst s j v) = s_parent s"
  "s_ctx (setst s j v) = s_ctx s" "s_cpu (setst s j v) = s_cpu s"
  "s_cproc (setst s j v) = s_cproc s"
  by (simp_all add: setst_def)

lemma s_st_scas: "s_st (scas s j e n) = (if s_st s j = e then (s_st s)(j := n) else s_st s)"
  by (simp add: scas_def)

lemma set_cpc_frame [simp]:
  "s_st (set_cpc c pc s) = s_st s" "s_chan (set_cpc c pc s) = s_chan s"
  "s_parent (set_cpc c pc s) = s_parent s" "s_ctx (set_cpc c pc s) = s_ctx s"
  "s_cpu (set_cpc c pc s) = (s_cpu s)(c := pc)" "s_cproc (set_cpc c pc s) = s_cproc s"
  by (simp_all add: set_cpc_def)

lemma wakeup1_step_frame:
  "wakeup1_step s pc = Some (s', pc') \<Longrightarrow>
   s_ctx s' = s_ctx s \<and> s_cpu s' = s_cpu s \<and> s_chan s' = s_chan s \<and> s_parent s' = s_parent s"
  by (cases pc) auto

lemma proc_step_cpu: "proc_step ch me s pc = Some (s', pc') \<Longrightarrow> s_cpu s' = s_cpu s"
  by (cases pc) (auto split: if_splits)

lemma scheduler_step_cpu: "scheduler_step c ch s pc = Some (s', pc') \<Longrightarrow> s_cpu s' = s_cpu s"
proof (cases pc)
  case (InProc i q)
  assume "scheduler_step c ch s pc = Some (s', pc')"
  then show ?thesis using InProc by (cases q) (auto simp: proc_step_cpu split: if_splits)
qed (auto split: if_splits dest: wakeup1_step_frame)

lemma proc_step_wf:
  assumes "proc_step ch me s pc = Some (s', pc')" "wf_pc pc" "\<forall>i. wf_ctx (s_ctx s i)"
  shows "wf_pc pc' \<and> (\<forall>i. wf_ctx (s_ctx s' i))"
proof (cases pc)
  case Run
  with assms show ?thesis by (cases ch) (auto split: if_splits)
qed (use assms in \<open>auto simp: pchan_def wf_ctx_pc wf_wk_pc split: if_splits\<close>)

lemma scheduler_step_wf:
  assumes "scheduler_step c ch s pc = Some (s', pc')" "wf_cpc pc" "\<forall>i. wf_ctx (s_ctx s i)"
  shows "wf_cpc pc' \<and> (\<forall>i. wf_ctx (s_ctx s' i))"
proof (cases pc)
  case (InProc i q)
  show ?thesis
  proof (cases "\<exists>k. q = Swtch k")
    case False
    then obtain q' where "proc_step ch i s q = Some (s', q')" "pc' = InProc i q'"
      using assms(1) InProc by (cases q) (auto simp del: proc_step.simps)
    with proc_step_wf [of ch i s q s' q'] assms InProc show ?thesis by simp
  qed (use assms InProc in auto)
next
  case (SIntr q)
  with assms show ?thesis by (cases q) (auto split: if_splits)
next
  case SIdle
  with assms show ?thesis by (cases ch) auto
qed (use assms in \<open>auto simp: wf_ctx_pc split: if_splits\<close>)

lemma reach_wf: "reach n s \<Longrightarrow> wf_sys s"
proof (induction rule: reach.induct)
  case reach_boot
  show ?case by (simp add: wf_sys_def boot_def)
next
  case (reach_step s c ch s')
  obtain s1 pc where st: "scheduler_step c ch s (s_cpu s c) = Some (s1, pc)" "s' = set_cpc c pc s1"
    using reach_step.hyps(3) by (auto simp: cpu_step_def)
  from scheduler_step_wf [OF st(1)] reach_step.IH have "wf_cpc pc" "\<forall>i. wf_ctx (s_ctx s1 i)"
    by (auto simp: wf_sys_def)
  with reach_step.IH scheduler_step_cpu [OF st(1)] show ?case by (simp add: wf_sys_def st(2))
qed


section \<open>Slots held by one CPU\<close>

text \<open>
  \<open>NEG_RUNNING\<close> and \<open>NEG_UNUSED\<close> work as locks on a slot: the CPU whose swap moved the slot there
  is the only one that will move it on, and it does not switch in between.
\<close>

fun slot_held :: "cpc \<Rightarrow> (nat \<times> procstate) option" where
  "slot_held (SSet j) = Some (j, NEG_RUNNING)"
| "slot_held (SMark j) = Some (j, NEG_RUNNING)"
| "slot_held (InProc i (WtFree j)) = Some (j, NEG_UNUSED)"
| "slot_held (InProc i (WtDone j)) = Some (j, NEG_UNUSED)"
| "slot_held _ = None"

definition lock_state :: "procstate \<Rightarrow> bool" where
  "lock_state q \<longleftrightarrow> q = NEG_RUNNING \<or> q = NEG_UNUSED"

definition held_inv :: "sys \<Rightarrow> bool" where
  "held_inv s \<longleftrightarrow>
     (\<forall>c j q. slot_held (s_cpu s c) = Some (j, q) \<longrightarrow> s_st s j = q) \<and>
     (\<forall>c c' j q q'. slot_held (s_cpu s c) = Some (j, q) \<longrightarrow> slot_held (s_cpu s c') = Some (j, q') \<longrightarrow> c = c')"

text \<open>
  The effect of one step on the states of the slots, as seen by the other CPUs: at most one
  slot changes, and a slot in a lock state changes only under the CPU that holds it.
\<close>

definition held_effect :: "cpc \<Rightarrow> cpc \<Rightarrow> (nat \<Rightarrow> procstate) \<Rightarrow> (nat \<Rightarrow> procstate) \<Rightarrow> bool" where
  "held_effect pc pc' st st' \<longleftrightarrow>
     (st' = st \<and> (slot_held pc' = None \<or> slot_held pc' = slot_held pc)) \<or>
     (\<exists>j n. st' = st(j := n) \<and> (lock_state (st j) \<longrightarrow> slot_held pc = Some (j, st j)) \<and>
        (slot_held pc' = None \<or> (slot_held pc' = Some (j, n) \<and> \<not> lock_state (st j))))"

lemma slot_held_lock: "slot_held pc = Some (j, q) \<Longrightarrow> lock_state q"
  by (cases pc rule: slot_held.cases) (auto simp: lock_state_def)

lemma held_effect_refl: "slot_held pc' = None \<Longrightarrow> held_effect pc pc' st st"
  by (simp add: held_effect_def)

lemma held_effect_scas:
  "\<not> lock_state e \<Longrightarrow> slot_held pc' = None \<Longrightarrow> held_effect pc pc' (s_st s) (s_st (scas s j e n))"
  by (auto simp: held_effect_def s_st_scas)

lemma held_effect_upd:
  "\<not> lock_state (st j) \<Longrightarrow> slot_held pc' = None \<or> slot_held pc' = Some (j, n) \<Longrightarrow>
   held_effect pc pc' st (st(j := n))"
  unfolding held_effect_def by blast

lemma held_effect_unlock:
  "slot_held pc = Some (j, st j) \<Longrightarrow> slot_held pc' = None \<Longrightarrow> held_effect pc pc' st (st(j := n))"
  unfolding held_effect_def by blast

lemma slot_held_InProc: "(\<And>j. pc \<noteq> WtFree j) \<Longrightarrow> (\<And>j. pc \<noteq> WtDone j) \<Longrightarrow> slot_held (InProc i pc) = None"
  by (cases pc) auto

lemma slot_held_ctx: "wf_ctx k \<Longrightarrow> slot_held (InProc i k) = None"
  by (cases k) auto

lemma slot_held_wk: "wf_wk k \<Longrightarrow> slot_held (InProc i k) = None"
  by (cases k) auto

lemmas held_effects = held_effect_refl held_effect_scas held_effect_upd held_effect_unlock
  slot_held_ctx slot_held_wk lock_state_def

lemma wakeup1_step_held:
  assumes "wakeup1_step s pc = Some (s', pc')" "wf_pc pc"
  shows "held_effect (InProc i pc) (InProc i pc') (s_st s) (s_st s')"
  using assms by (cases pc) (auto simp: held_effects)

lemma proc_step_held:
  assumes "proc_step ch me s pc = Some (s', pc')" "wf_pc pc"
  shows "held_effect (InProc i pc) (InProc i pc') (s_st s) (s_st s')"
proof (cases pc)
  case Run
  with assms show ?thesis by (cases ch) (auto simp: held_effects split: if_splits)
next
  case (WtFree j)
  with assms show ?thesis by (auto simp: held_effect_def)
next
  case (WtDone j)
  with assms show ?thesis by (auto simp: held_effects split: if_splits)
qed (use assms in \<open>auto simp: held_effects split: if_splits\<close>)

lemma scheduler_step_held:
  assumes "scheduler_step c ch s pc = Some (s', pc')" "wf_cpc pc" "\<forall>i. wf_ctx (s_ctx s i)"
  shows "held_effect pc pc' (s_st s) (s_st s')"
proof (cases pc)
  case (InProc i q)
  show ?thesis
  proof (cases "\<exists>k. q = Swtch k")
    case False
    then obtain q' where "proc_step ch i s q = Some (s', q')" "pc' = InProc i q'"
      using assms(1) InProc by (cases q) (auto simp del: proc_step.simps)
    with proc_step_held [of ch i s q s' q' i] assms InProc show ?thesis by simp
  qed (use assms InProc in \<open>auto simp: held_effects\<close>)
next
  case (SIntr q)
  with assms show ?thesis by (cases q) (auto simp: held_effects split: if_splits)
next
  case SIdle
  with assms show ?thesis by (cases ch) (auto simp: held_effects)
next
  case (SSet i)
  with assms show ?thesis by (auto simp: held_effect_def)
qed (use assms in \<open>auto simp: held_effects split: if_splits\<close>)

lemma held_inv_step:
  assumes inv: "held_inv s" and eff: "held_effect (s_cpu s c) pc (s_st s) (s_st s')"
    and cpu: "s_cpu s' = (s_cpu s)(c := pc)"
  shows "held_inv s'"
proof -
  have st: "s_st s j = q" if "slot_held (s_cpu s d) = Some (j, q)" for d j q
    using inv that by (simp add: held_inv_def)
  have uniq: "d = e" if "slot_held (s_cpu s d) = Some (j, q)" "slot_held (s_cpu s e) = Some (j, r)" for d e j q r
    using inv that by (simp add: held_inv_def)
  from eff consider
      (same) "s_st s' = s_st s" "slot_held pc = None \<or> slot_held pc = slot_held (s_cpu s c)"
    | (chg) j n where "s_st s' = (s_st s)(j := n)"
        "lock_state (s_st s j) \<longrightarrow> slot_held (s_cpu s c) = Some (j, s_st s j)"
        "slot_held pc = None \<or> (slot_held pc = Some (j, n) \<and> \<not> lock_state (s_st s j))"
    unfolding held_effect_def by blast
  then show ?thesis
  proof cases
    case same
    then have "slot_held (s_cpu s d) = Some x" if "slot_held (s_cpu s' d) = Some x" for d x
      using that cpu by (cases "d = c") auto
    then show ?thesis using st uniq same(1) unfolding held_inv_def by metis
  next
    case chg
    have other: "i \<noteq> j" if "slot_held (s_cpu s d) = Some (i, q)" "d \<noteq> c" for d i q
    proof
      assume "i = j"
      with that st [OF that(1)] slot_held_lock [OF that(1)] chg(2)
      have "slot_held (s_cpu s c) = Some (j, s_st s j)" by simp
      from uniq [OF this] that \<open>i = j\<close> show False by auto
    qed
    have new: "slot_held pc = Some (i, q) \<Longrightarrow> i = j \<and> q = n" for i q using chg(3) by auto
    have own: "s_st s' i = q" if "slot_held (s_cpu s' d) = Some (i, q)" for d i q
      using that other [of d i q] new [of i q] st [of d i q] unfolding cpu chg(1)
      by (cases "d = c") auto
    have "d = e" if "slot_held (s_cpu s' d) = Some (i, q)" "slot_held (s_cpu s' e) = Some (i, r)" for d e i q r
      using that other [of d i q] other [of e i r] new [of i q] new [of i r] uniq [of d i q e r]
      unfolding cpu by (cases "d = c"; cases "e = c") auto
    with own show ?thesis unfolding held_inv_def by blast
  qed
qed

lemma reach_held: "reach n s \<Longrightarrow> held_inv s"
proof (induction rule: reach.induct)
  case reach_boot
  show ?case by (simp add: held_inv_def boot_def)
next
  case (reach_step s c ch s')
  obtain s1 pc where st: "scheduler_step c ch s (s_cpu s c) = Some (s1, pc)" "s' = set_cpc c pc s1"
    using reach_step.hyps(3) by (auto simp: cpu_step_def)
  have "held_effect (s_cpu s c) pc (s_st s) (s_st s1)"
    by (rule scheduler_step_held [OF st(1)]) (use reach_wf [OF reach_step.hyps(1)] in \<open>auto simp: wf_sys_def\<close>)
  then show ?case
    by (intro held_inv_step [OF reach_step.IH, of c pc]) (simp_all add: st(2) scheduler_step_cpu [OF st(1)])
qed

text \<open>
  The two panics guarded by the locks are never raised, on any number of CPUs: no reachable
  state has a CPU in one of them.
\<close>

definition lock_panic :: "cpc \<Rightarrow> bool" where
  "lock_panic pc \<longleftrightarrow> (\<exists>m. pc = SDead m) \<or>
     (\<exists>i. pc = InProc i (Dead ''assert p->state==UNUSED is violated''))"

lemma proc_step_no_lock_panic:
  assumes "proc_step ch me s pc = Some (s', pc')" "wf_pc pc"
    and "\<And>j. pc = WtDone j \<Longrightarrow> s_st s j = NEG_UNUSED" "pc \<noteq> Dead ''assert p->state==UNUSED is violated''"
  shows "pc' \<noteq> Dead ''assert p->state==UNUSED is violated''"
proof (cases pc)
  case Run
  with assms show ?thesis by (cases ch) (auto split: if_splits)
qed (use assms in \<open>auto split: if_splits\<close>)

lemma scheduler_step_no_lock_panic:
  assumes step: "scheduler_step c ch s (s_cpu s c) = Some (s', pc')" and wf: "wf_sys s" "held_inv s"
    and ok: "\<not> lock_panic (s_cpu s c)"
  shows "\<not> lock_panic pc'"
proof (cases "s_cpu s c")
  case (InProc i q)
  have h: "q = WtDone j \<Longrightarrow> s_st s j = NEG_UNUSED" for j
    using wf InProc unfolding held_inv_def by (metis slot_held.simps(4))
  show ?thesis
  proof (cases "\<exists>k. q = Swtch k")
    case False
    then obtain q' where q': "proc_step ch i s q = Some (s', q')" "pc' = InProc i q'"
      using step InProc by (cases q) (auto simp del: proc_step.simps)
    have "wf_pc q" using wf InProc unfolding wf_sys_def by (metis wf_cpc.simps(2))
    with proc_step_no_lock_panic [OF q'(1)] h ok InProc q' show ?thesis by (auto simp: lock_panic_def)
  qed (use step InProc in \<open>auto simp: lock_panic_def\<close>)
next
  case (SMark i)
  then have "s_st s i = NEG_RUNNING" using wf unfolding held_inv_def by (metis slot_held.simps(2))
  with step SMark show ?thesis by (auto simp: lock_panic_def)
next
  case (SSwtch i)
  have "wf_ctx (s_ctx s i)" using wf by (simp add: wf_sys_def)
  with step SSwtch show ?thesis by (cases "s_ctx s i") (auto simp: lock_panic_def)
qed (use step ok in \<open>auto simp: lock_panic_def split: if_splits choice.splits\<close>)

lemma reach_no_lock_panic: "reach n s \<Longrightarrow> \<not> lock_panic (s_cpu s c)"
proof (induction arbitrary: c rule: reach.induct)
  case reach_boot
  show ?case by (simp add: lock_panic_def boot_def)
next
  case (reach_step s d ch s')
  obtain s1 pc where st: "scheduler_step d ch s (s_cpu s d) = Some (s1, pc)" "s' = set_cpc d pc s1"
    using reach_step.hyps(3) by (auto simp: cpu_step_def)
  have "\<not> lock_panic pc"
    by (rule scheduler_step_no_lock_panic [OF st(1) reach_wf [OF reach_step.hyps(1)]
          reach_held [OF reach_step.hyps(1)] reach_step.IH])
  with reach_step.IH st show ?case by (simp add: scheduler_step_cpu [OF st(1)])
qed


section \<open>One CPU\<close>

text \<open>
  On a uniprocessor the state of the current process follows from the program point, and
  every other slot is settled or held by \<open>wait\<close>.
\<close>

fun sched_state :: "ppc \<Rightarrow> procstate" where
  "sched_state (SlTidy k) = NEG_SLEEPING"
| "sched_state ExDone = NEG_ZOMBIE"
| "sched_state _ = NEG_RUNNABLE"

fun own_state :: "ppc \<Rightarrow> procstate" where
  "own_state (SchedChk k) = sched_state k"
| "own_state (SchedChk2 k) = sched_state k"
| "own_state (Swtch k) = sched_state k"
| "own_state (WkScan j c k) = (if k = Run then RUNNING else NEG_ZOMBIE)"
| "own_state (WkSpin j c k) = (if k = Run then RUNNING else NEG_ZOMBIE)"
| "own_state (WkCas j c k) = (if k = Run then RUNNING else NEG_ZOMBIE)"
| "own_state ExWake = NEG_ZOMBIE"
| "own_state (ExOrphan j) = NEG_ZOMBIE"
| "own_state (ExAdopt j) = NEG_ZOMBIE"
| "own_state (ExAdopt2 j) = NEG_ZOMBIE"
| "own_state _ = RUNNING"

fun cur_states :: "cpc \<Rightarrow> (nat \<times> procstate list) option" where
  "cur_states (SSet i) = Some (i, [NEG_RUNNING])"
| "cur_states (SMark i) = Some (i, [NEG_RUNNING])"
| "cur_states (SSwtch i) = Some (i, [RUNNING])"
| "cur_states (InProc i pc) = Some (i, [own_state pc])"
| "cur_states (SBack1 i) = Some (i, [NEG_RUNNABLE, NEG_SLEEPING, NEG_ZOMBIE])"
| "cur_states (SBack2 i) = Some (i, [RUNNABLE, NEG_SLEEPING, NEG_ZOMBIE])"
| "cur_states (SBack3 i) = Some (i, [RUNNABLE, SLEEPING, NEG_ZOMBIE])"
| "cur_states (SClear i) = Some (i, [RUNNABLE, SLEEPING, ZOMBIE])"
| "cur_states _ = None"

fun settled :: "procstate \<Rightarrow> bool" where
  "settled UNUSED = True"
| "settled EMBRYO = True"
| "settled SLEEPING = True"
| "settled RUNNABLE = True"
| "settled ZOMBIE = True"
| "settled _ = False"

definition slot_ok :: "cpc \<Rightarrow> nat \<Rightarrow> procstate \<Rightarrow> bool" where
  "slot_ok pc j q \<longleftrightarrow>
     (case cur_states pc of
        Some (i, qs) \<Rightarrow> if i = j then q \<in> set qs else settled q \<or> slot_held pc = Some (j, NEG_UNUSED)
      | None \<Rightarrow> settled q)"

text \<open>The slot whose \<open>EMBRYO\<close> state a thread is building.\<close>

fun builds :: "ppc \<Rightarrow> nat option" where
  "builds (FkBuild j) = Some j"
| "builds (FkFail j) = Some j"
| "builds (FkRun j) = Some j"
| "builds (YCas k) = builds k"
| "builds (SchedChk k) = builds k"
| "builds (SchedChk2 k) = builds k"
| "builds (Swtch k) = builds k"
| "builds _ = None"

fun no_thread :: "procstate \<Rightarrow> bool" where
  "no_thread UNUSED = True"
| "no_thread EMBRYO = True"
| "no_thread ZOMBIE = True"
| "no_thread NEG_ZOMBIE = True"
| "no_thread NEG_UNUSED = True"
| "no_thread _ = False"

definition builder :: "cpc \<Rightarrow> sys \<Rightarrow> nat \<Rightarrow> nat option" where
  "builder pc s i =
     (case pc of
        InProc i' q \<Rightarrow> if i' = i then builds q
                       else if no_thread (s_st s i) then None else builds (s_ctx s i)
      | _ \<Rightarrow> if no_thread (s_st s i) then None else builds (s_ctx s i))"

fun good_pc :: "cpc \<Rightarrow> bool" where
  "good_pc (SDead m) = False"
| "good_pc (InProc i (Dead m)) = (m = ''init exiting'')"
| "good_pc (InProc i ExDone) = False"
| "good_pc _ = True"

definition build_inv :: "(nat \<Rightarrow> nat option) \<Rightarrow> (nat \<Rightarrow> procstate) \<Rightarrow> bool" where
  "build_inv bs st \<longleftrightarrow> (\<forall>i j. bs i = Some j \<longrightarrow> st j = EMBRYO) \<and>
     (\<forall>i i' j. bs i = Some j \<longrightarrow> bs i' = Some j \<longrightarrow> i = i')"

definition uni_inv :: "cpc \<Rightarrow> sys \<Rightarrow> bool" where
  "uni_inv pc s \<longleftrightarrow> good_pc pc \<and> (\<forall>j. slot_ok pc j (s_st s j)) \<and>
     (\<forall>j. s_ctx s j = ExDone \<longrightarrow> no_thread (s_st s j)) \<and>
     (\<forall>i j. pc = InProc i (FkRun j) \<longrightarrow> s_ctx s j = Run) \<and>
     build_inv (builder pc s) (s_st s)"

definition build_effect :: "(nat \<Rightarrow> nat option) \<Rightarrow> (nat \<Rightarrow> nat option) \<Rightarrow> (nat \<Rightarrow> procstate) \<Rightarrow> (nat \<Rightarrow> procstate) \<Rightarrow> bool" where
  "build_effect bs bs' st st' \<longleftrightarrow>
     (bs' = bs \<and> (\<forall>j. st j = EMBRYO \<longrightarrow> st' j = EMBRYO)) \<or>
     (\<exists>i j. bs' = bs(i := Some j) \<and> st j \<noteq> EMBRYO \<and> st' = st(j := EMBRYO)) \<or>
     (\<exists>i j n. bs i = Some j \<and> bs' = bs(i := None) \<and> st' = st(j := n))"

lemma build_inv_effect: "build_inv bs st \<Longrightarrow> build_effect bs bs' st st' \<Longrightarrow> build_inv bs' st'"
  unfolding build_effect_def
proof (elim disjE exE conjE)
  fix i j
  assume "build_inv bs st" "bs' = bs(i := Some j)" "st j \<noteq> EMBRYO" "st' = st(j := EMBRYO)"
  then show ?thesis unfolding build_inv_def by (auto split: if_splits)
next
  fix i j n
  assume h: "build_inv bs st" "bs i = Some j" "bs' = bs(i := None)" "st' = st(j := n)"
  then have "bs i' \<noteq> Some j" if "i' \<noteq> i" for i' using that unfolding build_inv_def by blast
  with h show ?thesis unfolding build_inv_def by (auto split: if_splits)
qed (auto simp: build_inv_def)


lemma slot_ok_InProc:
  "slot_ok (InProc i q) j r \<longleftrightarrow>
     (if i = j then r = own_state q else settled r \<or> slot_held (InProc i q) = Some (j, NEG_UNUSED))"
  by (auto simp: slot_ok_def)

lemma own_state_ctx: "wf_ctx k \<Longrightarrow> own_state k = RUNNING"
  by (cases k) auto

lemma sched_state_neq [simp]: "sched_state k \<noteq> RUNNING" "sched_state k \<noteq> NEG_RUNNING"
  by (cases k; simp)+

lemma sched_state_yield: "k = Run \<or> (\<exists>j. k = FkBuild j) \<Longrightarrow> sched_state k = NEG_RUNNABLE"
  by auto

lemma proc_step_slots:
  assumes "proc_step ch i s q = Some (s', q')" "wf_pc q" "good_pc (InProc i q)"
    and "\<forall>j. slot_ok (InProc i q) j (s_st s j)"
    and "\<And>j. q = FkRun j \<or> q = FkFail j \<Longrightarrow> s_st s j = EMBRYO"
    and "\<And>j. q = WtDone j \<or> q = WtFree j \<Longrightarrow> s_st s j = NEG_UNUSED"
  shows "slot_ok (InProc i q') j (s_st s' j)"
proof -
  have ii: "s_st s i = own_state q" using assms(4) by (auto simp: slot_ok_InProc)
  have jj: "settled (s_st s j) \<or> slot_held (InProc i q) = Some (j, NEG_UNUSED)" if "i \<noteq> j" for j
    using assms(4) that by (auto simp: slot_ok_InProc)
  show ?thesis
  proof (cases q)
    case Run
    with assms(1) ii jj [of j] show ?thesis 
      by (cases ch) (auto simp: slot_ok_InProc split: if_splits)
  next
    case (WkScan a b k)
    with assms(1,2) ii jj [of j] show ?thesis 
      by (cases k) (auto simp: slot_ok_InProc split: if_splits)
  qed (use assms(1,2,3) ii jj [of j] assms(5,6) in \<open>auto simp: slot_ok_InProc s_st_scas sched_state_yield split: if_splits\<close>)
qed

lemma proc_step_good:
  assumes "proc_step ch i s q = Some (s', q')" "wf_pc q" "good_pc (InProc i q)"
    and "s_st s i = own_state q"
    and "\<And>j. q = FkRun j \<Longrightarrow> s_st s j = EMBRYO"
    and "\<And>j. q = WtDone j \<Longrightarrow> s_st s j = NEG_UNUSED"
  shows "good_pc (InProc i q')"
proof (cases q)
  case Run
  with assms(1) show ?thesis by (cases ch) (auto split: if_splits)
next
  case (SchedChk k)
  with assms show ?thesis by (cases k) auto
next
  case (SchedChk2 k)
  with assms show ?thesis by (cases k) auto
next
  case (WkScan a b k)
  with assms show ?thesis by (cases k) (auto split: if_splits)
qed (use assms in \<open>auto split: if_splits\<close>)


lemma builder_InProc:
  "builder (InProc i q) s x =
     (if i = x then builds q else if no_thread (s_st s x) then None else builds (s_ctx s x))"
  by (simp add: builder_def)

lemma build_effect_same:
  "(\<And>x. bs' x = bs x) \<Longrightarrow> (\<And>j. st j = EMBRYO \<Longrightarrow> st' j = EMBRYO) \<Longrightarrow> build_effect bs bs' st st'"
  unfolding build_effect_def by auto

lemma build_effect_claim:
  "(\<And>x. bs' x = (bs(i := Some j)) x) \<Longrightarrow> st j \<noteq> EMBRYO \<Longrightarrow> st' = st(j := EMBRYO) \<Longrightarrow> build_effect bs bs' st st'"
  unfolding build_effect_def by (metis ext)

lemma build_effect_drop:
  "bs i = Some j \<Longrightarrow> (\<And>x. bs' x = (bs(i := None)) x) \<Longrightarrow> st' = st(j := n) \<Longrightarrow> build_effect bs bs' st st'"
  unfolding build_effect_def by (metis ext)

lemma builds_wk: "wf_wk k \<Longrightarrow> builds k = None"
  by (cases k) auto

lemma proc_step_build:
  assumes "proc_step ch i s q = Some (s', q')" "wf_pc q" "good_pc (InProc i q)"
    and "\<forall>j. slot_ok (InProc i q) j (s_st s j)"
    and emb: "\<And>j. builds q = Some j \<Longrightarrow> s_st s j = EMBRYO"
    and ctx: "\<And>j. q = FkRun j \<Longrightarrow> s_ctx s j = Run"
    and held: "\<And>j. q = WtDone j \<or> q = WtFree j \<Longrightarrow> s_st s j = NEG_UNUSED"
  shows "build_effect (builder (InProc i q) s) (builder (InProc i q') s') (s_st s) (s_st s')"
proof -
  have ii: "s_st s i = own_state q" using assms(4) by (auto simp: slot_ok_InProc)
  show ?thesis
  proof (cases q)
    case Run
    with assms(1) ii show ?thesis
      by (cases ch) (auto simp: builder_InProc split: if_splits intro!: build_effect_same)
  next
    case (FkScan j)
    show ?thesis
    proof (cases "j < NPROC \<and> s_st s j = UNUSED")
      case True
      with FkScan assms(1) have "s' = setst s j EMBRYO" "q' = FkBuild j" by auto
      with FkScan True ii show ?thesis
        by (intro build_effect_claim [where i = i and j = j]) (auto simp: builder_InProc)
    next
      case False
      with FkScan assms(1) show ?thesis 
        by (auto simp: builder_InProc split: if_splits intro!: build_effect_same)
    qed
  next
    case (FkFail j)
    with assms(1) emb [of j] have "s' = setst s j UNUSED" "q' = Run" by (auto simp: scas_def)
    with FkFail ii emb [of j] show ?thesis
      by (intro build_effect_drop [where i = i and j = j]) (auto simp: builder_InProc)
  next
    case (FkRun j)
    with assms(1) emb [of j] have "s' = setst s j RUNNABLE" "q' = Run" by auto
    with FkRun ii emb [of j] ctx [of j] show ?thesis
      by (intro build_effect_drop [where i = i and j = j]) (auto simp: builder_InProc)
  next
    case (FkBuild j)
    with assms(1) emb [of j] show ?thesis
      by (auto simp: builder_InProc split: if_splits intro!: build_effect_same)
  next
    case (YCas k)
    with assms(1) ii show ?thesis
      by (auto simp: builder_InProc scas_def intro!: build_effect_same)
  next
    case (WtGrab j)
    with assms(1) show ?thesis 
      by (auto simp: builder_InProc split: if_splits intro!: build_effect_same)
  next
    case (WtDone j)
    with assms(1) held [of j] show ?thesis 
      by (auto simp: builder_InProc split: if_splits intro!: build_effect_same)
  next
    case (WkCas a b k)
    with assms(1) show ?thesis 
      by (auto simp: builder_InProc scas_def split: if_splits intro!: build_effect_same)
  qed (use assms(1,2) ii in \<open>auto simp: builder_InProc scas_def builds_wk split: if_splits intro!: build_effect_same\<close>)
qed


lemma proc_step_ctx:
  assumes "proc_step ch i s q = Some (s', q')" "\<And>j. s_ctx s j = ExDone \<Longrightarrow> no_thread (s_st s j)"
    and "\<And>j. q = FkRun j \<Longrightarrow> s_ctx s j = Run" "wf_pc q" "s_st s i = own_state q"
  shows "(s_ctx s' x = ExDone \<longrightarrow> no_thread (s_st s' x)) \<and> (q' = FkRun j \<longrightarrow> s_ctx s' j = Run)"
proof (cases q)
  case Run
  with assms(1,2) show ?thesis by (cases ch) (auto split: if_splits)
next
  case (WkScan a b k)
  with assms show ?thesis by (cases k) (auto split: if_splits)
next
  case (SlTidy k)
  with assms show ?thesis by auto
qed (use assms(1) assms(2) [of x] assms(3,5) in \<open>auto simp: scas_def split: if_splits\<close>)

lemma proc_step_uni:
  assumes step: "proc_step ch i s q = Some (s', q')" and inv: "uni_inv (InProc i q) s"
    and wf: "wf_pc q" and held: "\<And>j. q = WtDone j \<or> q = WtFree j \<Longrightarrow> s_st s j = NEG_UNUSED"
  shows "uni_inv (InProc i q') s'"
proof -
  from inv have g: "good_pc (InProc i q)" and sl: "\<forall>j. slot_ok (InProc i q) j (s_st s j)"
    and cx: "\<And>j. s_ctx s j = ExDone \<Longrightarrow> no_thread (s_st s j)" "\<And>j. q = FkRun j \<Longrightarrow> s_ctx s j = Run"
    and b: "build_inv (builder (InProc i q) s) (s_st s)"
    by (auto simp: uni_inv_def)
  have e: "s_st s j = EMBRYO" if "builds q = Some j" for j
    using b that unfolding build_inv_def by (metis builder_InProc)
  have e': "q = FkRun j \<or> q = FkFail j \<Longrightarrow> s_st s j = EMBRYO" for j using e [of j] by auto
  have ii: "s_st s i = own_state q" using sl by (auto simp: slot_ok_InProc)
  have "good_pc (InProc i q')" by (rule proc_step_good [OF step wf g ii]) (use e' held in auto)
  moreover have "slot_ok (InProc i q') j (s_st s' j)" for j
    by (rule proc_step_slots [OF step wf g sl e' held])
  moreover have "build_inv (builder (InProc i q') s') (s_st s')"
    by (rule build_inv_effect [OF b proc_step_build [OF step wf g sl e cx(2) held]])
  ultimately show ?thesis
    using proc_step_ctx [OF step cx wf ii] unfolding uni_inv_def by blast
qed

text \<open>The steps of the scheduler itself.\<close>

lemma builder_not_InProc:
  "(\<And>i q. pc \<noteq> InProc i q) \<Longrightarrow>
   builder pc s = (\<lambda>x. if no_thread (s_st s x) then None else builds (s_ctx s x))"
  by (cases pc) (auto simp: builder_def)

definition bg :: "sys \<Rightarrow> nat \<Rightarrow> nat option" where
  "bg s = (\<lambda>x. if no_thread (s_st s x) then None else builds (s_ctx s x))"

lemma uni_inv_not_InProc:
  "(\<And>i q. pc \<noteq> InProc i q) \<Longrightarrow>
   uni_inv pc s \<longleftrightarrow> good_pc pc \<and> (\<forall>j. slot_ok pc j (s_st s j)) \<and>
     (\<forall>j. s_ctx s j = ExDone \<longrightarrow> no_thread (s_st s j)) \<and> build_inv (bg s) (s_st s)"
  by (auto simp: uni_inv_def builder_not_InProc bg_def)

lemma uni_inv_move:
  assumes "uni_inv pc s" "s_st s' = s_st s" "s_ctx s' = s_ctx s" "good_pc pc'"
    and "\<And>i q. pc \<noteq> InProc i q" "\<And>i q. pc' \<noteq> InProc i q"
    and "\<And>j q. slot_ok pc j q \<Longrightarrow> slot_ok pc' j q"
  shows "uni_inv pc' s'"
proof -
  have "bg s' = bg s" using assms(2,3) by (auto simp: bg_def)
  with assms show ?thesis by (simp add: uni_inv_not_InProc)
qed

lemma uni_inv_scas:
  assumes inv: "uni_inv pc s" and st: "s_st s' = s_st (scas s i e n)" "s_ctx s' = s_ctx s" and "good_pc pc'"
    and "\<And>i q. pc \<noteq> InProc i q" "\<And>i q. pc' \<noteq> InProc i q"
    and ok: "\<And>j q. slot_ok pc j q \<Longrightarrow> slot_ok pc' j (if j = i \<and> q = e then n else q)"
    and e: "no_thread n = no_thread e" "e \<noteq> EMBRYO"
  shows "uni_inv pc' s'"
proof -
  have st': "s_st s' j = (if j = i \<and> s_st s j = e then n else s_st s j)" for j
    using st by (auto simp: s_st_scas)
  have nt: "no_thread (s_st s' j) = no_thread (s_st s j)" for j
    using e by (auto simp: st')
  then have "bg s' = bg s" using st(2) by (auto simp: bg_def)
  moreover have "build_inv (bg s) (s_st s) \<Longrightarrow> build_inv (bg s) (s_st s')"
    using e(2) unfolding build_inv_def st' by metis
  moreover have "slot_ok pc' j (s_st s' j)" if "slot_ok pc j (s_st s j)" for j
    using ok [OF that] by (simp add: st')
  ultimately show ?thesis using assms(1,3,4,5,6) nt by (simp add: uni_inv_not_InProc)
qed

lemma uni_inv_upd:
  assumes "uni_inv pc s" "s_st s' = (s_st s)(i := n)" "s_ctx s' = s_ctx s" "good_pc pc'"
    and "\<And>i q. pc \<noteq> InProc i q" "\<And>i q. pc' \<noteq> InProc i q"
    and "\<And>j q. j \<noteq> i \<Longrightarrow> slot_ok pc j q \<Longrightarrow> slot_ok pc' j q" "slot_ok pc' i n"
    and "no_thread n = no_thread (s_st s i)" "s_st s i \<noteq> EMBRYO"
  shows "uni_inv pc' s'"
proof -
  have "bg s' = bg s" using assms(2,3,9) by (auto simp: bg_def)
  moreover have "build_inv (bg s) (s_st s) \<Longrightarrow> build_inv (bg s) (s_st s')"
    using assms(2,10) by (auto simp: build_inv_def)
  ultimately show ?thesis using assms by (simp add: uni_inv_not_InProc)
qed

lemma swtch_uni:
  assumes inv: "uni_inv (InProc i (Swtch k)) s" and wf: "wf_ctx k"
  shows "uni_inv (SBack1 i) (s\<lparr>s_ctx := (s_ctx s)(i := k)\<rparr>)"
proof -
  let ?s = "s\<lparr>s_ctx := (s_ctx s)(i := k)\<rparr>"
  have sl: "slot_ok (InProc i (Swtch k)) j (s_st s j)" for j using inv by (simp add: uni_inv_def)
  have st: "s_st s i = sched_state k" using sl [of i] by (simp add: slot_ok_InProc)
  have k: "k = ExDone \<longleftrightarrow> no_thread (sched_state k)" using wf by (cases k) auto
  have "bg ?s x = builder (InProc i (Swtch k)) s x" for x
    using k st by (auto simp: bg_def builder_InProc)
  then have "bg ?s = builder (InProc i (Swtch k)) s" by auto
  moreover have "slot_ok (SBack1 i) j (s_st s j)" for j
  proof (cases "i = j")
    case True
    with st wf show ?thesis by (cases k) (auto simp: slot_ok_def)
  next
    case False
    with sl [of j] show ?thesis by (auto simp: slot_ok_def)
  qed
  ultimately show ?thesis using inv k st by (auto simp: uni_inv_not_InProc uni_inv_def [of "InProc i _"])
qed

lemma scheduler_step_uni:
  assumes step: "scheduler_step c ch s pc = Some (s', pc')" and inv: "uni_inv pc s"
    and wf: "wf_cpc pc" "\<forall>i. wf_ctx (s_ctx s i)"
    and held: "\<And>j q. slot_held pc = Some (j, q) \<Longrightarrow> s_st s j = q"
  shows "uni_inv pc' s'"
proof (cases pc)
  case SIdle
  show ?thesis
    by (rule uni_inv_move [OF inv]) (use step SIdle in \<open>cases ch; auto simp: slot_ok_def\<close>)+
next
  case (SLook i)
  show ?thesis
    by (rule uni_inv_move [OF inv]) (use step SLook in \<open>auto simp: slot_ok_def split: if_splits\<close>)
next
  case (SSet i)
  show ?thesis
    by (rule uni_inv_move [OF inv]) (use step SSet in \<open>auto simp: slot_ok_def split: if_splits\<close>)
next
  case (SClear i)
  show ?thesis
    by (rule uni_inv_move [OF inv]) (use step SClear in \<open>auto simp: slot_ok_def split: if_splits\<close>)
next
  case (SGrab i)
  show ?thesis
  proof (cases "s_st s i = RUNNABLE")
    case True
    show ?thesis
      by (rule uni_inv_upd [OF inv, where i = i and n = NEG_RUNNING])
        (use step SGrab True in \<open>auto simp: slot_ok_def split: if_splits\<close>)
  next
    case False
    show ?thesis
      by (rule uni_inv_move [OF inv]) (use step SGrab False in \<open>auto simp: slot_ok_def split: if_splits\<close>)
  qed
next
  case (SMark i)
  then have "s_st s i = NEG_RUNNING" using held [of i NEG_RUNNING] by simp
  then show ?thesis
    by (intro uni_inv_upd [OF inv, where i = i and n = RUNNING])
      (use step SMark in \<open>auto simp: slot_ok_def split: if_splits\<close>)
next
  case (SSwtch i)
  have st: "s_st s i = RUNNING" using inv SSwtch unfolding uni_inv_def by (auto simp: slot_ok_def dest: spec [of _ i])
  have cx: "s_ctx s i \<noteq> ExDone" using inv st by (auto simp: uni_inv_def)
  have w: "wf_ctx (s_ctx s i)" using wf by simp
  have p: "s' = s" "pc' = InProc i (s_ctx s i)" using step SSwtch by auto
  have "builder pc' s x = builder pc s x" for x
    using st by (auto simp: SSwtch p builder_def)
  then have b: "builder pc' s = builder pc s" by auto
  moreover have "good_pc pc'" using w cx by (cases "s_ctx s i") (auto simp: p)
  moreover have "slot_ok pc' j (s_st s j)" for j
  proof -
    have "slot_ok pc j (s_st s j)" using inv by (simp add: uni_inv_def)
    then show ?thesis using own_state_ctx [OF w] by (auto simp: SSwtch p slot_ok_def split: if_splits)
  qed
  moreover have "s_ctx s i \<noteq> FkRun j" for j using w by (cases "s_ctx s i") auto
  ultimately show ?thesis using inv unfolding uni_inv_def by (simp add: p)
next
  case (SBack1 i)
  show ?thesis
    by (rule uni_inv_scas [OF inv, of _ i NEG_RUNNABLE RUNNABLE])
      (use step SBack1 in \<open>auto simp: slot_ok_def split: if_splits\<close>)
next
  case (SBack2 i)
  show ?thesis
    by (rule uni_inv_scas [OF inv, of _ i NEG_SLEEPING SLEEPING])
      (use step SBack2 in \<open>auto simp: slot_ok_def split: if_splits\<close>)
next
  case (SBack3 i)
  show ?thesis
    by (rule uni_inv_scas [OF inv, of _ i NEG_ZOMBIE ZOMBIE])
      (use step SBack3 in \<open>auto simp: slot_ok_def split: if_splits\<close>)
next
  case (SIntr q)
  show ?thesis
  proof (cases "\<exists>a b k. q = WkCas a b k")
    case True
    then obtain a b k where "q = WkCas a b k" by blast
    with step SIntr show ?thesis
      by (intro uni_inv_scas [OF inv, of _ a SLEEPING RUNNABLE]) (auto simp: slot_ok_def split: if_splits)
  next
    case False
    then have "s' = s \<and> (\<exists>q'. pc' = SIntr q') \<or> s' = s \<and> pc' = SIdle"
      using step SIntr by (cases q) (auto split: if_splits)
    then show ?thesis
      by (intro uni_inv_move [OF inv]) (use SIntr in \<open>auto simp: slot_ok_def split: if_splits\<close>)
  qed
next
  case (InProc i q)
  show ?thesis
  proof (cases "\<exists>k. q = Swtch k")
    case False
    then obtain q' where q': "proc_step ch i s q = Some (s', q')" "pc' = InProc i q'"
      using step InProc by (cases q) (auto simp del: proc_step.simps)
    show ?thesis unfolding q'(2)
      by (rule proc_step_uni [OF q'(1)]) (use inv wf InProc held in auto)
  next
    case True
    then obtain k where k: "q = Swtch k" by blast
    have p: "s' = s\<lparr>s_ctx := (s_ctx s)(i := k)\<rparr>" "pc' = SBack1 i" using step InProc k by auto
    show ?thesis using swtch_uni [of i k s] inv wf InProc k p by simp
  qed
next
  case (SDead m)
  with inv show ?thesis by (simp add: uni_inv_def)
qed


lemma reach_other_cpu: "reach n s \<Longrightarrow> n \<le> c \<Longrightarrow> s_cpu s c = SIdle"
proof (induction rule: reach.induct)
  case (reach_step s d ch s')
  then show ?case by (auto simp: cpu_step_def dest: scheduler_step_cpu)
qed (simp add: boot_def)

lemma uni_inv_set_cpc: "uni_inv pc (set_cpc c pc' s) = uni_inv pc s"
proof -
  have "builder pc (set_cpc c pc' s) = builder pc s" by (rule ext) (auto simp: builder_def split: cpc.splits)
  then show ?thesis by (simp add: uni_inv_def)
qed

lemma reach_uni: "reach 1 s \<Longrightarrow> uni_inv (s_cpu s 0) s"
proof (induction rule: reach.induct)
  case reach_boot
  show ?case by (auto simp: boot_def uni_inv_not_InProc slot_ok_def bg_def build_inv_def)
next
  case (reach_step s c ch s')
  have c: "c = 0" using reach_step.hyps(2) by simp
  obtain s1 pc where st: "scheduler_step 0 ch s (s_cpu s 0) = Some (s1, pc)" "s' = set_cpc 0 pc s1"
    using reach_step.hyps(3) c by (auto simp: cpu_step_def)
  have "wf_sys s" "held_inv s" using reach_step.hyps(1) by (rule reach_wf, rule reach_held)
  then have "uni_inv pc s1"
    by (intro scheduler_step_uni [OF st(1) reach_step.IH]) (auto simp: wf_sys_def held_inv_def)
  then show ?case by (simp add: st(2) uni_inv_set_cpc)
qed

section \<open>Properties\<close>

text \<open>
  C3. On any number of CPUs and under every interleaving, the two swaps that end a slot's time
  in \<open>NEG_RUNNING\<close> and in \<open>NEG_UNUSED\<close> succeed: the asserts in \<open>scheduler\<close> and \<open>wait\<close> never
  panic.
\<close>

theorem slot_locks_never_fail:
  assumes "reach ncpu s"
  shows "s_cpu s c \<noteq> SDead m \<and> s_cpu s c \<noteq> InProc i (Dead ''assert p->state==UNUSED is violated'')"
  using reach_no_lock_panic [OF assms, of c] by (auto simp: lock_panic_def)

theorem slot_locks_never_fail_witness:
  "\<exists>s. reach 2 s \<and> s_cpu s 1 = SMark 0 \<and> s_cpu s 1 \<noteq> SDead []"
proof -
  let ?tr = "replicate 4 (1 :: nat, Go)"
  have r: "map_option (\<lambda>s. s_cpu s 1) (sched_run ?tr boot) = Some (SMark 0)" by code_simp
  then obtain s where s: "sched_run ?tr boot = Some s" "s_cpu s 1 = SMark 0" by auto
  have "reach 2 s" by (rule sched_run_reach [OF reach_boot s(1)]) auto
  with s slot_locks_never_fail [OF this, of 1 "[]" 0] show ?thesis by blast
qed


text \<open>
  Runs of two CPUs. The first lets process 0 fork process 1 on CPU 0 and CPU 1 pick it up.
\<close>

definition run_fork :: "(nat \<times> choice) list" where
  "run_fork = replicate 6 (0, Go) @ [(0, DoFork)] @ replicate 4 (0, Go) @ replicate 7 (1, Go)"

definition run_double :: "(nat \<times> choice) list" where
  "run_double = run_fork @
     [(1, DoYield)] @ replicate 5 (1, Go) @ \<comment> \<open>process 1 yields; CPU 1 stops after its first swap\<close>
     [(0, DoSleep 200)] @ replicate 15 (0, Go) @ \<comment> \<open>CPU 0 takes process 1\<close>
     [(0, DoSleep 100)] @ replicate 3 (0, Go) @ \<comment> \<open>process 1 is on its way to sleep\<close>
     replicate 66 (1, Go) @ \<comment> \<open>CPU 1's second swap marks it \<open>SLEEPING\<close>\<close>
     [(1, DoWakeup 100)] @ replicate 68 (1, Go) @ \<comment> \<open>it is woken\<close>
     replicate 7 (1, Go) \<comment> \<open>and CPU 1 runs it\<close>"

definition run_lost :: "(nat \<times> choice) list" where
  "run_lost = run_fork @
     [(0, DoWait)] @ replicate 68 (0, Go) @ \<comment> \<open>the parent found no zombie and calls \<open>sleep\<close>\<close>
     [(1, DoExit)] @ replicate 139 (1, Go) @ \<comment> \<open>the child exits and wakes nobody\<close>
     replicate 9 (0, Go) \<comment> \<open>the parent goes to sleep\<close>"


text \<open>
  C31. On two CPUs the scheduler can run one process twice: after the swap of \<open>NEG_RUNNABLE\<close> to
  \<open>RUNNABLE\<close> another CPU may run the process, and the next swap of the first CPU then takes that
  run's \<open>NEG_SLEEPING\<close> for its own. Both CPUs end up on the same kernel stack.
\<close>

theorem scheduler_double_run:
  "\<exists>s. reach 2 s \<and> s_cpu s 0 = InProc 1 (SchedChk (SlTidy Run)) \<and> s_cpu s 1 = InProc 1 Run \<and>
       s_st s 1 = RUNNING"
proof -
  have "map_option (\<lambda>s. (s_cpu s 0, s_cpu s 1, s_st s 1)) (sched_run run_double boot) =
      Some (InProc 1 (SchedChk (SlTidy Run)), InProc 1 Run, RUNNING)" by code_simp
  then obtain s where s: "sched_run run_double boot = Some s"
      "s_cpu s 0 = InProc 1 (SchedChk (SlTidy Run))" "s_cpu s 1 = InProc 1 Run" "s_st s 1 = RUNNING"
    by auto
  have "reach 2 s"
    by (rule sched_run_reach [OF reach_boot s(1)]) (auto simp: run_double_def run_fork_def)
  with s show ?thesis by blast
qed


end
