(* ===== verification/Xv6_Signal.thy ===== *)
theory Xv6_Signal
  imports Xv6_Ptable
begin

text \<open>
  Signals (\<open>proc.c\<close>): \<open>sigaction\<close>, \<open>sigprocmask\<close>, the delivery routine \<open>signalsHandler\<close> that
  \<open>trapasm.S\<close> calls on every return to user mode, and \<open>sigret\<close>. The current process is a
  \<open>proc\<close> record and \<open>um\<close> is the memory its page table maps, which the kernel reads and writes
  through user addresses.
\<close>

section \<open>Definitions\<close>

text \<open>\<open>struct sigaction\<close> in user memory: the handler's address and the mask.\<close>

definition sa_handler :: "mem \<Rightarrow> u32 \<Rightarrow> u32" where "sa_handler um h = ld32 um h"
definition sa_sigmask :: "mem \<Rightarrow> u32 \<Rightarrow> u32" where "sa_sigmask um h = ld32 um (h + 4)"

definition sigprocmask :: "u32 \<Rightarrow> proc \<Rightarrow> u32 \<times> proc" where
  "sigprocmask sigmask p = (p_mask p, p\<lparr>p_mask := sigmask\<rparr>)"

text \<open>
  \<open>sigaction\<close> has no range check on \<open>signum\<close>: outside the array the access is undefined.
\<close>

definition sigaction :: "int \<Rightarrow> u32 \<Rightarrow> u32 \<Rightarrow> proc \<Rightarrow> mem \<Rightarrow> (int \<times> proc \<times> mem) result" where
  "sigaction signum act oldact p um =
     (if signum = int SIGKILL \<or> signum = int SIGSTOP then Inr (- 1, p, um)
      else if signum < 0 \<or> 32 \<le> signum then Inl (Undefined ''signal_handlers[signum]'')
      else let h = p_handlers p ! nat signum;
               um = (if oldact \<noteq> 0
                     then st32 (st32 um oldact (sa_handler um h)) (oldact + 4) (sa_sigmask um h)
                     else um)
           in Inr (0, p\<lparr>p_handlers := (p_handlers p)[nat signum := act]\<rparr>, um))"

definition is_sigact :: "u32 \<Rightarrow> bool" where
  "is_sigact a \<longleftrightarrow> \<not> (a = 0 \<or> a = 1 \<or> a = 9 \<or> a = 17 \<or> a = 19)"

definition pending :: "proc \<Rightarrow> nat \<Rightarrow> bool" where
  "pending p i \<longleftrightarrow> p_pending p AND shl1 (int i) \<noteq> 0"

definition masked :: "proc \<Rightarrow> nat \<Rightarrow> bool" where
  "masked p i \<longleftrightarrow> p_mask p AND shl1 (int i) \<noteq> 0"

definition clear_pending :: "nat \<Rightarrow> proc \<Rightarrow> proc" where
  "clear_pending i p = p\<lparr>p_pending := p_pending p AND NOT (shl1 (int i))\<rparr>"

text \<open>
  The body of the first loop of \<open>signalsHandler\<close>, which looks for signals that kill, stop or
  continue. The result is the process, \<open>is_killed\<close>, \<open>is_stopped\<close> and \<open>is_cont\<close>.
\<close>

definition sig_test :: "mem \<Rightarrow> nat \<Rightarrow> proc \<Rightarrow> bool \<Rightarrow> bool \<Rightarrow> proc \<times> bool \<times> bool \<times> bool" where
  "sig_test um i p is_stopped is_cont =
     (if pending p i \<and> (\<not> masked p i \<or> i = SIGKILL \<or> i = SIGSTOP \<or> i = SIGCONT)
      then let h = p_handlers p ! i in
           if i = SIGKILL then (p, True, False, is_cont)
           else if (h = of_nat SIGKILL \<or> h = SIG_DFL) \<and> i \<noteq> SIGCONT \<and> i \<noteq> SIGSTOP
                then (p, True, False, is_cont)
           else if is_sigact h \<and> (sa_handler um h = of_nat SIGKILL \<or> sa_handler um h = SIG_DFL)
                then (p, True, False, is_cont)
           else let (p, is_stopped) =
                      (if i = SIGSTOP \<or> h = of_nat SIGSTOP \<or> (is_sigact h \<and> sa_handler um h = of_nat SIGSTOP)
                       then (clear_pending i p, True) else (p, is_stopped));
                    (p, is_cont) =
                      (if i = SIGCONT \<or> h = of_nat SIGCONT \<or> (is_sigact h \<and> sa_handler um h = of_nat SIGCONT)
                       then (clear_pending i p, True) else (p, is_cont))
                in (p, False, is_stopped, is_cont)
      else (p, False, is_stopped, is_cont))"

text \<open>The loop; a signal that kills breaks it.\<close>

fun sig_scan :: "mem \<Rightarrow> nat list \<Rightarrow> proc \<Rightarrow> bool \<Rightarrow> bool \<Rightarrow> proc \<times> bool \<times> bool \<times> bool" where
  "sig_scan um [] p is_stopped is_cont = (p, False, is_stopped, is_cont)"
| "sig_scan um (i # is) p is_stopped is_cont =
     (case sig_test um i p is_stopped is_cont of
        (p, is_killed, is_stopped, is_cont) \<Rightarrow>
          if is_killed then (p, is_killed, is_stopped, is_cont)
          else sig_scan um is p is_stopped is_cont)"

text \<open>
  The \<open>do ... while (is_stopped)\<close> loop. A stopped process yields; while it is away other
  processes may \<open>kill\<close> it: \<open>posted\<close> lists, per yield, the signals that were posted. When the
  list ends nobody will ever run again to continue the process.
\<close>

fun sig_stopped :: "mem \<Rightarrow> u32 list \<Rightarrow> proc \<Rightarrow> bool \<Rightarrow> (bool \<times> proc) result" where
  "sig_stopped um posted p is_stopped =
     (case sig_scan um [0..<32] p is_stopped False of
        (p, is_killed, is_stopped, is_cont) \<Rightarrow>
          if is_killed then Inr (True, p)
          else if is_stopped
               then (case posted of
                       [] \<Rightarrow> Inl (Sleeps ''stopped'')
                     | w # posted' \<Rightarrow>
                         let p = p\<lparr>p_pending := p_pending p OR w\<rparr>
                         in if is_cont then Inr (False, p)
                            else sig_stopped um posted' p True)
               else Inr (False, p))"

declare sig_stopped.simps [simp del]

text \<open>\<open>call_sigret\<close> of \<open>trapasm.S\<close>: \<open>movl $24, %eax; int $64; ret\<close>.\<close>

definition call_sigret :: "u8 list" where
  "call_sigret = [0xb8, 0x18, 0, 0, 0, 0xcd, 0x40, 0xc3]"

text \<open>Delivery of signal \<open>i\<close>: the frame for the handler is built on the user stack.\<close>

definition sig_frame :: "nat \<Rightarrow> proc \<Rightarrow> mem \<Rightarrow> proc \<times> mem" where
  "sig_frame i p um =
     (let h = p_handlers p ! i;
          p = clear_pending i p;
          func = sa_handler um h;
          p = p\<lparr>p_backup := p_tf p, p_mask_backup := p_mask p\<rparr>;
          p = (if is_sigact h then p\<lparr>p_mask := sa_sigmask um h\<rparr> else p);
          code_length = of_nat (length call_sigret);
          esp = tf_esp (p_tf p) - (code_length + code_length mod 8);
          call_sigret_add = esp;
          um = store_bytes um call_sigret_add call_sigret;
          esp = esp - 4;
          um = st32 um esp (of_nat i);
          esp = esp - 4;
          um = st32 um esp call_sigret_add
      in (p\<lparr>p_tf := (p_tf p)\<lparr>tf_esp := esp, tf_eip := func\<rparr>\<rparr>, um))"

definition sig_ignored :: "proc \<Rightarrow> mem \<Rightarrow> nat \<Rightarrow> bool" where
  "sig_ignored p um i \<longleftrightarrow>
     masked p i \<or> p_handlers p ! i = SIG_IGN \<or> sa_handler um (p_handlers p ! i) = SIG_IGN"

fun sig_deliver :: "nat list \<Rightarrow> proc \<Rightarrow> mem \<Rightarrow> proc \<times> mem" where
  "sig_deliver [] p um = (p, um)"
| "sig_deliver (i # is) p um =
     (if pending p i \<and> \<not> sig_ignored p um i then sig_frame i p um
      else if pending p i \<and> sig_ignored p um i then sig_deliver is (clear_pending i p) um
      else sig_deliver is p um)"

text \<open>
  \<open>Inr None\<close> is the exit of the process in \<open>kill_handler\<close>.
\<close>

definition signalsHandler :: "u32 list \<Rightarrow> proc \<Rightarrow> mem \<Rightarrow> (proc \<times> mem) option result" where
  "signalsHandler posted p um =
     (if tf_cs (p_tf p) AND 3 \<noteq> 3 then Inr (Some (p, um))
      else andthen (sig_stopped um posted p False) (\<lambda>(is_killed, p).
             if is_killed then Inr None else Inr (Some (sig_deliver [0..<32] p um))))"

definition sigret :: "proc \<Rightarrow> proc" where
  "sigret p = p\<lparr>p_tf := p_backup p, p_mask := p_mask_backup p\<rparr>"

section \<open>Lemmas\<close>

lemma shl1_nat: "i < 32 \<Longrightarrow> shl1 (int i) = push_bit i 1"
  by (simp add: shl1_def)

lemma pending_iff: "i < 32 \<Longrightarrow> pending p i \<longleftrightarrow> bit (p_pending p) i"
  by (simp add: pending_def shl1_nat bit_iff_and_push_bit_not_eq_0)

lemma masked_iff: "i < 32 \<Longrightarrow> masked p i \<longleftrightarrow> bit (p_mask p) i"
  by (simp add: masked_def shl1_nat bit_iff_and_push_bit_not_eq_0)

lemma pending_clear: "i < 32 \<Longrightarrow> j < 32 \<Longrightarrow> pending (clear_pending i p) j \<longleftrightarrow> pending p j \<and> j \<noteq> i"
  by (auto simp: pending_iff clear_pending_def shl1_nat bit_simps)

lemma clear_pending_frame [simp]:
  "p_handlers (clear_pending i p) = p_handlers p" "p_mask (clear_pending i p) = p_mask p"
  "p_tf (clear_pending i p) = p_tf p" "masked (clear_pending i p) j = masked p j"
  "sig_ignored (clear_pending i p) um j = sig_ignored p um j"
  by (simp_all add: clear_pending_def masked_def sig_ignored_def)

lemma sig_consts [simp]: "SIGKILL < 32" "SIGSTOP < 32" "SIGCONT < 32" "SIGSTOP \<noteq> SIGKILL" "SIGCONT \<noteq> SIGKILL"
  "SIGSTOP \<noteq> SIGCONT" "SIGCONT \<noteq> SIGSTOP" "SIGKILL \<noteq> SIGSTOP" "SIGKILL \<noteq> SIGCONT"
  by (simp_all add: xv6_consts)

text \<open>A pending \<open>SIGKILL\<close> survives every signal before it in the scan.\<close>

lemma sig_test_kill: "pending p SIGKILL \<Longrightarrow> fst (snd (sig_test um SIGKILL p st ct))"
  by (simp add: sig_test_def)

lemma sig_test_keeps:
  assumes "sig_test um i p st ct = (q, k, st', ct')" "i < 32" "j < 32" "j \<noteq> i"
  shows "pending q j \<longleftrightarrow> pending p j"
  using assms by (auto simp: sig_test_def Let_def pending_clear split: if_splits)

lemma sig_test_none: "\<not> pending p i \<Longrightarrow> sig_test um i p st ct = (p, False, st, ct)"
  by (simp add: sig_test_def)

lemma sig_scan_kill:
  "SIGKILL \<in> set is \<Longrightarrow> (\<forall>i\<in>set is. i < 32) \<Longrightarrow> pending p SIGKILL \<Longrightarrow>
   fst (snd (sig_scan um is p st ct))"
proof (induction "is" arbitrary: p st ct)
  case (Cons i "is")
  obtain q k st' ct' where t: "sig_test um i p st ct = (q, k, st', ct')" by (metis prod_cases4)
  show ?case
  proof (cases "i = SIGKILL")
    case True
    with Cons.prems t sig_test_kill [of p um st ct] show ?thesis by simp
  next
    case False
    with Cons.prems sig_test_keeps [OF t, of SIGKILL] have "pending q SIGKILL" by simp
    with Cons False t show ?thesis by auto
  qed
qed simp

lemma sig_stopped_kill:
  assumes "pending p SIGKILL"
  shows "\<exists>q. sig_stopped um posted p st = Inr (True, q)"
proof -
  have k: "fst (snd (sig_scan um [0..<32] p st False))"
    by (rule sig_scan_kill) (use assms in \<open>simp_all add: xv6_consts\<close>)
  obtain q k' st' ct where "sig_scan um [0..<32] p st False = (q, k', st', ct)" by (metis prod_cases4)
  with k show ?thesis by (subst sig_stopped.simps) simp
qed

text \<open>Nothing to do: no signal of the scan is pending.\<close>

lemma sig_scan_none:
  "(\<forall>i\<in>set is. \<not> pending p i) \<Longrightarrow> sig_scan um is p st ct = (p, False, st, ct)"
  by (induction "is") (auto simp: sig_test_none)

lemma sig_deliver_none: "(\<forall>i\<in>set is. \<not> pending p i) \<Longrightarrow> sig_deliver is p um = (p, um)"
  by (induction "is") auto

lemma sig_scan_append:
  "sig_scan um (xs @ ys) p st ct =
     (case sig_scan um xs p st ct of
        (q, k, st', ct') \<Rightarrow> if k then (q, k, st', ct') else sig_scan um ys q st' ct')"
  by (induction xs arbitrary: p st ct) (auto split: prod.splits)

lemma upto_32_split: "i < 32 \<Longrightarrow> [0..<32] = [0..<i] @ i # [Suc i..<32]"
  using upt_add_eq_append [of 0 i "32 - i"] by (simp add: upt_conv_Cons)

text \<open>Exactly one pending signal, and it is one that the scan consumes or leaves.\<close>

lemma sig_scan_single:
  assumes "i < 32" "\<And>j. j < 32 \<Longrightarrow> pending p j \<longleftrightarrow> j = i"
  shows "sig_scan um [0..<32] p st ct = 
     (case sig_scan um [i] p st ct of
        (q, k, st', ct') \<Rightarrow> if k then (q, k, st', ct') else sig_scan um [Suc i..<32] q st' ct')"
proof -
  have "sig_scan um [0..<i] p st ct = (p, False, st, ct)"
    by (rule sig_scan_none) (use assms in auto)
  moreover have "[0..<32] = [0..<i] @ [i] @ [Suc i..<32]" using upto_32_split [OF assms(1)] by simp
  ultimately show ?thesis by (simp only: sig_scan_append) (simp split: prod.splits)
qed

lemma sig_scan_stop:
  assumes "\<And>j. j < 32 \<Longrightarrow> pending p j \<longleftrightarrow> j = SIGSTOP" "p_handlers p ! SIGSTOP = SIG_DFL"
  shows "sig_scan um [0..<32] p st ct = (clear_pending SIGSTOP p, False, True, ct)"
proof -
  have "sig_scan um [SIGSTOP] p st ct = (clear_pending SIGSTOP p, False, True, ct)"
    using assms by (simp add: sig_test_def Let_def is_sigact_def xv6_consts)
  moreover have "sig_scan um [Suc SIGSTOP..<32] (clear_pending SIGSTOP p) True ct =
      (clear_pending SIGSTOP p, False, True, ct)"
    by (rule sig_scan_none) (use assms(1) in \<open>auto simp: pending_clear\<close>)
  ultimately show ?thesis using assms by (subst sig_scan_single) auto
qed

lemma sig_scan_cont:
  assumes "\<And>j. j < 32 \<Longrightarrow> pending p j \<longleftrightarrow> j = SIGCONT" "p_handlers p ! SIGCONT = SIG_DFL"
  shows "sig_scan um [0..<32] p st ct = (clear_pending SIGCONT p, False, st, True)"
proof -
  have "sig_scan um [SIGCONT] p st ct = (clear_pending SIGCONT p, False, st, True)"
    using assms by (simp add: sig_test_def Let_def is_sigact_def xv6_consts)
  moreover have "sig_scan um [Suc SIGCONT..<32] (clear_pending SIGCONT p) st True =
      (clear_pending SIGCONT p, False, st, True)"
    by (rule sig_scan_none) (use assms(1) in \<open>auto simp: pending_clear\<close>)
  ultimately show ?thesis using assms by (subst sig_scan_single) auto
qed

lemma length_call_sigret [simp]: "length call_sigret = 8"
  by (simp add: call_sigret_def)

text \<open>The frame that delivery leaves on the user stack.\<close>

lemma frame_memory:
  fixes um :: mem and b v w :: u32
  defines "um' \<equiv> st32 (st32 (store_bytes um (b + 8) call_sigret) (b + 4) w) b v"
  shows "ld32 um' b = v" and "ld32 um' (b + 4) = w"
    and "k < 8 \<Longrightarrow> um' (b + 8 + of_nat k) = call_sigret ! k"
    and "\<not> unat (a - b) < 16 \<Longrightarrow> um' a = um a"
proof -
  show "ld32 um' b = v" by (simp add: um'_def)
  show "ld32 um' (b + 4) = w" by (simp add: um'_def ld32_st32_other)
  have sb: "store_bytes um (b + 8) call_sigret =
      um(b + 8 := 0xb8, b + 9 := 0x18, b + 10 := 0, b + 11 := 0, b + 12 := 0, b + 13 := 0xcd,
         b + 14 := 0x40, b + 15 := 0xc3)"
    by (simp add: call_sigret_def add.assoc)
  show "um' (b + 8 + of_nat k) = call_sigret ! k" if "k < 8"
  proof -
    have "k = 0 \<or> k = 1 \<or> k = 2 \<or> k = 3 \<or> k = 4 \<or> k = 5 \<or> k = 6 \<or> k = 7" using that by linarith
    then show ?thesis
      by (elim disjE) (simp_all add: um'_def sb st32_apply call_sigret_def add.assoc)
  qed
  show "um' a = um a" if "\<not> unat (a - b) < 16"
  proof -
    have ne: "a \<noteq> b + of_nat c" if "c < 16" for c
      using that \<open>\<not> unat (a - b) < 16\<close> by (auto simp: unat_of_nat_u32)
    have "\<not> unat (a - b) < 4" using that by simp
    moreover have "\<not> unat (a - (b + 4)) < 4"
    proof
      assume l: "unat (a - (b + 4)) < 4"
      define x where "x = a - (b + 4)"
      have "a - b = x + 4" by (simp add: x_def)
      moreover have "unat (x + 4) = unat x + 4" using l by (subst unat_add_u32) (simp_all add: x_def)
      ultimately show False using l that by (simp add: x_def)
    qed
    ultimately show ?thesis
      using ne [of 8] ne [of 9] ne [of 10] ne [of 11] ne [of 12] ne [of 13] ne [of 14] ne [of 15]
      by (simp add: um'_def sb st32_apply)
  qed
qed

lemma sig_frame_unfold:
  "sig_frame i p um =
     ((if is_sigact (p_handlers p ! i) then (clear_pending i p)\<lparr>p_mask := sa_sigmask um (p_handlers p ! i)\<rparr>
       else clear_pending i p)
        \<lparr>p_backup := p_tf p, p_mask_backup := p_mask p,
         p_tf := (p_tf p)\<lparr>tf_esp := tf_esp (p_tf p) - 16, tf_eip := sa_handler um (p_handlers p ! i)\<rparr>\<rparr>,
      st32 (st32 (store_bytes um (tf_esp (p_tf p) - 16 + 8) call_sigret) (tf_esp (p_tf p) - 16 + 4) (of_nat i))
        (tf_esp (p_tf p) - 16) (tf_esp (p_tf p) - 16 + 8))"
  by (simp add: sig_frame_def Let_def clear_pending_def)

text \<open>
  The signal delivered is the first pending one that is not ignored; the pending ones before it
  are dropped.
\<close>

lemma sig_deliver_first:
  assumes "i < 32" "pending p i" "\<not> sig_ignored p um i"
    and "\<And>j. n \<le> j \<Longrightarrow> j < i \<Longrightarrow> pending p j \<Longrightarrow> sig_ignored p um j" "n \<le> i"
  shows "\<exists>q. sig_deliver [n..<32] p um = sig_frame i q um \<and> p_handlers q = p_handlers p \<and>
    p_mask q = p_mask p \<and> p_tf q = p_tf p \<and>
    (\<forall>j<32. pending q j \<longleftrightarrow> pending p j \<and> \<not> (n \<le> j \<and> j < i))"
  using assms
proof (induction "i - n" arbitrary: n p)
  case 0
  then show ?case by (intro exI [of _ p]) (auto simp: upt_conv_Cons)
next
  case (Suc d)
  then have n: "n < i" "n < 32" "Suc n \<le> i" "d = i - Suc n" by auto
  have u: "[n..<32] = n # [Suc n..<32]" using n by (simp add: upt_conv_Cons)
  show ?case
  proof (cases "pending p n")
    case True
    with Suc.prems n have ign: "sig_ignored p um n" by simp
    obtain q where q: "sig_deliver [Suc n..<32] (clear_pending n p) um = sig_frame i q um"
        "p_handlers q = p_handlers p" "p_mask q = p_mask p" "p_tf q = p_tf p"
        "\<forall>j<32. pending q j \<longleftrightarrow> pending (clear_pending n p) j \<and> \<not> (Suc n \<le> j \<and> j < i)"
      using Suc.hyps(1) [OF n(4), of "clear_pending n p"] Suc.prems n by (auto simp: pending_clear)
    have "\<forall>j<32. pending q j \<longleftrightarrow> pending p j \<and> \<not> (n \<le> j \<and> j < i)"
      using q(5) n by (auto simp: pending_clear le_eq_less_or_eq Suc_le_eq)
    with q u True ign show ?thesis by auto
  next
    case False
    obtain q where q: "sig_deliver [Suc n..<32] p um = sig_frame i q um"
        "p_handlers q = p_handlers p" "p_mask q = p_mask p" "p_tf q = p_tf p"
        "\<forall>j<32. pending q j \<longleftrightarrow> pending p j \<and> \<not> (Suc n \<le> j \<and> j < i)"
      using Suc.hyps(1) [OF n(4), of p] Suc.prems n by auto
    have "\<forall>j<32. pending q j \<longleftrightarrow> pending p j \<and> \<not> (n \<le> j \<and> j < i)"
      using q(5) n False by (auto simp: le_eq_less_or_eq Suc_le_eq)
    with q u False show ?thesis by auto
  qed
qed

text \<open>When the only pending signal is ignored it is dropped and no frame is built.\<close>

lemma sig_deliver_drop:
  assumes "i < 32" "\<And>j. j < 32 \<Longrightarrow> pending p j \<longleftrightarrow> j = i" "masked p i"
  shows "sig_deliver [0..<32] p um = (clear_pending i p, um)"
proof -
  have "sig_deliver (xs @ ys) p um = sig_deliver ys p um" if "\<forall>j\<in>set xs. \<not> pending p j" for xs ys
    using that by (induction xs) auto
  then have "sig_deliver [0..<32] p um = sig_deliver (i # [Suc i..<32]) p um"
    unfolding upto_32_split [OF assms(1)] using assms(1,2) by simp
  moreover have "sig_deliver [Suc i..<32] (clear_pending i p) um = (clear_pending i p, um)"
    by (rule sig_deliver_none) (use assms(1,2) in \<open>auto simp: pending_clear\<close>)
  ultimately show ?thesis using assms by (simp add: sig_ignored_def)
qed

text \<open>A stopped process with nothing pending stays stopped.\<close>

lemma or_zero_pending [simp]: "p\<lparr>p_pending := p_pending p OR 0\<rparr> = p"
  by simp

lemma sig_stopped_idle:
  assumes "\<forall>j<32. \<not> pending p j"
  shows "sig_stopped um (replicate n 0 @ rest) p True = sig_stopped um rest p True"
proof (induction n)
  case (Suc n)
  have "sig_scan um [0..<32] p True False = (p, False, True, False)"
    by (rule sig_scan_none) (use assms in auto)
  with Suc show ?case by (subst sig_stopped.simps) simp
qed simp

lemma sig_stopped_idle_end:
  assumes "\<forall>j<32. \<not> pending p j"
  shows "sig_stopped um [] p True = Inl (Sleeps ''stopped'')"
proof -
  have "sig_scan um [0..<32] p True False = (p, False, True, False)"
    by (rule sig_scan_none) (use assms in auto)
  then show ?thesis by (subst sig_stopped.simps) simp
qed

lemma sig_stopped_first:
  assumes "\<And>j. j < 32 \<Longrightarrow> pending p j \<longleftrightarrow> j = SIGSTOP" "p_handlers p ! SIGSTOP = SIG_DFL"
  shows "sig_stopped um (w # posted) p st =
    sig_stopped um posted ((clear_pending SIGSTOP p)\<lparr>p_pending := p_pending (clear_pending SIGSTOP p) OR w\<rparr>) True"
    and "sig_stopped um [] p st = Inl (Sleeps ''stopped'')"
  by (simp_all add: sig_stopped.simps [of um "w # posted" p st] sig_stopped.simps [of um "[]" p st]
      sig_scan_stop [OF assms, of um st False])

lemma pending_or: "j < 32 \<Longrightarrow> pending (p\<lparr>p_pending := p_pending p OR w\<rparr>) j \<longleftrightarrow> pending p j \<or> bit w j"
  by (simp add: pending_iff bit_or_iff)

lemma sig_stopped_cont:
  assumes none: "\<forall>j<32. \<not> pending p j" and h: "p_handlers p ! SIGCONT = SIG_DFL"
  shows "\<exists>q. sig_stopped um [shl1 (int SIGCONT), 0] p True = Inr (False, q) \<and>
    (\<forall>j<32. \<not> pending q j) \<and> p_tf q = p_tf p"
proof -
  let ?p = "p\<lparr>p_pending := p_pending p OR shl1 (int SIGCONT)\<rparr>"
  let ?q = "clear_pending SIGCONT ?p"
  have "sig_scan um [0..<32] p True False = (p, False, True, False)"
    by (rule sig_scan_none) (use none in auto)
  then have 1: "sig_stopped um [shl1 (int SIGCONT), 0] p True = sig_stopped um [0] ?p True"
    by (subst sig_stopped.simps) simp
  have pend: "pending ?p j \<longleftrightarrow> j = SIGCONT" if "j < 32" for j
    using none that by (auto simp: pending_or shl1_nat bit_simps)
  have "sig_scan um [0..<32] ?p True False = (?q, False, True, True)"
    by (rule sig_scan_cont) (use pend h in auto)
  then have "sig_stopped um [0] ?p True = Inr (False, ?q)"
    by (subst sig_stopped.simps) simp
  moreover have "\<forall>j<32. \<not> pending ?q j" using pend by (simp add: pending_clear)
  ultimately show ?thesis using 1 by simp
qed

text \<open>A pending signal that is neither special nor has a special handler passes the scan.\<close>

lemma sig_test_pass:
  assumes "i \<noteq> SIGKILL" "i \<noteq> SIGSTOP" "i \<noteq> SIGCONT"
    and "masked p i \<or> (is_sigact (p_handlers p ! i) \<and>
           sa_handler um (p_handlers p ! i) \<notin> {0, 9, 17, 19})"
  shows "sig_test um i p st ct = (p, False, st, ct)"
proof (cases "masked p i")
  case True
  with assms(1-3) show ?thesis by (simp add: sig_test_def)
next
  case False
  with assms(4) have "is_sigact (p_handlers p ! i)" "sa_handler um (p_handlers p ! i) \<notin> {0, 9, 17, 19}"
    by simp_all
  then show ?thesis using assms(1-3) by (simp add: sig_test_def is_sigact_def xv6_consts)
qed

lemma sig_scan_pass:
  assumes i: "i < 32" "\<And>j. j < 32 \<Longrightarrow> pending p j \<longleftrightarrow> j = i" "i \<noteq> SIGKILL" "i \<noteq> SIGSTOP" "i \<noteq> SIGCONT"
    and "masked p i \<or> (is_sigact (p_handlers p ! i) \<and>
           sa_handler um (p_handlers p ! i) \<notin> {0, 9, 17, 19})"
  shows "sig_scan um [0..<32] p st ct = (p, False, st, ct)"
proof -
  have "sig_scan um [Suc i..<32] p st ct = (p, False, st, ct)"
    by (rule sig_scan_none) (use i in auto)
  then show ?thesis
    using sig_test_pass [OF i(3,4,5) assms(6), of st ct] by (subst sig_scan_single [OF i(1,2)]) auto
qed

section \<open>Properties\<close>

lemma bit_word_2p5: "j < 32 \<Longrightarrow> bit (0x20 :: u32) j \<longleftrightarrow> j = 5"
proof -
  have "(0x20 :: u32) = push_bit 5 1" by simp
  then show "j < 32 \<Longrightarrow> ?thesis" by (simp only: bit_push_bit_iff) (auto simp: bit_1_iff)
qed

lemma bit_word_2p17: "j < 32 \<Longrightarrow> bit (0x20000 :: u32) j \<longleftrightarrow> j = 17"
proof -
  have "(0x20000 :: u32) = push_bit 17 1" by simp
  then show "j < 32 \<Longrightarrow> ?thesis" by (simp only: bit_push_bit_iff) (auto simp: bit_1_iff)
qed

definition sig_demo :: proc where
  "sig_demo = demo_proc\<lparr>p_tf := (p_tf demo_proc)\<lparr>tf_cs := 0x1b, tf_esp := 0x2000, tf_eip := 0x123\<rparr>\<rparr>"

lemma sig_demo_user: "tf_cs (p_tf sig_demo) AND 3 = 3"
  by (simp add: sig_demo_def)

text \<open>
  C19. \<open>SIGKILL\<close> can be neither blocked nor caught: a process that returns to user mode with
  signal 9 pending exits, whatever its mask, its handlers and its other pending signals.
\<close>

theorem sigkill_always_kills:
  assumes "tf_cs (p_tf p) AND 3 = 3" "bit (p_pending p) SIGKILL"
  shows "signalsHandler posted p um = Inr None"
proof -
  have "pending p SIGKILL" using assms(2) by (simp add: pending_iff)
  from sig_stopped_kill [OF this] obtain q where "sig_stopped um posted p False = Inr (True, q)" by blast
  with assms(1) show ?thesis by (simp add: signalsHandler_def)
qed

theorem sigkill_always_kills_witness:
  "signalsHandler [] (sig_demo\<lparr>p_pending := 0x20200, p_mask := 0x200\<rparr>) (\<lambda>_. 0) = Inr None"
proof (rule sigkill_always_kills)
  show "tf_cs (p_tf (sig_demo\<lparr>p_pending := 0x20200, p_mask := 0x200\<rparr>)) AND 3 = 3"
    by (simp add: sig_demo_def)
  show "bit (p_pending (sig_demo\<lparr>p_pending := 0x20200, p_mask := 0x200\<rparr>)) SIGKILL"
    by (simp add: SIGKILL_def)
qed

text \<open>
  C25. Stop and continue: a process with only \<open>SIGSTOP\<close> pending (default handlers) never
  returns to user mode as long as nothing else is posted, however often it is scheduled; once
  \<open>SIGCONT\<close> is posted it does, with no signal pending and its trap frame as it was.
\<close>

theorem sigstop_until_sigcont:
  assumes "tf_cs (p_tf p) AND 3 = 3" "\<forall>j<32. bit (p_pending p) j \<longleftrightarrow> j = SIGSTOP"
    and "p_handlers p ! SIGSTOP = SIG_DFL" "p_handlers p ! SIGCONT = SIG_DFL"
  shows "signalsHandler (replicate n 0) p um = Inl (Sleeps ''stopped'') \<and>
    (\<exists>q. signalsHandler (0 # replicate n 0 @ [shl1 (int SIGCONT), 0]) p um = Inr (Some (q, um)) \<and>
      (\<forall>j<32. \<not> bit (p_pending q) j) \<and> p_tf q = p_tf p)"
proof -
  let ?p = "clear_pending SIGSTOP p"
  have pend: "pending p j \<longleftrightarrow> j = SIGSTOP" if "j < 32" for j using assms(2) that by (simp add: pending_iff)
  note first = sig_stopped_first [OF pend assms(3), where um = um and st = False]
  have none: "\<forall>j<32. \<not> pending ?p j" using pend by (simp add: pending_clear)
  have "sig_stopped um (replicate n 0) p False = Inl (Sleeps ''stopped'')"
  proof (cases n)
    case (Suc m)
    then show ?thesis
      using first(1) [where w = 0 and posted = "replicate m 0"] sig_stopped_idle [OF none, of um m "[]"]
        sig_stopped_idle_end [OF none, of um] by simp
  qed (use first(2) in simp)
  moreover obtain q where q: "sig_stopped um [shl1 (int SIGCONT), 0] ?p True = Inr (False, q)"
      "\<forall>j<32. \<not> pending q j" "p_tf q = p_tf p"
    using sig_stopped_cont [OF none, of um] assms(4) by auto
  have "sig_stopped um (0 # replicate n 0 @ [shl1 (int SIGCONT), 0]) p False = Inr (False, q)"
    using first(1) [where w = 0] sig_stopped_idle [OF none, of um n] q(1) by simp
  moreover have "sig_deliver [0..<32] q um = (q, um)" by (rule sig_deliver_none) (use q(2) in auto)
  moreover have "\<forall>j<32. \<not> bit (p_pending q) j" using q(2) by (simp add: pending_iff)
  ultimately show ?thesis using assms(1) q(3) by (simp add: signalsHandler_def)
qed

theorem sigstop_until_sigcont_witness:
  "signalsHandler [0, 0, 0] (sig_demo\<lparr>p_pending := 0x20000\<rparr>) (\<lambda>_. 0) = Inl (Sleeps ''stopped'')"
proof -
  have "tf_cs (p_tf (sig_demo\<lparr>p_pending := 0x20000\<rparr>)) AND 3 = 3" by (simp add: sig_demo_def)
  moreover have "\<forall>j<32. bit (p_pending (sig_demo\<lparr>p_pending := 0x20000\<rparr>)) j \<longleftrightarrow> j = SIGSTOP"
    using bit_word_2p17 by (simp add: SIGSTOP_def)
  moreover have "p_handlers (sig_demo\<lparr>p_pending := 0x20000\<rparr>) ! SIGSTOP = SIG_DFL"
      "p_handlers (sig_demo\<lparr>p_pending := 0x20000\<rparr>) ! SIGCONT = SIG_DFL"
    by (simp_all add: sig_demo_def demo_proc_def Let_def xv6_consts)
  ultimately show ?thesis
    using sigstop_until_sigcont [of "sig_demo\<lparr>p_pending := 0x20000\<rparr>" 3 "\<lambda>_. 0"]
    by (simp add: numeral_3_eq_3)
qed



text \<open>
  C35. A masked signal is not kept for later: a pending signal that is masked is taken out of the
  pending set without its handler being run.
\<close>

theorem masked_signal_discarded:
  assumes "tf_cs (p_tf p) AND 3 = 3" "i < 32" "\<forall>j<32. bit (p_pending p) j \<longleftrightarrow> j = i"
    and "i \<noteq> SIGKILL" "i \<noteq> SIGSTOP" "i \<noteq> SIGCONT" "bit (p_mask p) i"
  shows "signalsHandler posted p um = Inr (Some (clear_pending i p, um)) \<and>
    (\<forall>j<32. \<not> bit (p_pending (clear_pending i p)) j)"
proof -
  have pend: "pending p j \<longleftrightarrow> j = i" if "j < 32" for j using assms(3) that by (simp add: pending_iff)
  have m: "masked p i" using assms(2,7) by (simp add: masked_iff)
  have none: "\<not> pending (clear_pending i p) j" if "j < 32" for j
    using that assms(2) pend by (simp add: pending_clear)
  have "sig_scan um [0..<32] p False False = (p, False, False, False)"
    by (rule sig_scan_pass [OF assms(2) pend assms(4-6)]) (use m in auto)
  then have "sig_stopped um posted p False = Inr (False, p)" by (subst sig_stopped.simps) simp
  moreover have "sig_deliver [0..<32] p um = (clear_pending i p, um)"
    using assms(2) pend m none by (simp add: sig_deliver_drop)
  ultimately show ?thesis using assms(1) none by (simp add: signalsHandler_def pending_iff)
qed

theorem masked_signal_discarded_witness:
  "let p = sig_demo\<lparr>p_pending := 0x20, p_mask := 0x20\<rparr>
   in signalsHandler [] p (\<lambda>_. 0) = Inr (Some (clear_pending 5 p, \<lambda>_. 0))"
proof -
  define p where "p = sig_demo\<lparr>p_pending := 0x20, p_mask := 0x20\<rparr>"
  have "tf_cs (p_tf p) AND 3 = 3" by (simp add: p_def sig_demo_def)
  moreover have "\<forall>j<32. bit (p_pending p) j \<longleftrightarrow> j = 5"
    using bit_word_2p5 by (simp add: p_def)
  moreover have "bit (p_mask p) 5" using bit_word_2p5 [of 5] by (simp add: p_def)
  ultimately show ?thesis
    using masked_signal_discarded [of p 5 "[]" "\<lambda>_. 0"] by (simp add: p_def xv6_consts)
qed

end
