(* ===== verification/Xv6_Block.thy ===== *)
theory Xv6_Block
  imports Xv6_String
begin

text \<open>
  Byte lists: the contents of disk blocks and of the structures stored in them. \<open>slice\<close> and
  \<open>splice\<close> read and overwrite a range, \<open>enc32\<close>/\<open>dec32\<close> and \<open>enc16\<close>/\<open>dec16\<close> are the
  little-endian layout of \<open>uint\<close> and \<open>short\<close>.
\<close>

named_theorems byte_simps

section \<open>Ranges of a byte list\<close>

definition slice :: "'a list \<Rightarrow> nat \<Rightarrow> nat \<Rightarrow> 'a list" where
  "slice bs off n = take n (drop off bs)"

definition splice :: "'a list \<Rightarrow> nat \<Rightarrow> 'a list \<Rightarrow> 'a list" where
  "splice bs off xs = take off bs @ xs @ drop (off + length xs) bs"

lemma length_slice [simp]: "length (slice bs off n) = min n (length bs - off)"
  by (simp add: slice_def)

lemma length_splice [simp]:
  "off + length xs \<le> length bs \<Longrightarrow> length (splice bs off xs) = length bs"
  by (simp add: splice_def)

lemma slice_splice_same:
  "off + length xs \<le> length bs \<Longrightarrow> n = length xs \<Longrightarrow> slice (splice bs off xs) off n = xs"
  by (simp add: splice_def slice_def)

lemma nth_splice:
  "off + length xs \<le> length bs \<Longrightarrow> i < length bs \<Longrightarrow>
   splice bs off xs ! i = (if off \<le> i \<and> i < off + length xs then xs ! (i - off) else bs ! i)"
  by (auto simp: splice_def nth_append min_def)

lemma nth_slice: "i < n \<Longrightarrow> off + i < length bs \<Longrightarrow> slice bs off n ! i = bs ! (off + i)"
  by (simp add: slice_def add.commute)

lemma slice_splice_disjoint:
  assumes "off + length xs \<le> length bs" "o' + n \<le> off \<or> off + length xs \<le> o'"
  shows "slice (splice bs off xs) o' n = slice bs o' n"
proof (rule nth_equalityI)
  show "length (slice (splice bs off xs) o' n) = length (slice bs o' n)" using assms by simp
next
  fix i
  assume "i < length (slice (splice bs off xs) o' n)"
  then have "i < n" "o' + i < length bs" using assms by auto
  then show "slice (splice bs off xs) o' n ! i = slice bs o' n ! i"
    using assms by (auto simp: nth_slice nth_splice)
qed

lemma slice_splice_within:
  assumes "off + length xs \<le> length bs" "off \<le> o'" "o' + n \<le> off + length xs"
  shows "slice (splice bs off xs) o' n = slice xs (o' - off) n"
proof (rule nth_equalityI)
  show "length (slice (splice bs off xs) o' n) = length (slice xs (o' - off) n)" using assms by simp
next
  fix i
  assume "i < length (slice (splice bs off xs) o' n)"
  then have "i < n" "o' + i < length bs" using assms by auto
  then show "slice (splice bs off xs) o' n ! i = slice xs (o' - off) n ! i"
    using assms by (auto simp: nth_slice nth_splice)
qed

lemma splice_slice_id: "off + n \<le> length bs \<Longrightarrow> splice bs off (slice bs off n) = bs"
  by (rule nth_equalityI) (auto simp: nth_splice nth_slice)

lemma slice_all [simp]: "slice bs 0 (length bs) = bs"
  by (simp add: slice_def)

lemma splice_all: "length xs = length bs \<Longrightarrow> splice bs 0 xs = xs"
  by (simp add: splice_def)

section \<open>Little-endian words\<close>

definition enc32 :: "u32 \<Rightarrow> u8 list" where
  "enc32 w = [byte_of w 0, byte_of w 1, byte_of w 2, byte_of w 3]"

definition dec32 :: "u8 list \<Rightarrow> u32" where
  "dec32 bs = ucast (bs ! 0) OR push_bit 8 (ucast (bs ! 1)) OR push_bit 16 (ucast (bs ! 2))
     OR push_bit 24 (ucast (bs ! 3))"

definition enc16 :: "u16 \<Rightarrow> u8 list" where
  "enc16 w = [ucast w, ucast (drop_bit 8 w)]"

definition dec16 :: "u8 list \<Rightarrow> u16" where
  "dec16 bs = ucast (bs ! 0) OR push_bit 8 (ucast (bs ! 1))"

definition get32 :: "u8 list \<Rightarrow> nat \<Rightarrow> u32" where "get32 bs off = dec32 (slice bs off 4)"
definition put32 :: "u8 list \<Rightarrow> nat \<Rightarrow> u32 \<Rightarrow> u8 list" where "put32 bs off w = splice bs off (enc32 w)"
definition get16 :: "u8 list \<Rightarrow> nat \<Rightarrow> u16" where "get16 bs off = dec16 (slice bs off 2)"
definition put16 :: "u8 list \<Rightarrow> nat \<Rightarrow> u16 \<Rightarrow> u8 list" where "put16 bs off w = splice bs off (enc16 w)"

lemma length_enc32 [simp]: "length (enc32 w) = 4" by (simp add: enc32_def)
lemma length_enc16 [simp]: "length (enc16 w) = 2" by (simp add: enc16_def)

lemma dec32_enc32 [simp]: "dec32 (enc32 w) = w"
  using ld32_st32 [of "\<lambda>_. 0" 0 w] by (simp add: dec32_def enc32_def ld32_def st32_def)

lemma dec16_enc16 [simp]: "dec16 (enc16 w) = w"
proof (rule bit_word_eqI)
  fix n
  assume "n < LENGTH(16)"
  then show "bit (dec16 (enc16 w)) n = bit w n"
    by (cases "n < 8") (auto simp: dec16_def enc16_def bit_simps)
qed

lemma enc32_dec32:
  assumes "length bs = 4"
  shows "enc32 (dec32 bs) = bs"
proof -
  obtain a b c d where bs: "bs = [a, b, c, d]"
    using assms by (auto simp: numeral_eq_Suc length_Suc_conv)
  have "byte_of (dec32 bs) 0 = a" "byte_of (dec32 bs) 1 = b" "byte_of (dec32 bs) 2 = c"
      "byte_of (dec32 bs) 3 = d"
    by (rule bit_word_eqI; auto simp: bs dec32_def byte_of_def bit_simps dest: bit_imp_le_length)+
  then show ?thesis by (simp add: enc32_def bs)
qed

lemma enc16_dec16:
  assumes "length bs = 2"
  shows "enc16 (dec16 bs) = bs"
proof -
  obtain a b where bs: "bs = [a, b]" using assms by (auto simp: numeral_eq_Suc length_Suc_conv)
  have "ucast (dec16 bs) = a" "ucast (drop_bit 8 (dec16 bs)) = b"
    by (rule bit_word_eqI; auto simp: bs dec16_def bit_simps dest: bit_imp_le_length)+
  then show ?thesis by (simp add: enc16_def bs)
qed

lemma length_put32 [simp]: "off + 4 \<le> length bs \<Longrightarrow> length (put32 bs off w) = length bs"
  by (simp add: put32_def)

lemma length_put16 [simp]: "off + 2 \<le> length bs \<Longrightarrow> length (put16 bs off w) = length bs"
  by (simp add: put16_def)

lemma get32_put32 [simp]: "off + 4 \<le> length bs \<Longrightarrow> get32 (put32 bs off w) off = w"
  by (simp add: get32_def put32_def slice_splice_same)

lemma get16_put16 [simp]: "off + 2 \<le> length bs \<Longrightarrow> get16 (put16 bs off w) off = w"
  by (simp add: get16_def put16_def slice_splice_same)

lemma get32_put32_other:
  "off + 4 \<le> length bs \<Longrightarrow> o' + 4 \<le> off \<or> off + 4 \<le> o' \<Longrightarrow> get32 (put32 bs off w) o' = get32 bs o'"
  by (simp add: get32_def put32_def slice_splice_disjoint)

lemma get32_splice_other:
  "off + length xs \<le> length bs \<Longrightarrow> o' + 4 \<le> off \<or> off + length xs \<le> o' \<Longrightarrow>
   get32 (splice bs off xs) o' = get32 bs o'"
  by (simp add: get32_def slice_splice_disjoint)

lemma get16_splice_other:
  "off + length xs \<le> length bs \<Longrightarrow> o' + 2 \<le> off \<or> off + length xs \<le> o' \<Longrightarrow>
   get16 (splice bs off xs) o' = get16 bs o'"
  by (simp add: get16_def slice_splice_disjoint)

text \<open>Arrays of words inside a byte list.\<close>

fun put32s :: "u8 list \<Rightarrow> nat \<Rightarrow> u32 list \<Rightarrow> u8 list" where
  "put32s bs off [] = bs"
| "put32s bs off (w # ws) = put32s (put32 bs off w) (off + 4) ws"

definition get32s :: "u8 list \<Rightarrow> nat \<Rightarrow> nat \<Rightarrow> u32 list" where
  "get32s bs off n = map (\<lambda>i. get32 bs (off + 4 * i)) [0..<n]"

lemma length_put32s [simp]: "off + 4 * length ws \<le> length bs \<Longrightarrow> length (put32s bs off ws) = length bs"
  by (induction ws arbitrary: bs off) auto

lemma get32_put32s_below:
  "off + 4 * length ws \<le> length bs \<Longrightarrow> o' + 4 \<le> off \<Longrightarrow> get32 (put32s bs off ws) o' = get32 bs o'"
  by (induction ws arbitrary: bs off) (auto simp: get32_put32_other)

lemma get32_put32s_above:
  "off + 4 * length ws \<le> length bs \<Longrightarrow> off + 4 * length ws \<le> o' \<Longrightarrow> get32 (put32s bs off ws) o' = get32 bs o'"
  by (induction ws arbitrary: bs off) (auto simp: get32_put32_other)

lemma get32_put32s:
  "off + 4 * length ws \<le> length bs \<Longrightarrow> i < length ws \<Longrightarrow> get32 (put32s bs off ws) (off + 4 * i) = ws ! i"
proof (induction ws arbitrary: bs off i)
  case (Cons w ws)
  show ?case
  proof (cases i)
    case 0
    with Cons.prems show ?thesis by (simp add: get32_put32s_below)
  next
    case (Suc j)
    with Cons.prems Cons.IH [of "off + 4" "put32 bs off w" j] show ?thesis by (simp add: algebra_simps)
  qed
qed simp

lemma get32s_put32s: "off + 4 * length ws \<le> length bs \<Longrightarrow> get32s (put32s bs off ws) off (length ws) = ws"
  by (rule nth_equalityI) (auto simp: get32s_def get32_put32s)

lemma length_get32s [simp]: "length (get32s bs off n) = n"
  by (simp add: get32s_def)

section \<open>Blocks\<close>

type_synonym block = "u8 list"

definition block_ok :: "block \<Rightarrow> bool" where "block_ok b \<longleftrightarrow> length b = BSIZE"

definition zero_block :: block where "zero_block = replicate BSIZE 0"

lemma block_ok_zero [simp]: "block_ok zero_block"
  by (simp add: block_ok_def zero_block_def)

end
