(* ===== verification/Xv6_Bio.thy ===== *)
theory Xv6_Bio
  imports Xv6_Block Xv6_Spinlock
begin

text \<open>
  The buffer cache (\<open>bio.c\<close>) over the memory disk (\<open>memide.c\<close>): the buffers, the doubly linked
  LRU list through \<open>prev\<close> and \<open>next\<close>, \<open>bget\<close>, \<open>bread\<close>, \<open>bwrite\<close>, \<open>brelse\<close> and \<open>iderw\<close>.
  Buffers are the indices below \<open>NBUF\<close>; \<open>bhead\<close> is \<open>bcache.head\<close>. The spin lock of the cache
  makes each critical section atomic; the sleep locks of the buffers are explicit.
\<close>

section \<open>Definitions\<close>

record buf =
  b_valid :: bool \<comment> \<open>\<open>B_VALID\<close>\<close>
  b_dirty :: bool \<comment> \<open>\<open>B_DIRTY\<close>\<close>
  b_dev :: u32
  b_blockno :: u32
  b_lock :: sleeplock
  b_refcnt :: nat
  b_data :: block

record bio =
  bc_buf :: "nat \<Rightarrow> buf"
  bc_prev :: "nat \<Rightarrow> nat"
  bc_next :: "nat \<Rightarrow> nat"
  md_disk :: "nat \<Rightarrow> block" \<comment> \<open>\<open>memdisk\<close>, by blocks\<close>
  md_size :: nat \<comment> \<open>\<open>disksize\<close>\<close>

definition bhead :: nat where "bhead = NBUF"

definition upd_buf :: "nat \<Rightarrow> (buf \<Rightarrow> buf) \<Rightarrow> bio \<Rightarrow> bio" where
  "upd_buf i f s = s\<lparr>bc_buf := (bc_buf s)(i := f (bc_buf s i))\<rparr>"

text \<open>
  \<open>b->next = bcache.head.next; b->prev = &bcache.head; bcache.head.next->prev = b;\<close>
  \<open>bcache.head.next = b\<close>.
\<close>

definition link_head :: "nat \<Rightarrow> bio \<Rightarrow> bio" where
  "link_head b s =
     (let s = s\<lparr>bc_next := (bc_next s)(b := bc_next s bhead)\<rparr>;
          s = s\<lparr>bc_prev := (bc_prev s)(b := bhead)\<rparr>;
          s = s\<lparr>bc_prev := (bc_prev s)(bc_next s bhead := b)\<rparr>
      in s\<lparr>bc_next := (bc_next s)(bhead := b)\<rparr>)"

definition binit :: "bio \<Rightarrow> bio" where
  "binit s =
     fold (\<lambda>b s. link_head b (upd_buf b (\<lambda>x. x\<lparr>b_lock := initsleeplock\<rparr>) s)) [0..<NBUF]
       (s\<lparr>bc_prev := (bc_prev s)(bhead := bhead), bc_next := (bc_next s)(bhead := bhead)\<rparr>)"

text \<open>
  A walk along the list from \<open>b\<close> until the head: the first buffer with the property. The fuel
  is one more than the number of buffers; a list that does not come back to the head spins.
\<close>

fun list_walk :: "nat \<Rightarrow> (nat \<Rightarrow> nat) \<Rightarrow> (nat \<Rightarrow> bool) \<Rightarrow> nat \<Rightarrow> nat option result" where
  "list_walk 0 nx P b = Inl Spins"
| "list_walk (Suc k) nx P b =
     (if b = bhead then Inr None else if P b then Inr (Some b) else list_walk k nx P (nx b))"

definition bacquire :: "int \<Rightarrow> nat \<Rightarrow> bio \<Rightarrow> (nat \<times> bio) result" where
  "bacquire pid b s =
     andthen (acquiresleep pid (b_lock (bc_buf s b))) (\<lambda>lk.
       Inr (b, upd_buf b (\<lambda>x. x\<lparr>b_lock := lk\<rparr>) s))"

definition bget :: "int \<Rightarrow> u32 \<Rightarrow> u32 \<Rightarrow> bio \<Rightarrow> (nat \<times> bio) result" where
  "bget pid dev blockno s =
     andthen (list_walk (NBUF + 1) (bc_next s)
        (\<lambda>b. b_dev (bc_buf s b) = dev \<and> b_blockno (bc_buf s b) = blockno) (bc_next s bhead)) (\<lambda>r.
      case r of
        Some b \<Rightarrow> bacquire pid b (upd_buf b (\<lambda>x. x\<lparr>b_refcnt := b_refcnt x + 1\<rparr>) s)
      | None \<Rightarrow>
          andthen (list_walk (NBUF + 1) (bc_prev s)
             (\<lambda>b. b_refcnt (bc_buf s b) = 0 \<and> \<not> b_dirty (bc_buf s b)) (bc_prev s bhead)) (\<lambda>r.
           case r of
             Some b \<Rightarrow> bacquire pid b (upd_buf b
               (\<lambda>x. x\<lparr>b_dev := dev, b_blockno := blockno, b_valid := False, b_dirty := False,
                      b_refcnt := 1\<rparr>) s)
           | None \<Rightarrow> Inl (Panic ''bget: no buffers'')))"

text \<open>\<open>iderw\<close> of \<open>memide.c\<close>.\<close>

definition iderw :: "int \<Rightarrow> nat \<Rightarrow> bio \<Rightarrow> bio result" where
  "iderw pid b s =
     (let x = bc_buf s b in
      if \<not> holdingsleep pid (b_lock x) then Inl (Panic ''iderw: buf not locked'')
      else if b_valid x \<and> \<not> b_dirty x then Inl (Panic ''iderw: nothing to do'')
      else if b_dev x \<noteq> 1 then Inl (Panic ''iderw: request not for disk 1'')
      else if unat (b_blockno x) \<ge> md_size s then Inl (Panic ''iderw: block out of range'')
      else if b_dirty x
      then Inr (upd_buf b (\<lambda>x. x\<lparr>b_dirty := False, b_valid := True\<rparr>)
             (s\<lparr>md_disk := (md_disk s)(unat (b_blockno x) := b_data x)\<rparr>))
      else Inr (upd_buf b (\<lambda>x. x\<lparr>b_data := md_disk s (unat (b_blockno x)), b_valid := True\<rparr>) s))"

definition bread :: "int \<Rightarrow> u32 \<Rightarrow> u32 \<Rightarrow> bio \<Rightarrow> (nat \<times> bio) result" where
  "bread pid dev blockno s =
     andthen (bget pid dev blockno s) (\<lambda>(b, s).
       if \<not> b_valid (bc_buf s b) then andthen (iderw pid b s) (\<lambda>s. Inr (b, s)) else Inr (b, s))"

definition bwrite :: "int \<Rightarrow> nat \<Rightarrow> bio \<Rightarrow> bio result" where
  "bwrite pid b s =
     andthen (require (holdingsleep pid (b_lock (bc_buf s b))) ''bwrite'') (\<lambda>_.
       iderw pid b (upd_buf b (\<lambda>x. x\<lparr>b_dirty := True\<rparr>) s))"

text \<open>\<open>b->next->prev = b->prev; b->prev->next = b->next\<close>.\<close>

definition unlink :: "nat \<Rightarrow> bio \<Rightarrow> bio" where
  "unlink b s =
     (let s = s\<lparr>bc_prev := (bc_prev s)(bc_next s b := bc_prev s b)\<rparr>
      in s\<lparr>bc_next := (bc_next s)(bc_prev s b := bc_next s b)\<rparr>)"

definition brelse :: "int \<Rightarrow> nat \<Rightarrow> bio \<Rightarrow> bio result" where
  "brelse pid b s =
     andthen (require (holdingsleep pid (b_lock (bc_buf s b))) ''brelse'') (\<lambda>_.
       let s = upd_buf b (\<lambda>x. x\<lparr>b_lock := releasesleep (b_lock x)\<rparr>) s;
           s = upd_buf b (\<lambda>x. x\<lparr>b_refcnt := b_refcnt x - 1\<rparr>) s
       in Inr (if b_refcnt (bc_buf s b) = 0 then link_head b (unlink b s) else s))"

section \<open>The linked list\<close>

text \<open>\<open>chain nx a xs b\<close>: following \<open>nx\<close> from \<open>a\<close> visits \<open>xs\<close> and then reaches \<open>b\<close>.\<close>

fun chain :: "(nat \<Rightarrow> nat) \<Rightarrow> nat \<Rightarrow> nat list \<Rightarrow> nat \<Rightarrow> bool" where
  "chain nx a [] b \<longleftrightarrow> nx a = b"
| "chain nx a (x # xs) b \<longleftrightarrow> nx a = x \<and> chain nx x xs b"

lemma chain_append: "chain nx a (xs @ y # ys) b \<longleftrightarrow> chain nx a xs y \<and> chain nx y ys b"
  by (induction xs arbitrary: a) auto

lemma chain_upd_other: "p \<notin> set (a # xs) \<Longrightarrow> chain (nx(p := q)) a xs b \<longleftrightarrow> chain nx a xs b"
  by (induction xs arbitrary: a) auto

lemma chain_hd: "chain nx a xs b \<Longrightarrow> nx a = hd (xs @ [b])"
  by (cases xs) auto

lemma chain_upd_last:
  "chain nx a xs b \<Longrightarrow> distinct (a # xs) \<Longrightarrow> chain (nx(last (a # xs) := q)) a xs q"
proof (induction xs arbitrary: a)
  case (Cons x xs)
  define l where "l = last (x # xs)"
  have "chain (nx(l := q)) x xs q"
    unfolding l_def by (rule Cons.IH) (use Cons.prems in auto)
  moreover have "l \<noteq> a"
    unfolding l_def using Cons.prems by (metis distinct.simps(2) last_in_set list.discI)
  moreover have l: "last (a # x # xs) = l" by (simp add: l_def)
  moreover have "nx a = x" using Cons.prems by simp
  ultimately show ?case unfolding l chain.simps by (metis fun_upd_other)
qed simp

lemma chain_last: "chain nx a xs b \<Longrightarrow> nx (last (a # xs)) = b"
  by (induction xs arbitrary: a) auto

definition dll :: "(nat \<Rightarrow> nat) \<Rightarrow> (nat \<Rightarrow> nat) \<Rightarrow> nat list \<Rightarrow> bool" where
  "dll nx pv xs \<longleftrightarrow> chain nx bhead xs bhead \<and> chain pv bhead (rev xs) bhead \<and> distinct (bhead # xs)"

lemma chain_unlink:
  assumes "chain nx h (us @ b # vs) h" "distinct (h # us @ b # vs)"
  shows "chain (nx(last (h # us) := nx b)) h (us @ vs) h"
proof -
  from assms have c: "chain nx h us b" "chain nx b vs h" by (auto simp: chain_append)
  then have u: "chain (nx(last (h # us) := nx b)) h us (nx b)"
    using chain_upd_last [of nx h us b "nx b"] assms(2) by simp
  show ?thesis
  proof (cases vs)
    case Nil
    with u c(2) show ?thesis by simp
  next
    case (Cons v ws)
    with c(2) have v: "nx b = v" "chain nx v ws h" by auto
    have "last (h # us) \<in> set (h # us)" by (rule last_in_set) simp
    then have "last (h # us) \<notin> set (v # ws)" using assms(2) Cons by auto
    then have "chain (nx(last (h # us) := v)) v ws h" using v(2) chain_upd_other by blast
    with u v(1) Cons show ?thesis by (simp add: chain_append)
  qed
qed

lemma chain_unlink_neighbours:
  assumes "chain nx h (us @ b # vs) h" "chain pv h (rev (us @ b # vs)) h"
  shows "nx b = last (h # rev vs)" "pv b = last (h # us)"
proof -
  have "chain nx b vs h" "chain pv b (rev us) h" using assms by (auto simp: chain_append)
  then have "nx b = hd (vs @ [h])" "pv b = hd (rev us @ [h])" by (auto dest: chain_hd)
  then show "nx b = last (h # rev vs)" "pv b = last (h # us)"
    by (cases vs; simp add: last_rev hd_append)
      (cases us rule: rev_cases; simp add: \<open>pv b = hd (rev us @ [h])\<close>)
qed

lemma dll_unlink:
  assumes "dll nx pv (us @ b # vs)"
  shows "dll (nx(pv b := nx b)) (pv(nx b := pv b)) (us @ vs)"
proof -
  have c: "chain nx bhead (us @ b # vs) bhead" "chain pv bhead (rev vs @ b # rev us) bhead"
      "distinct (bhead # us @ b # vs)"
    using assms by (auto simp: dll_def)
  note nb = chain_unlink_neighbours [of nx bhead us b vs pv]
  have "nx b = last (bhead # rev vs)" "pv b = last (bhead # us)" using nb c by auto
  moreover have "chain (nx(last (bhead # us) := nx b)) bhead (us @ vs) bhead"
    by (rule chain_unlink [OF c(1,3)])
  moreover have "chain (pv(last (bhead # rev vs) := pv b)) bhead (rev vs @ rev us) bhead"
    by (rule chain_unlink [OF c(2)]) (use c(3) in auto)
  ultimately show ?thesis using c(3) by (auto simp: dll_def)
qed

lemma dll_link:
  assumes "dll nx pv xs" "b \<notin> set (bhead # xs)"
  shows "dll (nx(b := nx bhead, bhead := b)) (pv(b := bhead, nx bhead := b)) (b # xs)"
proof -
  have c: "chain nx bhead xs bhead" "chain pv bhead (rev xs) bhead" "distinct (bhead # xs)"
    using assms by (auto simp: dll_def)
  have h: "nx bhead = hd (xs @ [bhead])" using chain_hd [OF c(1)] .
  have l: "nx bhead = last (bhead # rev xs)" unfolding h by (cases xs) auto
  have "chain (nx(b := nx bhead, bhead := b)) b xs bhead"
  proof (cases xs)
    case (Cons x ys)
    with c assms(2) have "chain (nx(b := nx bhead, bhead := b)) x ys bhead"
      by (subst chain_upd_other; auto)+
    with Cons c(1) assms(2) show ?thesis by auto
  qed (use c(1) assms(2) in auto)
  moreover have "chain (pv(b := bhead, nx bhead := b)) bhead (rev xs) b"
    unfolding l by (rule chain_upd_last [of _ _ _ bhead]) (use c assms(2) in \<open>auto simp: chain_upd_other\<close>)
  moreover have "(pv(b := bhead, nx bhead := b)) b = bhead"
    using assms(2) h by (cases xs) auto
  ultimately show ?thesis using c(3) assms(2) by (auto simp: dll_def chain_append)
qed

lemma list_walk_chain:
  "chain nx a xs bhead \<Longrightarrow> bhead \<notin> set xs \<Longrightarrow> length xs < k \<Longrightarrow>
   list_walk k nx P (nx a) = Inr (find P xs)"
proof (induction xs arbitrary: a k)
  case Nil
  then show ?case by (cases k) auto
next
  case (Cons x xs)
  then obtain k' where "k = Suc k'" by (cases k) auto
  with Cons show ?case by auto
qed

section \<open>Invariant\<close>

definition holds_block :: "bio \<Rightarrow> nat \<Rightarrow> nat \<Rightarrow> bool" where
  "holds_block s k i \<longleftrightarrow> i < NBUF \<and> b_dev (bc_buf s i) = 1 \<and> unat (b_blockno (bc_buf s i)) = k"

text \<open>
  The list has every buffer once; no two buffers hold the same block; a buffer without a
  reference is not locked; a dirty buffer is valid; and a buffer that nobody holds and that is
  not pinned by the log agrees with the disk.
\<close>

definition bio_inv :: "bio \<Rightarrow> nat list \<Rightarrow> bool" where
  "bio_inv s xs \<longleftrightarrow>
     dll (bc_next s) (bc_prev s) xs \<and> set xs = {..<NBUF} \<and>
     (\<forall>k i j. holds_block s k i \<longrightarrow> holds_block s k j \<longrightarrow> i = j) \<and>
     (\<forall>i<NBUF. b_refcnt (bc_buf s i) = 0 \<longrightarrow> \<not> sl_locked (b_lock (bc_buf s i))) \<and>
     (\<forall>i<NBUF. b_dirty (bc_buf s i) \<longrightarrow> b_valid (bc_buf s i)) \<and>
     (\<forall>k i. holds_block s k i \<longrightarrow> \<not> sl_locked (b_lock (bc_buf s i)) \<longrightarrow> b_valid (bc_buf s i) \<longrightarrow>
        \<not> b_dirty (bc_buf s i) \<longrightarrow> b_data (bc_buf s i) = md_disk s k)"

text \<open>
  The block store that the cache presents: the contents of block \<open>k\<close> of device 1 are those of a
  valid buffer that holds it, else those on the disk.
\<close>

definition bview :: "bio \<Rightarrow> nat \<Rightarrow> block" where
  "bview s k =
     (case find (\<lambda>i. holds_block s k i \<and> b_valid (bc_buf s i)) [0..<NBUF] of
        Some i \<Rightarrow> b_data (bc_buf s i)
      | None \<Rightarrow> md_disk s k)"

lemma bview_cached:
  assumes "bio_inv s xs" "holds_block s k i" "b_valid (bc_buf s i)"
  shows "bview s k = b_data (bc_buf s i)"
proof -
  have "i \<in> set [0..<NBUF]" using assms(2) by (simp add: holds_block_def)
  then obtain j where j: "find (\<lambda>i. holds_block s k i \<and> b_valid (bc_buf s i)) [0..<NBUF] = Some j"
    using assms(2,3) by (cases "find (\<lambda>i. holds_block s k i \<and> b_valid (bc_buf s i)) [0..<NBUF]")
      (auto simp: find_None_iff)
  then have "holds_block s k j" by (auto simp: find_Some_iff)
  then have "j = i" using assms(1,2) unfolding bio_inv_def by blast
  with j show ?thesis by (simp add: bview_def)
qed

lemma bview_uncached:
  assumes "\<And>i. holds_block s k i \<Longrightarrow> \<not> b_valid (bc_buf s i)"
  shows "bview s k = md_disk s k"
proof -
  have "find (\<lambda>i. holds_block s k i \<and> b_valid (bc_buf s i)) [0..<NBUF] = None"
    using assms by (auto simp: find_None_iff)
  then show ?thesis by (simp add: bview_def)
qed

lemma bviewI:
  assumes "bio_inv s xs" "\<And>i. holds_block s k i \<Longrightarrow> b_valid (bc_buf s i) \<Longrightarrow> b_data (bc_buf s i) = d"
    and "(\<And>i. holds_block s k i \<Longrightarrow> \<not> b_valid (bc_buf s i)) \<Longrightarrow> md_disk s k = d"
  shows "bview s k = d"
proof (cases "\<exists>i. holds_block s k i \<and> b_valid (bc_buf s i)")
  case True
  with bview_cached [OF assms(1)] assms(2) show ?thesis by metis
next
  case False
  with bview_uncached [of s k] assms(3) show ?thesis by metis
qed

lemma bview_cong:
  assumes "\<And>i. b_data (bc_buf s' i) = b_data (bc_buf s i)" "\<And>i. b_valid (bc_buf s' i) = b_valid (bc_buf s i)"
    "\<And>k i. holds_block s' k i = holds_block s k i" "md_disk s' = md_disk s"
  shows "bview s' = bview s"
  by (rule ext) (simp add: bview_def assms split: option.split)

lemma upd_buf_simps [simp]:
  "bc_buf (upd_buf i f s) = (bc_buf s)(i := f (bc_buf s i))"
  "bc_next (upd_buf i f s) = bc_next s" "bc_prev (upd_buf i f s) = bc_prev s"
  "md_disk (upd_buf i f s) = md_disk s" "md_size (upd_buf i f s) = md_size s"
  by (simp_all add: upd_buf_def)

lemma link_frame [simp]:
  "bc_buf (link_head b s) = bc_buf s" "md_disk (link_head b s) = md_disk s" "md_size (link_head b s) = md_size s"
  "bc_buf (unlink b s) = bc_buf s" "md_disk (unlink b s) = md_disk s" "md_size (unlink b s) = md_size s"
  by (simp_all add: link_head_def unlink_def Let_def)

lemma holds_block_frame:
  "b_dev (f (bc_buf s i)) = b_dev (bc_buf s i) \<Longrightarrow> b_blockno (f (bc_buf s i)) = b_blockno (bc_buf s i) \<Longrightarrow>
   holds_block (upd_buf i f s) k j \<longleftrightarrow> holds_block s k j"
  by (auto simp: holds_block_def)

text \<open>A change of one buffer that keeps its place.\<close>

lemma bio_inv_upd:
  assumes inv: "bio_inv s xs"
    and id: "b_dev (f (bc_buf s i)) = b_dev (bc_buf s i)" "b_blockno (f (bc_buf s i)) = b_blockno (bc_buf s i)"
    and ref: "b_refcnt (f (bc_buf s i)) = 0 \<Longrightarrow> \<not> sl_locked (b_lock (f (bc_buf s i)))"
    and dirty: "b_dirty (f (bc_buf s i)) \<Longrightarrow> b_valid (f (bc_buf s i))"
    and clean: "\<And>k. holds_block s k i \<Longrightarrow> \<not> sl_locked (b_lock (f (bc_buf s i))) \<Longrightarrow> b_valid (f (bc_buf s i)) \<Longrightarrow>
       \<not> b_dirty (f (bc_buf s i)) \<Longrightarrow> b_data (f (bc_buf s i)) = md_disk s k"
  shows "bio_inv (upd_buf i f s) xs"
proof -
  note hb = holds_block_frame [where f = f and s = s and i = i, OF id]
  show ?thesis using inv ref dirty clean unfolding bio_inv_def hb by (simp add: fun_upd_def)
qed

lemma bio_invD:
  assumes "bio_inv s xs"
  shows "i < NBUF \<Longrightarrow> b_dirty (bc_buf s i) \<Longrightarrow> b_valid (bc_buf s i)"
    and "i < NBUF \<Longrightarrow> b_refcnt (bc_buf s i) = 0 \<Longrightarrow> \<not> sl_locked (b_lock (bc_buf s i))"
    and "holds_block s k i \<Longrightarrow> \<not> sl_locked (b_lock (bc_buf s i)) \<Longrightarrow> b_valid (bc_buf s i) \<Longrightarrow>
        \<not> b_dirty (bc_buf s i) \<Longrightarrow> b_data (bc_buf s i) = md_disk s k"
    and "holds_block s k i \<Longrightarrow> holds_block s k j \<Longrightarrow> i = j"
  using assms unfolding bio_inv_def by blast+

lemma find_dll:
  assumes "bio_inv s xs"
  shows "list_walk (NBUF + 1) (bc_next s) P (bc_next s bhead) = Inr (find P xs)"
    and "list_walk (NBUF + 1) (bc_prev s) P (bc_prev s bhead) = Inr (find P (rev xs))"
proof -
  have d: "dll (bc_next s) (bc_prev s) xs" "set xs = {..<NBUF}" using assms by (auto simp: bio_inv_def)
  then have "distinct xs" "bhead \<notin> set xs" by (auto simp: dll_def)
  moreover have "length xs = NBUF"
    using distinct_card [OF \<open>distinct xs\<close>] d(2) by simp
  ultimately show "list_walk (NBUF + 1) (bc_next s) P (bc_next s bhead) = Inr (find P xs)"
    "list_walk (NBUF + 1) (bc_prev s) P (bc_prev s bhead) = Inr (find P (rev xs))"
    using d(1) unfolding dll_def by (intro list_walk_chain; simp)+
qed

text \<open>
  When \<open>bget\<close> returns: the block's buffer is cached and free, or it is not cached and some
  buffer can be recycled.
\<close>

definition can_get :: "bio \<Rightarrow> nat \<Rightarrow> bool" where
  "can_get s k \<longleftrightarrow> (\<exists>i. holds_block s k i \<and> \<not> sl_locked (b_lock (bc_buf s i))) \<or>
     ((\<forall>i. \<not> holds_block s k i) \<and> (\<exists>i<NBUF. b_refcnt (bc_buf s i) = 0 \<and> \<not> b_dirty (bc_buf s i)))"

lemma acquiresleep_free:
  "\<not> sl_locked lk \<Longrightarrow> acquiresleep pid lk = Inr \<lparr>sl_locked = True, sl_pid = pid\<rparr>"
  by (cases lk) (simp add: acquiresleep_def)

lemma bget_ok:
  assumes inv: "bio_inv s xs" and get: "can_get s (unat blockno)"
  shows "\<exists>b s'. bget pid 1 blockno s = Inr (b, s') \<and> bio_inv s' xs \<and> holds_block s' (unat blockno) b \<and>
     b_lock (bc_buf s' b) = \<lparr>sl_locked = True, sl_pid = pid\<rparr> \<and>
     b_refcnt (bc_buf s' b) = b_refcnt (bc_buf s b) + 1 \<and> b_dirty (bc_buf s' b) = b_dirty (bc_buf s b) \<and>
     (\<forall>j. j \<noteq> b \<longrightarrow> bc_buf s' j = bc_buf s j) \<and>
     bview s' = bview s \<and> md_disk s' = md_disk s \<and> md_size s' = md_size s"
proof (cases "\<exists>i. holds_block s (unat blockno) i")
  case True
  let ?P = "\<lambda>b. b_dev (bc_buf s b) = 1 \<and> b_blockno (bc_buf s b) = blockno"
  obtain i where i: "holds_block s (unat blockno) i" "\<not> sl_locked (b_lock (bc_buf s i))"
    using True get by (auto simp: can_get_def)
  have "set xs = {..<NBUF}" using inv by (simp add: bio_inv_def)
  moreover have "?P i" "i < NBUF" using i(1) by (auto simp: holds_block_def intro: unsigned_word_eqI)
  ultimately have "find ?P xs \<noteq> None" by (auto simp: find_None_iff)
  then obtain b where b: "find ?P xs = Some b" by auto
  then have "holds_block s (unat blockno) b"
    using \<open>set xs = {..<NBUF}\<close> by (auto simp: holds_block_def find_Some_iff)
  with i(1) inv have "b = i" unfolding bio_inv_def by blast
  let ?f = "\<lambda>x. x\<lparr>b_refcnt := b_refcnt x + 1\<rparr>" and ?g = "\<lambda>x. x\<lparr>b_lock := \<lparr>sl_locked = True, sl_pid = pid\<rparr>\<rparr>"
  let ?s1 = "upd_buf i ?f s" let ?s2 = "upd_buf i ?g ?s1"
  have run: "bget pid 1 blockno s = Inr (i, ?s2)"
    using b \<open>b = i\<close> i(2) unfolding bget_def find_dll [OF inv] by (simp add: bacquire_def acquiresleep_free)
  have inv1: "bio_inv ?s1 xs"
    by (rule bio_inv_upd [OF inv]) (use bio_invD [OF inv] i in \<open>auto simp: holds_block_def\<close>)
  have inv2: "bio_inv ?s2 xs"
    by (rule bio_inv_upd [OF inv1]) (use bio_invD(1) [OF inv] i in \<open>auto simp: holds_block_def\<close>)
  have hb: "holds_block ?s2 k j = holds_block s k j" for k j by (auto simp: holds_block_def)
  have "bview ?s2 = bview s" by (rule bview_cong) (auto simp: holds_block_def)
  with run inv2 hb i(1) show ?thesis by (intro exI [of _ i] exI [of _ ?s2]) simp
next
  case False
  let ?P = "\<lambda>b. b_dev (bc_buf s b) = 1 \<and> b_blockno (bc_buf s b) = blockno"
  let ?Q = "\<lambda>b. b_refcnt (bc_buf s b) = 0 \<and> \<not> b_dirty (bc_buf s b)"
  have xs: "set xs = {..<NBUF}" using inv by (simp add: bio_inv_def)
  have none: "find ?P xs = None" using False xs by (auto simp: find_None_iff holds_block_def)
  have "\<exists>i<NBUF. ?Q i" using get False by (auto simp: can_get_def)
  then have "find ?Q (rev xs) \<noteq> None" using xs by (auto simp: find_None_iff)
  then obtain i where i: "find ?Q (rev xs) = Some i" by auto
  then have i': "i < NBUF" "?Q i" using xs nth_mem [of _ "rev xs"] by (auto simp: find_Some_iff)
  have free: "\<not> sl_locked (b_lock (bc_buf s i))" using inv i' by (auto simp: bio_inv_def)
  let ?f = "\<lambda>x. x\<lparr>b_dev := 1, b_blockno := blockno, b_valid := False, b_dirty := False, b_refcnt := 1\<rparr>"
  let ?g = "\<lambda>x. x\<lparr>b_lock := \<lparr>sl_locked = True, sl_pid = pid\<rparr>\<rparr>"
  let ?s2 = "upd_buf i ?g (upd_buf i ?f s)"
  have run: "bget pid 1 blockno s = Inr (i, ?s2)"
    using none i free unfolding bget_def find_dll [OF inv] by (simp add: bacquire_def acquiresleep_free)
  have hb: "holds_block ?s2 k j \<longleftrightarrow> (if j = i then k = unat blockno else holds_block s k j)" for k j
    using i' by (auto simp: holds_block_def)
  have inv2: "bio_inv ?s2 xs"
    using inv i' False unfolding bio_inv_def hb by (auto split: if_splits)
  have "bview ?s2 k = bview s k" for k
  proof (rule bviewI [OF inv2])
    fix j assume j: "holds_block ?s2 k j" "b_valid (bc_buf ?s2 j)"
    then have "j \<noteq> i" by auto
    with j show "b_data (bc_buf ?s2 j) = bview s k" using bview_cached [OF inv, of k j] hb [of k j] by simp
  next
    assume none: "\<And>j. holds_block ?s2 k j \<Longrightarrow> \<not> b_valid (bc_buf ?s2 j)"
    have "bview s k = md_disk s k"
    proof (rule bviewI [OF inv])
      fix j assume j: "holds_block s k j" "b_valid (bc_buf s j)"
      have "j = i" using none [of j] hb [of k j] j by (cases "j = i") auto
      with j show "b_data (bc_buf s j) = md_disk s k" using bio_invD(3) [OF inv, of k i] free i' by simp
    qed simp
    then show "md_disk ?s2 k = bview s k" by simp
  qed
  then have "bview ?s2 = bview s" by auto
  with run inv2 hb i' show ?thesis by (intro exI [of _ i] exI [of _ ?s2]) simp
qed

lemma bread_ok:
  assumes inv: "bio_inv s xs" and get: "can_get s (unat blockno)" and rng: "unat blockno < md_size s"
  shows "\<exists>b s'. bread pid 1 blockno s = Inr (b, s') \<and> bio_inv s' xs \<and> holds_block s' (unat blockno) b \<and>
     b_lock (bc_buf s' b) = \<lparr>sl_locked = True, sl_pid = pid\<rparr> \<and>
     b_refcnt (bc_buf s' b) = b_refcnt (bc_buf s b) + 1 \<and> b_dirty (bc_buf s' b) = b_dirty (bc_buf s b) \<and>
     (\<forall>j. j \<noteq> b \<longrightarrow> bc_buf s' j = bc_buf s j) \<and>
     b_valid (bc_buf s' b) \<and> b_data (bc_buf s' b) = bview s (unat blockno) \<and>
     bview s' = bview s \<and> md_disk s' = md_disk s \<and> md_size s' = md_size s"
proof -
  obtain b s1 where g: "bget pid 1 blockno s = Inr (b, s1)" "bio_inv s1 xs" "holds_block s1 (unat blockno) b"
      "b_lock (bc_buf s1 b) = \<lparr>sl_locked = True, sl_pid = pid\<rparr>" "b_refcnt (bc_buf s1 b) = b_refcnt (bc_buf s b) + 1"
      "bview s1 = bview s" "md_disk s1 = md_disk s" "md_size s1 = md_size s"
      "b_dirty (bc_buf s1 b) = b_dirty (bc_buf s b)" "\<forall>j. j \<noteq> b \<longrightarrow> bc_buf s1 j = bc_buf s j"
    using bget_ok [OF inv get, of pid] by blast
  show ?thesis
  proof (cases "b_valid (bc_buf s1 b)")
    case True
    with g bview_cached [OF g(2,3)] show ?thesis by (simp add: bread_def)
  next
    case False
    let ?f = "\<lambda>x. x\<lparr>b_data := md_disk s1 (unat (b_blockno (bc_buf s1 b))), b_valid := True\<rparr>"
    let ?s2 = "upd_buf b ?f s1"
    have b: "b < NBUF" "b_dev (bc_buf s1 b) = 1" "unat (b_blockno (bc_buf s1 b)) = unat blockno"
      using g(3) by (auto simp: holds_block_def)
    have nd: "\<not> b_dirty (bc_buf s1 b)" using g(2) b(1) False by (auto simp: bio_inv_def)
    have run: "bread pid 1 blockno s = Inr (b, ?s2)"
      using g False nd b rng by (simp add: bread_def iderw_def holdingsleep_def Let_def)
    have inv2: "bio_inv ?s2 xs"
      by (rule bio_inv_upd [OF g(2)]) (use g nd in \<open>auto simp: holds_block_def\<close>)
    have hb: "holds_block ?s2 k j = holds_block s1 k j" for k j by (auto simp: holds_block_def)
    have d: "bview s1 (unat blockno) = md_disk s1 (unat blockno)"
    proof (rule bview_uncached)
      fix i assume "holds_block s1 (unat blockno) i"
      with g(2,3) have "i = b" unfolding bio_inv_def by blast
      with False show "\<not> b_valid (bc_buf s1 i)" by simp
    qed
    have "bview ?s2 k = bview s1 k" for k
    proof (rule bviewI [OF inv2])
      fix j assume j: "holds_block ?s2 k j" "b_valid (bc_buf ?s2 j)"
      show "b_data (bc_buf ?s2 j) = bview s1 k"
      proof (cases "j = b")
        case True
        with j hb b have "k = unat blockno" by (auto simp: holds_block_def)
        with True d b show ?thesis by simp
      next
        case False
        with j show ?thesis using bview_cached [OF g(2), of k j] hb [of k j] by simp
      qed
    next
      assume none: "\<And>j. holds_block ?s2 k j \<Longrightarrow> \<not> b_valid (bc_buf ?s2 j)"
      have "bview s1 k = md_disk s1 k"
      proof (rule bviewI [OF g(2)])
        fix j assume j: "holds_block s1 k j" "b_valid (bc_buf s1 j)"
        show "b_data (bc_buf s1 j) = md_disk s1 k"
          using none [of j] hb [of k j] j False by (cases "j = b") auto
      qed simp
      then show "md_disk ?s2 k = bview s1 k" by simp
    qed
    then have v: "bview ?s2 = bview s" using g(6) by auto
    show ?thesis
      by (rule exI [of _ b], rule exI [of _ ?s2]) (use run inv2 hb g v d b in auto)
  qed
qed

text \<open>Changing the data of a locked buffer and pinning it, as every caller of \<open>log_write\<close> does.\<close>

lemma bview_write:
  assumes inv: "bio_inv s xs" and hb: "holds_block s k b" and v: "b_valid (bc_buf s b)"
    and lk: "sl_locked (b_lock (bc_buf s b))"
  shows "bio_inv (upd_buf b (\<lambda>x. x\<lparr>b_data := d, b_dirty := True\<rparr>) s) xs"
    and "bview (upd_buf b (\<lambda>x. x\<lparr>b_data := d, b_dirty := True\<rparr>) s) = (bview s)(k := d)"
proof -
  let ?f = "\<lambda>x. x\<lparr>b_data := d, b_dirty := True\<rparr>" let ?s = "upd_buf b ?f s"
  show inv2: "bio_inv ?s xs"
    by (rule bio_inv_upd [OF inv]) (use bio_invD(2) [OF inv] hb v lk in \<open>auto simp: holds_block_def\<close>)
  have h: "holds_block ?s j i = holds_block s j i" for j i by (auto simp: holds_block_def)
  have "bview ?s j = ((bview s)(k := d)) j" for j
  proof (cases "j = k")
    case True
    then show ?thesis using bview_cached [OF inv2, of k b] h hb v by simp
  next
    case False
    then have nb: "\<not> holds_block s j b" using hb by (auto simp: holds_block_def)
    have "bview ?s j = bview s j"
    proof (rule bviewI [OF inv2])
      fix i assume "holds_block ?s j i" "b_valid (bc_buf ?s i)"
      with h nb have "holds_block s j i" "b_valid (bc_buf s i)" "i \<noteq> b" by (auto split: if_splits)
      then show "b_data (bc_buf ?s i) = bview s j" using bview_cached [OF inv, of j i] by simp
    next
      assume none: "\<And>i. holds_block ?s j i \<Longrightarrow> \<not> b_valid (bc_buf ?s i)"
      have "bview s j = md_disk s j"
      proof (rule bview_uncached)
        fix i assume "holds_block s j i"
        with none [of i] h [of j i] nb show "\<not> b_valid (bc_buf s i)" by (cases "i = b") auto
      qed
      then show "md_disk ?s j = bview s j" by simp
    qed
    with False show ?thesis by simp
  qed
  then show "bview ?s = (bview s)(k := d)" by auto
qed

text \<open>
  \<open>brelse\<close> unlocks, and when the last reference goes the buffer moves to the front of the
  list.
\<close>

lemma brelse_ok:
  assumes inv: "bio_inv s xs" and b: "b < NBUF" "0 < b_refcnt (bc_buf s b)"
    and lk: "holdingsleep pid (b_lock (bc_buf s b))"
    and ok: "\<And>k. holds_block s k b \<Longrightarrow> b_valid (bc_buf s b) \<Longrightarrow> \<not> b_dirty (bc_buf s b) \<Longrightarrow>
       b_data (bc_buf s b) = md_disk s k"
  shows "\<exists>s'. brelse pid b s = Inr s' \<and>
    bio_inv s' (if b_refcnt (bc_buf s b) = 1 then b # remove1 b xs else xs) \<and>
    bview s' = bview s \<and> md_disk s' = md_disk s \<and> md_size s' = md_size s \<and>
    \<not> sl_locked (b_lock (bc_buf s' b)) \<and> b_refcnt (bc_buf s' b) = b_refcnt (bc_buf s b) - 1 \<and>
    b_dirty (bc_buf s' b) = b_dirty (bc_buf s b) \<and> (\<forall>j. j \<noteq> b \<longrightarrow> bc_buf s' j = bc_buf s j)"
proof -
  let ?f = "\<lambda>x. x\<lparr>b_lock := releasesleep (b_lock x)\<rparr>" and ?g = "\<lambda>x. x\<lparr>b_refcnt := b_refcnt x - 1\<rparr>"
  let ?s1 = "upd_buf b ?f s" let ?s2 = "upd_buf b ?g ?s1"
  have inv1: "bio_inv ?s1 xs"
    by (rule bio_inv_upd [OF inv]) (use bio_invD(1) [OF inv] b ok in \<open>auto simp: releasesleep_def\<close>)
  have inv2: "bio_inv ?s2 xs"
    by (rule bio_inv_upd [OF inv1]) (use bio_invD(1) [OF inv] b ok in \<open>auto simp: releasesleep_def holds_block_def\<close>)
  have v: "bview ?s2 = bview s" by (rule bview_cong) (auto simp: holds_block_def)
  show ?thesis
  proof (cases "b_refcnt (bc_buf s b) = 1")
    case False
    then have "brelse pid b s = Inr ?s2" using lk b by (simp add: brelse_def Let_def)
    with inv2 v False show ?thesis by (auto simp: releasesleep_def)
  next
    case True
    let ?s3 = "link_head b (unlink b ?s2)"
    have run: "brelse pid b s = Inr ?s3" using lk b True by (simp add: brelse_def Let_def)
    have same: "bc_buf ?s3 = bc_buf ?s2" "md_disk ?s3 = md_disk ?s2" "md_size ?s3 = md_size ?s2"
      by simp_all
    have d: "dll (bc_next ?s2) (bc_prev ?s2) xs" "set xs = {..<NBUF}" "distinct xs"
      using inv2 by (auto simp: bio_inv_def dll_def)
    then obtain us vs where xs: "xs = us @ b # vs" using b by (metis lessThan_iff split_list)
    let ?u = "unlink b ?s2"
    have du: "dll (bc_next ?u) (bc_prev ?u) (us @ vs)"
    proof -
      have "bc_next ?s2 b \<noteq> b"
        using d(1,3) unfolding xs by (cases vs) (auto simp: dll_def chain_append bhead_def b)
      then have e: "bc_next ?u = (bc_next ?s2)(bc_prev ?s2 b := bc_next ?s2 b)"
          "bc_prev ?u = (bc_prev ?s2)(bc_next ?s2 b := bc_prev ?s2 b)"
        by (simp_all add: unlink_def Let_def)
      show ?thesis unfolding e by (rule dll_unlink) (use d(1) xs in simp)
    qed
    have nb: "b \<notin> set (bhead # us @ vs)" using d(3) xs b by (auto simp: bhead_def)
    have "bc_next (link_head b u) = (bc_next u)(b := bc_next u bhead, bhead := b)"
        "bc_prev (link_head b u) = (bc_prev u)(b := bhead, bc_next u bhead := b)" for u
      using nb by (simp_all add: link_head_def Let_def)
    then have "dll (bc_next ?s3) (bc_prev ?s3) (b # us @ vs)" using dll_link [OF du nb] by (simp only:)
    moreover have "remove1 b xs = us @ vs" using xs d(3) by (simp add: remove1_append)
    moreover have "set (b # us @ vs) = {..<NBUF}" using d(2) xs by auto
    ultimately have "bio_inv ?s3 (b # remove1 b xs)"
      using inv2 unfolding bio_inv_def holds_block_def same by (simp only:) blast
    moreover have "bview ?s3 = bview s"
      unfolding v [symmetric] by (rule bview_cong) (simp_all add: holds_block_def)
    ultimately show ?thesis using run True by (intro exI [of _ ?s3]) (simp add: releasesleep_def)
  qed
qed

section \<open>The cache as a block store\<close>

text \<open>
  The two ways the file system uses a buffer: read it and release it, or read it, change its
  data, pin it for the log and release it.
\<close>

definition block_read :: "int \<Rightarrow> u32 \<Rightarrow> bio \<Rightarrow> (block \<times> bio) result" where
  "block_read pid k s =
     andthen (bread pid 1 k s) (\<lambda>(b, s).
       andthen (brelse pid b s) (\<lambda>s'. Inr (b_data (bc_buf s b), s')))"

definition block_update :: "int \<Rightarrow> u32 \<Rightarrow> (block \<Rightarrow> block) \<Rightarrow> bio \<Rightarrow> bio result" where
  "block_update pid k f s =
     andthen (bread pid 1 k s) (\<lambda>(b, s).
       brelse pid b (upd_buf b (\<lambda>x. x\<lparr>b_data := f (b_data x), b_dirty := True\<rparr>) s))"

text \<open>
  What a client relies on: \<open>view\<close> is the contents of the store, \<open>room\<close> how many more blocks may
  be changed before the log must commit.
\<close>

locale block_store =
  fixes ok :: "'s \<Rightarrow> bool"
    and view :: "'s \<Rightarrow> nat \<Rightarrow> block"
    and blocks :: "'s \<Rightarrow> nat"
    and room :: "'s \<Rightarrow> nat"
    and rd :: "u32 \<Rightarrow> 's \<Rightarrow> (block \<times> 's) result"
    and up :: "u32 \<Rightarrow> (block \<Rightarrow> block) \<Rightarrow> 's \<Rightarrow> 's result"
  assumes rd_ok: "ok s \<Longrightarrow> unat k < blocks s \<Longrightarrow>
      \<exists>s'. rd k s = Inr (view s (unat k), s') \<and> ok s' \<and> view s' = view s \<and> blocks s' = blocks s \<and> room s' = room s"
    and up_ok: "ok s \<Longrightarrow> unat k < blocks s \<Longrightarrow> 0 < room s \<Longrightarrow>
      \<exists>s'. up k f s = Inr s' \<and> ok s' \<and> view s' = (view s)(unat k := f (view s (unat k))) \<and>
        blocks s' = blocks s \<and> room s \<le> room s' + 1"
begin

text \<open>A transaction: updates in sequence.\<close>

primrec ups :: "(u32 \<times> (block \<Rightarrow> block)) list \<Rightarrow> 's \<Rightarrow> 's result" where
  "ups [] s = Inr s"
| "ups (u # us) s = andthen (up (fst u) (snd u) s) (ups us)"

lemma ups_ok:
  "ok s \<Longrightarrow> (\<forall>u\<in>set us. unat (fst u) < blocks s) \<Longrightarrow> length us \<le> room s \<Longrightarrow>
   \<exists>s'. ups us s = Inr s' \<and> ok s' \<and> blocks s' = blocks s \<and>
     view s' = fold (\<lambda>u v. v(unat (fst u) := snd u (v (unat (fst u))))) us (view s)"
proof (induction us arbitrary: s)
  case (Cons u us)
  then obtain s1 where s1: "up (fst u) (snd u) s = Inr s1" "ok s1"
      "view s1 = (view s)(unat (fst u) := snd u (view s (unat (fst u))))" "blocks s1 = blocks s"
      "room s \<le> room s1 + 1"
    using up_ok [of s "fst u" "snd u"] by auto
  with Cons.prems Cons.IH [of s1] show ?case by auto
qed simp

lemma rd_after_ups:
  assumes "ok s" "\<forall>u\<in>set us. unat (fst u) < blocks s" "length us \<le> room s" "unat k < blocks s"
    "\<forall>u\<in>set us. fst u \<noteq> k"
  shows "\<exists>s1 s2. ups us s = Inr s1 \<and> rd k s1 = Inr (view s (unat k), s2)"
proof -
  obtain s1 where s1: "ups us s = Inr s1" "ok s1" "blocks s1 = blocks s"
      "view s1 = fold (\<lambda>u v. v(unat (fst u) := snd u (v (unat (fst u))))) us (view s)"
    using ups_ok [OF assms(1-3)] by blast
  have "fold (\<lambda>u v. v(unat (fst u) := snd u (v (unat (fst u))))) us v (unat k) = v (unat k)" for v
    using assms(5) by (induction us arbitrary: v) (auto dest: unsigned_word_eqI)
  then show ?thesis using s1 rd_ok [of s1 k] assms(4) by auto
qed

end

definition clean_bufs :: "bio \<Rightarrow> nat set" where
  "clean_bufs s = {i \<in> {..<NBUF}. \<not> b_dirty (bc_buf s i)}"

definition bio_quiet :: "bio \<Rightarrow> bool" where
  "bio_quiet s \<longleftrightarrow> (\<exists>xs. bio_inv s xs) \<and> (\<forall>i<NBUF. b_refcnt (bc_buf s i) = 0) \<and> clean_bufs s \<noteq> {}"

definition bio_room :: "bio \<Rightarrow> nat" where
  "bio_room s = card (clean_bufs s) - 1"

lemma quiet_can_get: "bio_quiet s \<Longrightarrow> can_get s k"
proof -
  assume q: "bio_quiet s"
  then obtain xs where inv: "bio_inv s xs" by (auto simp: bio_quiet_def)
  show ?thesis
  proof (cases "\<exists>i. holds_block s k i")
    case True
    then obtain i where i: "holds_block s k i" by blast
    then have "\<not> sl_locked (b_lock (bc_buf s i))"
      using q bio_invD(2) [OF inv, of i] by (simp add: bio_quiet_def holds_block_def)
    with i show ?thesis by (auto simp: can_get_def)
  next
    case False
    with q show ?thesis by (auto simp: can_get_def bio_quiet_def clean_bufs_def)
  qed
qed

lemma finite_clean [simp]: "finite (clean_bufs s)"
  by (simp add: clean_bufs_def)

lemma block_read_ok:
  assumes q: "bio_quiet s" and k: "unat k < md_size s"
  shows "\<exists>s'. block_read pid k s = Inr (bview s (unat k), s') \<and> bio_quiet s' \<and> bview s' = bview s \<and>
    md_size s' = md_size s \<and> bio_room s' = bio_room s \<and> md_disk s' = md_disk s"
proof -
  obtain xs where inv: "bio_inv s xs" using q by (auto simp: bio_quiet_def)
  obtain b s1 where r: "bread pid 1 k s = Inr (b, s1)" "bio_inv s1 xs" "holds_block s1 (unat k) b"
      "b_lock (bc_buf s1 b) = \<lparr>sl_locked = True, sl_pid = pid\<rparr>" "b_refcnt (bc_buf s1 b) = b_refcnt (bc_buf s b) + 1"
      "b_dirty (bc_buf s1 b) = b_dirty (bc_buf s b)" "\<forall>j. j \<noteq> b \<longrightarrow> bc_buf s1 j = bc_buf s j"
      "b_valid (bc_buf s1 b)" "b_data (bc_buf s1 b) = bview s (unat k)" "bview s1 = bview s"
      "md_disk s1 = md_disk s" "md_size s1 = md_size s"
    using bread_ok [OF inv quiet_can_get [OF q] k, of pid] by blast
  have b: "b < NBUF" using r(3) by (simp add: holds_block_def)
  then have ref: "b_refcnt (bc_buf s b) = 0" "b_refcnt (bc_buf s1 b) = 1" using q r(5) by (auto simp: bio_quiet_def)
  have clean: "b_data (bc_buf s1 b) = md_disk s1 j" if "holds_block s1 j b" "\<not> b_dirty (bc_buf s1 b)" for j
  proof -
    have j: "j = unat k" using that(1) r(3) by (simp add: holds_block_def)
    have "bview s (unat k) = md_disk s (unat k)"
    proof (rule bviewI [OF inv])
      fix i assume i: "holds_block s (unat k) i" "b_valid (bc_buf s i)"
      have "i < NBUF" using i by (simp add: holds_block_def)
      then have nl: "\<not> sl_locked (b_lock (bc_buf s i))"
        using q bio_invD(2) [OF inv, of i] by (simp add: bio_quiet_def)
      have "\<not> b_dirty (bc_buf s i)"
      proof (cases "i = b")
        case False
        then have "holds_block s1 (unat k) i" using i(1) r(7) by (simp add: holds_block_def)
        then show ?thesis using r(2,3) False bio_invD(4) by blast
      qed (use that(2) r(6) in simp)
      then show "b_data (bc_buf s i) = md_disk s (unat k)" using bio_invD(3) [OF inv i(1) nl] i(2) by simp
    qed simp
    with j r(9,11) show ?thesis by simp
  qed
  obtain s2 where s2: "brelse pid b s1 = Inr s2" "bio_inv s2 (b # remove1 b xs)" "bview s2 = bview s1"
      "md_disk s2 = md_disk s1" "md_size s2 = md_size s1" "b_refcnt (bc_buf s2 b) = 0"
      "b_dirty (bc_buf s2 b) = b_dirty (bc_buf s1 b)" "\<forall>j. j \<noteq> b \<longrightarrow> bc_buf s2 j = bc_buf s1 j"
    using brelse_ok [OF r(2) b, of pid] ref r(4) clean by (auto simp: holdingsleep_def)
  have "b_refcnt (bc_buf s2 i) = 0" if "i < NBUF" for i
    using that q s2(6,8) r(7) by (cases "i = b") (auto simp: bio_quiet_def)
  moreover have "b_dirty (bc_buf s2 i) = b_dirty (bc_buf s i)" for i
    using s2(7,8) r(6,7) by (cases "i = b") auto
  then have "clean_bufs s2 = clean_bufs s" by (simp add: clean_bufs_def)
  ultimately have "bio_quiet s2" "bio_room s2 = bio_room s"
    using q s2(2) by (auto simp: bio_quiet_def bio_room_def)
  then show ?thesis using r s2 by (intro exI [of _ s2]) (simp add: block_read_def)
qed

lemma block_update_ok:
  assumes q: "bio_quiet s" and k: "unat k < md_size s" and room: "0 < bio_room s"
  shows "\<exists>s'. block_update pid k f s = Inr s' \<and> bio_quiet s' \<and>
    bview s' = (bview s)(unat k := f (bview s (unat k))) \<and>
    md_size s' = md_size s \<and> bio_room s \<le> bio_room s' + 1 \<and> md_disk s' = md_disk s"
proof -
  obtain xs where inv: "bio_inv s xs" using q by (auto simp: bio_quiet_def)
  obtain b s1 where r: "bread pid 1 k s = Inr (b, s1)" "bio_inv s1 xs" "holds_block s1 (unat k) b"
      "b_lock (bc_buf s1 b) = \<lparr>sl_locked = True, sl_pid = pid\<rparr>" "b_refcnt (bc_buf s1 b) = b_refcnt (bc_buf s b) + 1"
      "b_dirty (bc_buf s1 b) = b_dirty (bc_buf s b)" "\<forall>j. j \<noteq> b \<longrightarrow> bc_buf s1 j = bc_buf s j"
      "b_valid (bc_buf s1 b)" "b_data (bc_buf s1 b) = bview s (unat k)" "bview s1 = bview s"
      "md_disk s1 = md_disk s" "md_size s1 = md_size s"
    using bread_ok [OF inv quiet_can_get [OF q] k, of pid] by blast
  have b: "b < NBUF" using r(3) by (simp add: holds_block_def)
  then have ref: "b_refcnt (bc_buf s1 b) = 1" using q r(5) by (auto simp: bio_quiet_def)
  let ?d = "f (bview s (unat k))"
  let ?s2 = "upd_buf b (\<lambda>x. x\<lparr>b_data := f (b_data x), b_dirty := True\<rparr>) s1"
  have e: "?s2 = upd_buf b (\<lambda>x. x\<lparr>b_data := ?d, b_dirty := True\<rparr>) s1"
    using r(9) by (simp add: upd_buf_def)
  have w: "bio_inv ?s2 xs" "bview ?s2 = (bview s1)(unat k := ?d)"
    unfolding e using bview_write [OF r(2,3,8)] r(4) by auto
  obtain s3 where s3: "brelse pid b ?s2 = Inr s3" "bio_inv s3 (b # remove1 b xs)" "bview s3 = bview ?s2"
      "md_disk s3 = md_disk ?s2" "md_size s3 = md_size ?s2" "b_refcnt (bc_buf s3 b) = 0"
      "b_dirty (bc_buf s3 b) = b_dirty (bc_buf ?s2 b)" "\<forall>j. j \<noteq> b \<longrightarrow> bc_buf s3 j = bc_buf ?s2 j"
    using brelse_ok [OF w(1) b, of pid] ref r(4) by (auto simp: holdingsleep_def)
  have refs: "b_refcnt (bc_buf s3 i) = 0" if "i < NBUF" for i
    using that q s3(6,8) r(7) by (cases "i = b") (auto simp: bio_quiet_def)
  have "b_dirty (bc_buf s3 i) \<longleftrightarrow> i = b \<or> b_dirty (bc_buf s i)" for i
    using s3(7,8) r(6,7) by (cases "i = b") auto
  then have cl: "clean_bufs s3 = clean_bufs s - {b}" by (auto simp: clean_bufs_def)
  have "card (clean_bufs s) - card {b} \<le> card (clean_bufs s - {b})"
    by (rule diff_card_le_card_Diff) simp
  then have c: "card (clean_bufs s) \<le> card (clean_bufs s3) + 1" unfolding cl by simp
  then have ne: "clean_bufs s3 \<noteq> {}" using room by (auto simp: bio_room_def)
  have "bio_quiet s3" using refs s3(2) ne unfolding bio_quiet_def by blast
  moreover have "bio_room s \<le> bio_room s3 + 1" using c unfolding bio_room_def by linarith
  ultimately have "bio_quiet s3" "bio_room s \<le> bio_room s3 + 1" by simp_all
  then show ?thesis using r w s3 by (intro exI [of _ s3]) (simp add: block_update_def)
qed

interpretation bcache: block_store bio_quiet bview md_size bio_room "block_read pid" "block_update pid" for pid
  by unfold_locales (use block_read_ok block_update_ok in blast)+

section \<open>Properties\<close>

text \<open>Static storage: every buffer is zero.\<close>

definition zero_buf :: buf where
  "zero_buf = \<lparr>b_valid = False, b_dirty = False, b_dev = 0, b_blockno = 0,
     b_lock = \<lparr>sl_locked = False, sl_pid = 0\<rparr>, b_refcnt = 0, b_data = zero_block\<rparr>"

lemma link_head_dll:
  assumes "dll (bc_next s) (bc_prev s) xs" "b \<notin> set (bhead # xs)"
  shows "dll (bc_next (link_head b s)) (bc_prev (link_head b s)) (b # xs)"
proof -
  have "bc_next (link_head b s) = (bc_next s)(b := bc_next s bhead, bhead := b)"
      "bc_prev (link_head b s) = (bc_prev s)(b := bhead, bc_next s bhead := b)"
    using assms(2) by (simp_all add: link_head_def Let_def)
  then show ?thesis using dll_link [OF assms] by (simp only:)
qed

lemma binit_fold:
  fixes s n
  defines "t \<equiv> fold (\<lambda>b s. link_head b (upd_buf b (\<lambda>x. x\<lparr>b_lock := initsleeplock\<rparr>) s)) [0..<n] s"
  assumes "\<forall>i. bc_buf s i = zero_buf" "dll (bc_next s) (bc_prev s) []" "n \<le> NBUF"
  shows "dll (bc_next t) (bc_prev t) (rev [0..<n]) \<and> (\<forall>i. bc_buf t i = zero_buf) \<and>
    md_disk t = md_disk s \<and> md_size t = md_size s"
  using assms(4) unfolding t_def
proof (induction n)
  case 0
  then show ?case using assms(2,3) by simp
next
  case (Suc n)
  define t where "t = fold (\<lambda>b s. link_head b (upd_buf b (\<lambda>x. x\<lparr>b_lock := initsleeplock\<rparr>) s)) [0..<n] s"
  have ih: "dll (bc_next t) (bc_prev t) (rev [0..<n])" "\<forall>i. bc_buf t i = zero_buf"
      "md_disk t = md_disk s" "md_size t = md_size s" using Suc unfolding t_def by auto
  let ?u = "upd_buf n (\<lambda>x. x\<lparr>b_lock := initsleeplock\<rparr>) t"
  have "dll (bc_next (link_head n ?u)) (bc_prev (link_head n ?u)) (n # rev [0..<n])"
    by (rule link_head_dll) (use ih(1) Suc.prems in \<open>auto simp: bhead_def\<close>)
  moreover have "fold (\<lambda>b s. link_head b (upd_buf b (\<lambda>x. x\<lparr>b_lock := initsleeplock\<rparr>) s)) [0..<Suc n] s =
      link_head n ?u"
    by (simp add: t_def)
  ultimately show ?case using ih by (simp add: zero_buf_def initsleeplock_def)
qed

lemma binit_quiet:
  assumes "\<forall>i. bc_buf s i = zero_buf"
  shows "bio_inv (binit s) (rev [0..<NBUF])" "bio_quiet (binit s)" "bview (binit s) = md_disk s"
    "bio_room (binit s) = NBUF - 1" "md_size (binit s) = md_size s"
proof -
  have d: "dll (bc_next (binit s)) (bc_prev (binit s)) (rev [0..<NBUF])"
      "bc_buf (binit s) i = zero_buf" "md_disk (binit s) = md_disk s" "md_size (binit s) = md_size s" for i
  proof -
    let ?s = "s\<lparr>bc_prev := (bc_prev s)(bhead := bhead), bc_next := (bc_next s)(bhead := bhead)\<rparr>"
    have "dll (bc_next ?s) (bc_prev ?s) []" "\<forall>i. bc_buf ?s i = zero_buf" using assms by (simp_all add: dll_def)
    from binit_fold [OF this(2,1), of NBUF] show
      "dll (bc_next (binit s)) (bc_prev (binit s)) (rev [0..<NBUF])"
      "bc_buf (binit s) i = zero_buf" "md_disk (binit s) = md_disk s" "md_size (binit s) = md_size s"
      unfolding binit_def by simp_all
  qed
  have hb: "\<not> holds_block (binit s) k i" for k i by (simp add: holds_block_def d zero_buf_def)
  show inv: "bio_inv (binit s) (rev [0..<NBUF])"
    using d(1) hb by (auto simp: bio_inv_def d(2) zero_buf_def)
  have cl: "clean_bufs (binit s) = {..<NBUF}" by (auto simp: clean_bufs_def d zero_buf_def)
  have "0 \<in> {..<NBUF}" by (simp add: NBUF_def MAXOPBLOCKS_def)
  with cl have ne: "clean_bufs (binit s) \<noteq> {}" by blast
  from cl ne show "bio_quiet (binit s)" "bio_room (binit s) = NBUF - 1"
    using inv by (auto simp: bio_quiet_def d zero_buf_def bio_room_def)
  show "bview (binit s) = md_disk s" using bview_uncached [of "binit s"] hb d(3) by (intro ext) metis
  show "md_size (binit s) = md_size s" by (rule d(4))
qed

definition demo_bio :: bio where
  "demo_bio = \<lparr>bc_buf = (\<lambda>_. zero_buf), bc_prev = (\<lambda>_. 0), bc_next = (\<lambda>_. 0),
     md_disk = (\<lambda>k. replicate BSIZE (of_nat k)), md_size = 1000\<rparr>"

lemma demo_bio_quiet: "bio_quiet (binit demo_bio)" "md_size (binit demo_bio) = 1000"
  "bio_room (binit demo_bio) = 29" "bview (binit demo_bio) = (\<lambda>k. replicate BSIZE (of_nat k))"
  using binit_quiet [of demo_bio] by (simp_all add: demo_bio_def NBUF_def MAXOPBLOCKS_def)



text \<open>
  The pointer manipulation of \<open>brelse\<close> refines a move to the front of the LRU list: when the
  last reference to a buffer is dropped, the doubly linked list that represented \<open>xs\<close> represents
  \<open>b # remove1 b xs\<close>, and no block changes its contents.
\<close>

theorem brelse_moves_to_front:
  assumes "bio_inv s xs" "b < NBUF" "b_refcnt (bc_buf s b) = 1" "b_dirty (bc_buf s b)"
    "holdingsleep pid (b_lock (bc_buf s b))"
  shows "\<exists>s'. brelse pid b s = Inr s' \<and> dll (bc_next s') (bc_prev s') (b # remove1 b xs) \<and>
    bview s' = bview s"
  using brelse_ok [OF assms(1,2) _ assms(5)] assms(3,4) by (auto simp: bio_inv_def)

theorem brelse_moves_to_front_witness:
  "let s = upd_buf 4 (\<lambda>x. x\<lparr>b_valid := True, b_dirty := True, b_refcnt := 1,
              b_lock := \<lparr>sl_locked = True, sl_pid = 3\<rparr>\<rparr>) (binit demo_bio)
   in \<exists>s'. brelse 3 4 s = Inr s' \<and> dll (bc_next s') (bc_prev s') (4 # remove1 4 (rev [0..<NBUF]))"
proof -
  let ?f = "\<lambda>x. x\<lparr>b_valid := True, b_dirty := True, b_refcnt := 1, b_lock := \<lparr>sl_locked = True, sl_pid = 3\<rparr>\<rparr>"
  let ?s = "upd_buf 4 ?f (binit demo_bio)"
  have "bio_inv (binit demo_bio) (rev [0..<NBUF])" by (rule binit_quiet(1)) (simp add: demo_bio_def)
  then have "bio_inv ?s (rev [0..<NBUF])" by (rule bio_inv_upd) auto
  then show ?thesis
    using brelse_moves_to_front [of ?s "rev [0..<NBUF]" 4 3] by (auto simp: NBUF_def MAXOPBLOCKS_def holdingsleep_def)
qed

text \<open>
  \<open>binit\<close> on zeroed storage builds a circular doubly linked list of all the buffers, and the
  cache starts out transparent over the disk.
\<close>

theorem binit_ok:
  assumes "\<forall>i. bc_buf s i = zero_buf"
  shows "dll (bc_next (binit s)) (bc_prev (binit s)) (rev [0..<NBUF]) \<and> bio_quiet (binit s) \<and>
    bview (binit s) = md_disk s"
  using binit_quiet [OF assms] by (simp add: bio_inv_def)

theorem binit_ok_witness: "bio_quiet (binit demo_bio) \<and> bview (binit demo_bio) = md_disk demo_bio"
proof -
  have "\<forall>i. bc_buf demo_bio i = zero_buf" by (simp add: demo_bio_def)
  from binit_ok [OF this] show ?thesis by simp
qed

end
