(* ===== verification/Xv6_Log.thy ===== *)
theory Xv6_Log
  imports Xv6_Block
begin

text \<open>
  The write-ahead log (\<open>log.c\<close>) and \<open>readsb\<close> of \<open>fs.c\<close>. The state has the blocks as the buffer
  cache presents them (\<open>lg_cache\<close>), the disk itself (\<open>lg_disk\<close>) and the order of the disk writes
  (\<open>lg_trace\<close>). A write of one block is atomic; a crash can fall between any two of them and
  loses the cache.
\<close>

section \<open>Definitions\<close>

record superblock =
  sb_size :: u32
  sb_nblocks :: u32
  sb_ninodes :: u32
  sb_nlog :: u32
  sb_logstart :: u32
  sb_inodestart :: u32
  sb_bmapstart :: u32

definition sb_of_block :: "block \<Rightarrow> superblock" where
  "sb_of_block b =
     \<lparr>sb_size = get32 b 0, sb_nblocks = get32 b 4, sb_ninodes = get32 b 8, sb_nlog = get32 b 12,
      sb_logstart = get32 b 16, sb_inodestart = get32 b 20, sb_bmapstart = get32 b 24\<rparr>"

text \<open>
  \<open>struct log\<close>. The in-memory header is the list of the first \<open>lh.n\<close> entries of \<open>lh.block\<close>; the
  other entries are never read.
\<close>

record log =
  lg_start :: nat
  lg_size :: int
  lg_outstanding :: int
  lg_committing :: bool
  lg_lh :: "u32 list"
  lg_cache :: "nat \<Rightarrow> block"
  lg_disk :: "nat \<Rightarrow> block"
  lg_trace :: "(nat \<times> block) list"

text \<open>\<open>bwrite\<close> of a buffer whose data is \<open>d\<close>.\<close>

definition log_bwrite :: "nat \<Rightarrow> block \<Rightarrow> log \<Rightarrow> log" where
  "log_bwrite k d s =
     s\<lparr>lg_cache := (lg_cache s)(k := d), lg_disk := (lg_disk s)(k := d), lg_trace := lg_trace s @ [(k, d)]\<rparr>"

definition readsb :: "(nat \<Rightarrow> block) \<Rightarrow> superblock" where
  "readsb cache = sb_of_block (cache 1)"

fun install_loop :: "nat \<Rightarrow> u32 list \<Rightarrow> log \<Rightarrow> log" where
  "install_loop tail [] s = s"
| "install_loop tail (b # bs) s =
     install_loop (tail + 1) bs (log_bwrite (unat b) (lg_cache s (lg_start s + tail + 1)) s)"

definition install_trans :: "log \<Rightarrow> log" where
  "install_trans s = install_loop 0 (lg_lh s) s"

text \<open>
  The header block: \<open>n\<close>, then \<open>block[]\<close>. A header with more than \<open>LOGSIZE\<close> entries would
  overrun the array.
\<close>

definition read_head :: "log \<Rightarrow> log result" where
  "read_head s =
     (let buf = lg_cache s (lg_start s);
          n = nat (sint (get32 buf 0))
      in if n > LOGSIZE then Inl (Undefined ''log.lh.block[i]'')
         else Inr (s\<lparr>lg_lh := get32s buf 4 n\<rparr>))"

definition write_head :: "log \<Rightarrow> log" where
  "write_head s =
     (let hb = lg_cache s (lg_start s);
          hb = put32 hb 0 (of_nat (length (lg_lh s)));
          hb = put32s hb 4 (lg_lh s)
      in log_bwrite (lg_start s) hb s)"

definition recover_from_log :: "log \<Rightarrow> log result" where
  "recover_from_log s =
     andthen (read_head s) (\<lambda>s. Inr (write_head ((install_trans s)\<lparr>lg_lh := []\<rparr>)))"

definition sizeof_logheader :: nat where "sizeof_logheader = 4 + 4 * LOGSIZE"

definition initlog :: "log \<Rightarrow> log result" where
  "initlog s =
     (if sizeof_logheader \<ge> BSIZE then Inl (Panic ''initlog: too big logheader'')
      else let sb = readsb (lg_cache s)
           in recover_from_log (s\<lparr>lg_start := unat (sb_logstart sb), lg_size := sint (sb_nlog sb)\<rparr>))"

text \<open>\<open>begin_op\<close> sleeps until neither of the two conditions holds.\<close>

definition begin_op :: "log \<Rightarrow> log result" where
  "begin_op s =
     (if lg_committing s then Inl (Sleeps ''log'')
      else if int (length (lg_lh s)) + (lg_outstanding s + 1) * int MAXOPBLOCKS > int LOGSIZE
           then Inl (Sleeps ''log'')
      else Inr (s\<lparr>lg_outstanding := lg_outstanding s + 1\<rparr>))"

fun write_log_loop :: "nat \<Rightarrow> u32 list \<Rightarrow> log \<Rightarrow> log" where
  "write_log_loop tail [] s = s"
| "write_log_loop tail (b # bs) s =
     write_log_loop (tail + 1) bs (log_bwrite (lg_start s + tail + 1) (lg_cache s (unat b)) s)"

definition write_log :: "log \<Rightarrow> log" where
  "write_log s = write_log_loop 0 (lg_lh s) s"

definition commit :: "log \<Rightarrow> log" where
  "commit s =
     (if length (lg_lh s) > 0
      then let s = write_log s;
               s = write_head s;
               s = install_trans s;
               s = s\<lparr>lg_lh := []\<rparr>
           in write_head s
      else s)"

definition end_op :: "log \<Rightarrow> log result" where
  "end_op s =
     (let s = s\<lparr>lg_outstanding := lg_outstanding s - 1\<rparr>
      in if lg_committing s then Inl (Panic ''log.committing'')
         else if lg_outstanding s = 0
              then let s = s\<lparr>lg_committing := True\<rparr>;
                       s = commit s
                   in Inr (s\<lparr>lg_committing := False\<rparr>)
              else Inr s)"

text \<open>\<open>log_write\<close> of a buffer for block \<open>k\<close> whose data is now \<open>d\<close>.\<close>

definition log_write :: "u32 \<Rightarrow> block \<Rightarrow> log \<Rightarrow> log result" where
  "log_write k d s =
     (if length (lg_lh s) \<ge> LOGSIZE \<or> int (length (lg_lh s)) \<ge> lg_size s - 1
      then Inl (Panic ''too big a transaction'')
      else if lg_outstanding s < 1 then Inl (Panic ''log_write outside of trans'')
      else Inr (s\<lparr>lg_lh := (if k \<in> set (lg_lh s) then lg_lh s else lg_lh s @ [k]),
                  lg_cache := (lg_cache s)(unat k := d)\<rparr>))"

section \<open>What the disk means\<close>

text \<open>
  The logical contents of a disk with a log: a block listed in the header has the contents of
  its copy in the log, any other block its own.
\<close>

definition hdr_list :: "block \<Rightarrow> u32 list" where
  "hdr_list b = get32s b 4 (nat (sint (get32 b 0)))"

fun logged_at :: "nat \<Rightarrow> nat \<Rightarrow> u32 list \<Rightarrow> nat option" where
  "logged_at tail k [] = None"
| "logged_at tail k (b # bs) =
     (case logged_at (tail + 1) k bs of
        Some i \<Rightarrow> Some i
      | None \<Rightarrow> if unat b = k then Some tail else None)"

definition log_abs :: "nat \<Rightarrow> (nat \<Rightarrow> block) \<Rightarrow> nat \<Rightarrow> block" where
  "log_abs start d k =
     (case logged_at 0 k (hdr_list (d start)) of
        Some i \<Rightarrow> d (start + i + 1)
      | None \<Rightarrow> d k)"

text \<open>The blocks of the log on disk, header included.\<close>

definition in_log :: "log \<Rightarrow> nat \<Rightarrow> bool" where
  "in_log s k \<longleftrightarrow> lg_start s \<le> k \<and> k < lg_start s + nat (lg_size s)"

definition apply_writes :: "(nat \<times> block) list \<Rightarrow> (nat \<Rightarrow> block) \<Rightarrow> nat \<Rightarrow> block" where
  "apply_writes ws d = fold (\<lambda>w d. d(fst w := snd w)) ws d"

lemma apply_writes_simps [simp]:
  "apply_writes [] d = d"
  "apply_writes (w # ws) d = apply_writes ws (d(fst w := snd w))"
  "apply_writes (vs @ ws) d = apply_writes ws (apply_writes vs d)"
  by (simp_all add: apply_writes_def)

lemma apply_writes_other: "k \<notin> fst ` set ws \<Longrightarrow> apply_writes ws d k = d k"
  by (induction ws arbitrary: d) auto

lemma apply_writes_distinct:
  "distinct (map fst ws) \<Longrightarrow> (k, b) \<in> set ws \<Longrightarrow> apply_writes ws d k = b"
proof (induction ws arbitrary: d)
  case (Cons w ws)
  then show ?case by (cases "(k, b) = w") (auto simp: apply_writes_other rev_image_eqI)
qed simp

section \<open>The loops as lists of writes\<close>

fun copy_writes :: "nat \<Rightarrow> nat \<Rightarrow> u32 list \<Rightarrow> (nat \<Rightarrow> block) \<Rightarrow> (nat \<times> block) list" where
  "copy_writes st t [] c = []"
| "copy_writes st t (b # bs) c = (st + t + 1, c (unat b)) # copy_writes st (t + 1) bs c"

fun home_writes :: "nat \<Rightarrow> nat \<Rightarrow> u32 list \<Rightarrow> (nat \<Rightarrow> block) \<Rightarrow> (nat \<times> block) list" where
  "home_writes st t [] c = []"
| "home_writes st t (b # bs) c = (unat b, c (st + t + 1)) # home_writes st (t + 1) bs c"

definition enc_head :: "block \<Rightarrow> u32 list \<Rightarrow> block" where
  "enc_head hb bs = put32s (put32 hb 0 (of_nat (length bs))) 4 bs"

definition do_writes :: "(nat \<times> block) list \<Rightarrow> log \<Rightarrow> log" where
  "do_writes ws s = s\<lparr>lg_cache := apply_writes ws (lg_cache s), lg_disk := apply_writes ws (lg_disk s),
     lg_trace := lg_trace s @ ws\<rparr>"

lemma do_writes_simps [simp]:
  "lg_start (do_writes ws s) = lg_start s" "lg_size (do_writes ws s) = lg_size s"
  "lg_lh (do_writes ws s) = lg_lh s" "lg_cache (do_writes ws s) = apply_writes ws (lg_cache s)"
  "lg_disk (do_writes ws s) = apply_writes ws (lg_disk s)" "lg_trace (do_writes ws s) = lg_trace s @ ws"
  "do_writes vs (do_writes ws s) = do_writes (ws @ vs) s" "do_writes [] s = s"
  by (simp_all add: do_writes_def)

lemma log_bwrite_do_writes: "log_bwrite k d s = do_writes [(k, d)] s"
  by (simp add: log_bwrite_def do_writes_def)

lemma copy_writes_cong:
  "(\<And>b. b \<in> set bs \<Longrightarrow> c (unat b) = c' (unat b)) \<Longrightarrow> copy_writes st t bs c = copy_writes st t bs c'"
  by (induction bs arbitrary: t) auto

lemma home_writes_cong:
  "(\<And>i. i < length bs \<Longrightarrow> c (st + t + i + 1) = c' (st + t + i + 1)) \<Longrightarrow>
   home_writes st t bs c = home_writes st t bs c'"
proof (induction bs arbitrary: t)
  case (Cons b bs)
  have "home_writes st (t + 1) bs c = home_writes st (t + 1) bs c'"
    by (rule Cons.IH) (use Cons.prems [of "Suc _"] in \<open>simp add: add.assoc\<close>)
  with Cons.prems [of 0] show ?case by simp
qed simp

lemma write_log_loop_writes:
  assumes "\<forall>b\<in>set bs. \<not> in_log s (unat b)" "t + length bs < nat (lg_size s)"
  shows "write_log_loop t bs s = do_writes (copy_writes (lg_start s) t bs (lg_cache s)) s"
  using assms
proof (induction bs arbitrary: t s)
  case (Cons b bs)
  let ?s = "do_writes [(lg_start s + t + 1, lg_cache s (unat b))] s"
  have "copy_writes (lg_start s) (t + 1) bs (lg_cache ?s) = copy_writes (lg_start s) (t + 1) bs (lg_cache s)"
    by (rule copy_writes_cong) (use Cons.prems in \<open>auto simp: in_log_def\<close>)
  moreover have "write_log_loop (t + 1) bs ?s = do_writes (copy_writes (lg_start ?s) (t + 1) bs (lg_cache ?s)) ?s"
    by (rule Cons.IH) (use Cons.prems in \<open>auto simp: in_log_def\<close>)
  ultimately show ?case by (simp add: log_bwrite_do_writes)
qed simp

lemma install_loop_writes:
  assumes "\<forall>b\<in>set bs. \<not> in_log s (unat b)" "t + length bs < nat (lg_size s)"
  shows "install_loop t bs s = do_writes (home_writes (lg_start s) t bs (lg_cache s)) s"
  using assms
proof (induction bs arbitrary: t s)
  case (Cons b bs)
  let ?s = "do_writes [(unat b, lg_cache s (lg_start s + t + 1))] s"
  have "home_writes (lg_start s) (t + 1) bs (lg_cache ?s) = home_writes (lg_start s) (t + 1) bs (lg_cache s)"
    by (rule home_writes_cong) (use Cons.prems in \<open>auto simp: in_log_def\<close>)
  moreover have "install_loop (t + 1) bs ?s = do_writes (home_writes (lg_start ?s) (t + 1) bs (lg_cache ?s)) ?s"
    by (rule Cons.IH) (use Cons.prems in \<open>auto simp: in_log_def\<close>)
  ultimately show ?case by (simp add: log_bwrite_do_writes)
qed simp

lemma write_head_writes: "write_head s = do_writes [(lg_start s, enc_head (lg_cache s (lg_start s)) (lg_lh s))] s"
  by (simp add: write_head_def Let_def log_bwrite_do_writes enc_head_def)

lemma sint_small: "n \<le> LOGSIZE \<Longrightarrow> nat (sint (of_nat n :: u32)) = n"
proof -
  assume "n \<le> LOGSIZE"
  then have "n < 2 ^ 31" by (simp add: xv6_consts)
  then show ?thesis by (simp add: sint_uint uint_nat unat_of_nat_u32 signed_take_bit_int_eq_self)
qed

lemma hdr_enc_head:
  assumes "length hb = BSIZE" "length bs \<le> LOGSIZE"
  shows "hdr_list (enc_head hb bs) = bs" "length (enc_head hb bs) = BSIZE"
proof -
  have l: "4 + 4 * length bs \<le> length (put32 hb 0 (of_nat (length bs)))" "length (put32 hb 0 (of_nat (length bs))) = BSIZE"
    using assms by (simp_all add: xv6_consts)
  then have "get32 (enc_head hb bs) 0 = of_nat (length bs)"
    using assms unfolding enc_head_def by (subst get32_put32s_below) (simp_all add: xv6_consts)
  then have "nat (sint (get32 (enc_head hb bs) 0)) = length bs" using sint_small [OF assms(2)] by simp
  then show "hdr_list (enc_head hb bs) = bs"
    unfolding hdr_list_def using get32s_put32s [OF l(1)] by (simp add: enc_head_def)
  show "length (enc_head hb bs) = BSIZE" using l by (simp add: enc_head_def)
qed

section \<open>Crash safety\<close>

lemma logged_at_Some:
  "logged_at t k bs = Some i \<Longrightarrow> t \<le> i \<and> i < t + length bs \<and> unat (bs ! (i - t)) = k"
proof (induction bs arbitrary: t)
  case (Cons b bs)
  show ?case
  proof (cases "logged_at (t + 1) k bs")
    case None
    with Cons.prems show ?thesis by (auto split: if_splits)
  next
    case (Some j)
    with Cons.prems have "j = i" by simp
    with Some Cons.IH [of "t + 1"] have "t + 1 \<le> i" "i < t + 1 + length bs" "unat (bs ! (i - (t + 1))) = k"
      by blast+
    moreover have "(b # bs) ! (i - t) = bs ! (i - (t + 1))"
      using \<open>t + 1 \<le> i\<close> by (simp add: nth_Cons' )
    ultimately show ?thesis by auto
  qed
qed simp

lemma logged_at_None: "logged_at t k bs = None \<longleftrightarrow> k \<notin> unat ` set bs"
proof (induction bs arbitrary: t)
  case (Cons b bs)
  show ?case
  proof (cases "logged_at (t + 1) k bs")
    case None
    with Cons.IH [of "t + 1"] show ?thesis by auto
  next
    case (Some i)
    with Cons.IH [of "t + 1"] have "k \<in> unat ` set bs" by (metis option.distinct(1))
    with Some show ?thesis by simp
  qed
qed simp

lemma copy_writes_nth:
  "i < length bs \<Longrightarrow> (st + t + i + 1, c (unat (bs ! i))) \<in> set (copy_writes st t bs c)"
proof (induction bs arbitrary: t i)
  case (Cons b bs)
  show ?case
  proof (cases i)
    case (Suc j)
    with Cons.IH [of j "t + 1"] Cons.prems show ?thesis by (simp add: add.assoc)
  qed simp
qed simp

lemma copy_writes_fst: "map fst (copy_writes st t bs c) = map (\<lambda>i. st + t + i + 1) [0..<length bs]"
  by (induction bs arbitrary: t) (auto simp: upt_conv_Cons map_Suc_upt [symmetric] simp del: upt_Suc)

lemma home_writes_fst: "map fst (home_writes st t bs c) = map unat bs"
  by (induction bs arbitrary: t) auto

lemma apply_home_writes:
  "apply_writes (home_writes st t bs c) d k =
     (case logged_at t k bs of Some i \<Rightarrow> c (st + i + 1) | None \<Rightarrow> d k)"
  by (induction bs arbitrary: t d) (auto split: option.split)

text \<open>The writes of a commit, in order.\<close>

definition commit_w1 :: "log \<Rightarrow> (nat \<times> block) list" where
  "commit_w1 s = copy_writes (lg_start s) 0 (lg_lh s) (lg_cache s)"

definition commit_h1 :: "log \<Rightarrow> block" where
  "commit_h1 s = enc_head (lg_cache s (lg_start s)) (lg_lh s)"

definition commit_w2 :: "log \<Rightarrow> (nat \<times> block) list" where
  "commit_w2 s = home_writes (lg_start s) 0 (lg_lh s) (apply_writes (commit_w1 s) (lg_cache s))"

definition commit_h0 :: "log \<Rightarrow> block" where
  "commit_h0 s = enc_head (commit_h1 s) []"

definition commit_writes :: "log \<Rightarrow> (nat \<times> block) list" where
  "commit_writes s = commit_w1 s @ [(lg_start s, commit_h1 s)] @ commit_w2 s @ [(lg_start s, commit_h0 s)]"

definition can_commit :: "log \<Rightarrow> bool" where
  "can_commit s \<longleftrightarrow> lg_lh s \<noteq> [] \<and> length (lg_lh s) \<le> LOGSIZE \<and> length (lg_lh s) < nat (lg_size s) \<and>
     (\<forall>b\<in>set (lg_lh s). \<not> in_log s (unat b)) \<and>
     lg_cache s (lg_start s) = lg_disk s (lg_start s) \<and>
     length (lg_disk s (lg_start s)) = BSIZE \<and> hdr_list (lg_disk s (lg_start s)) = []"

lemma copy_writes_set:
  "k \<in> fst ` set (copy_writes st t bs c) \<longleftrightarrow> st + t < k \<and> k \<le> st + t + length bs"
proof -
  have "fst ` set (copy_writes st t bs c) = set (map (\<lambda>i. st + t + i + 1) [0..<length bs])"
    by (metis copy_writes_fst list.set_map)
  then have "k \<in> fst ` set (copy_writes st t bs c) \<longleftrightarrow> (\<exists>i<length bs. k = st + t + i + 1)" by auto
  also have "\<dots> \<longleftrightarrow> st + t < k \<and> k \<le> st + t + length bs"
    by (auto intro!: exI [of _ "k - (st + t + 1)"])
  finally show ?thesis .
qed

lemma home_writes_set: "fst ` set (home_writes st t bs c) = unat ` set bs"
  by (metis home_writes_fst list.set_map)

lemma commit_trace:
  assumes "can_commit s"
  shows "commit s = (do_writes (commit_writes s) s)\<lparr>lg_lh := []\<rparr>"
proof -
  let ?st = "lg_start s" let ?lh = "lg_lh s" let ?c = "lg_cache s"
  have h: "?lh \<noteq> []" "\<forall>b\<in>set ?lh. \<not> in_log s (unat b)" "length ?lh < nat (lg_size s)"
    using assms by (auto simp: can_commit_def)
  then have st: "in_log s ?st" by (auto simp: in_log_def)
  let ?w1 = "copy_writes ?st 0 ?lh ?c" let ?c1 = "apply_writes ?w1 ?c"
  have c1: "?c1 ?st = ?c ?st" by (rule apply_writes_other) (simp add: copy_writes_set)
  let ?h1 = "enc_head (?c ?st) ?lh" let ?c2 = "?c1(?st := ?h1)"
  have w2: "home_writes ?st 0 ?lh ?c2 = home_writes ?st 0 ?lh ?c1"
    by (rule home_writes_cong) simp
  let ?w2 = "home_writes ?st 0 ?lh ?c1"
  have "?st \<notin> fst ` set ?w2" unfolding home_writes_set using h(2) st by auto
  then have c3: "apply_writes ?w2 ?c2 ?st = ?h1" by (simp add: apply_writes_other)
  have "write_log s = do_writes ?w1 s"
    using write_log_loop_writes [of ?lh s 0] h by (simp add: write_log_def)
  then have "write_head (write_log s) = do_writes (?w1 @ [(?st, ?h1)]) s"
    by (simp add: write_head_writes c1)
  then have "install_trans (write_head (write_log s)) = do_writes (?w1 @ [(?st, ?h1)] @ ?w2) s"
    using install_loop_writes [of ?lh "do_writes (?w1 @ [(?st, ?h1)]) s" 0] h w2
    by (simp add: install_trans_def in_log_def)
  then show ?thesis
    using h(1) c3 by (simp add: commit_def Let_def write_head_writes commit_writes_def commit_w1_def
        commit_h1_def commit_w2_def commit_h0_def do_writes_def)
qed

lemma log_abs_other:
  assumes "hdr_list (d st) = []"
  shows "log_abs st d k = d k"
  using assms by (simp add: log_abs_def)

text \<open>The old and the new contents of a data block.\<close>

definition new_data :: "log \<Rightarrow> nat \<Rightarrow> block" where
  "new_data s k = (if k \<in> unat ` set (lg_lh s) then lg_cache s k else lg_disk s k)"

lemma length_writes [simp]:
  "length (copy_writes st t bs c) = length bs" "length (home_writes st t bs c) = length bs"
  by (induction bs arbitrary: t) auto

lemma apply_copy_writes:
  assumes "i < length bs"
  shows "apply_writes (copy_writes st 0 bs c) d (st + i + 1) = c (unat (bs ! i))"
proof (rule apply_writes_distinct)
  show "distinct (map fst (copy_writes st 0 bs c))" by (simp add: copy_writes_fst distinct_map inj_on_def)
  show "(st + i + 1, c (unat (bs ! i))) \<in> set (copy_writes st 0 bs c)"
    using copy_writes_nth [OF assms, of st 0 c] by simp
qed

lemma can_commitD:
  assumes "can_commit s"
  shows "in_log s (lg_start s)" "k \<in> fst ` set (commit_w1 s) \<Longrightarrow> in_log s k \<and> k \<noteq> lg_start s"
    "k \<in> fst ` set (commit_w2 s) \<longleftrightarrow> k \<in> unat ` set (lg_lh s)"
    "b \<in> set (lg_lh s) \<Longrightarrow> \<not> in_log s (unat b)"
    "i < length (lg_lh s) \<Longrightarrow> in_log s (lg_start s + i + 1)"
    "hdr_list (commit_h1 s) = lg_lh s" "hdr_list (commit_h0 s) = []" "length (commit_h0 s) = BSIZE"
  using assms hdr_enc_head [of "lg_cache s (lg_start s)" "lg_lh s"]
    hdr_enc_head [of "commit_h1 s" "[]"]
  by (auto simp: can_commit_def in_log_def commit_w1_def copy_writes_set commit_w2_def home_writes_set
      commit_h1_def commit_h0_def)

lemma abs_before_commit:
  assumes can: "can_commit s" and k: "\<not> in_log s k" and p: "set p \<subseteq> set (commit_w1 s)"
  shows "log_abs (lg_start s) (apply_writes p (lg_disk s)) k = lg_disk s k"
proof -
  have "lg_start s \<notin> fst ` set p" "k \<notin> fst ` set p"
    using p can_commitD(2) [OF can] k by blast+
  then have "apply_writes p (lg_disk s) (lg_start s) = lg_disk s (lg_start s)"
      "apply_writes p (lg_disk s) k = lg_disk s k"
    by (simp_all add: apply_writes_other)
  then show ?thesis using can by (simp add: log_abs_def can_commit_def)
qed

lemma abs_after_commit:
  assumes can: "can_commit s" and k: "\<not> in_log s k" and p: "set p \<subseteq> set (commit_w2 s)"
  shows "log_abs (lg_start s) (apply_writes (commit_w1 s @ [(lg_start s, commit_h1 s)] @ p) (lg_disk s)) k = new_data s k"
proof -
  let ?d1 = "apply_writes (commit_w1 s) (lg_disk s)" let ?st = "lg_start s"
  let ?d = "apply_writes p (?d1(?st := commit_h1 s))"
  have keys: "x \<in> fst ` set p \<Longrightarrow> x \<in> unat ` set (lg_lh s)" for x using p can_commitD(3) [OF can] by blast
  have out: "?d x = (?d1(?st := commit_h1 s)) x" if "x \<notin> unat ` set (lg_lh s)" for x
    by (rule apply_writes_other) (use keys that in blast)
  have "?st \<notin> unat ` set (lg_lh s)" using can_commitD(1,4) [OF can] by (metis imageE)
  then have hd: "hdr_list (?d ?st) = lg_lh s" using out can_commitD(6) [OF can] by simp
  show ?thesis
  proof (cases "logged_at 0 k (lg_lh s)")
    case None
    then have nk: "k \<notin> unat ` set (lg_lh s)" by (simp add: logged_at_None)
    moreover have "?d1 k = lg_disk s k"
      by (rule apply_writes_other) (use can_commitD(2) [OF can] k in blast)
    moreover have "k \<noteq> ?st" using k can_commitD(1) [OF can] by auto
    ultimately show ?thesis using None hd out [OF nk] by (simp add: log_abs_def new_data_def)
  next
    case (Some i)
    then have i: "i < length (lg_lh s)" "unat (lg_lh s ! i) = k" using logged_at_Some [OF Some] by auto
    then have "?st + i + 1 \<notin> unat ` set (lg_lh s)" using can_commitD(4,5) [OF can] by (metis imageE)
    then have "?d (?st + i + 1) = ?d1 (?st + i + 1)" using out by simp
    also have "\<dots> = lg_cache s k" using apply_copy_writes [OF i(1)] i(2) by (simp add: commit_w1_def)
    finally have "?d (?st + i + 1) = lg_cache s k" .
    moreover have "k \<in> unat ` set (lg_lh s)" using i by force
    ultimately show ?thesis using Some hd by (simp add: log_abs_def new_data_def)
  qed
qed

lemma disk_after_commit:
  assumes can: "can_commit s" and k: "\<not> in_log s k"
  shows "apply_writes (commit_writes s) (lg_disk s) k = new_data s k"
    and "apply_writes (commit_writes s) (lg_disk s) (lg_start s) = commit_h0 s"
proof -
  let ?st = "lg_start s" let ?c1 = "apply_writes (commit_w1 s) (lg_cache s)"
  have kst: "k \<noteq> ?st" using k can_commitD(1) [OF can] by auto
  have d1: "apply_writes (commit_w1 s) (lg_disk s) k = lg_disk s k"
    by (rule apply_writes_other) (use can_commitD(2) [OF can] k in blast)
  have c1: "?c1 (?st + i + 1) = lg_cache s k" if "logged_at 0 k (lg_lh s) = Some i" for i
    using logged_at_Some [OF that] apply_copy_writes [of i "lg_lh s" ?st "lg_cache s" "lg_cache s"]
    by (simp add: commit_w1_def)
  have w2: "commit_w2 s = home_writes ?st 0 (lg_lh s) ?c1" by (simp add: commit_w2_def)
  show "apply_writes (commit_writes s) (lg_disk s) k = new_data s k"
    using kst d1 c1 logged_at_None [of 0 k "lg_lh s"]
    by (cases "logged_at 0 k (lg_lh s)")
      (auto simp: commit_writes_def w2 apply_home_writes new_data_def)
  show "apply_writes (commit_writes s) (lg_disk s) ?st = commit_h0 s"
    by (simp add: commit_writes_def)
qed

text \<open>
  At every point of a commit the disk means the old contents, up to the write of the header,
  or the new contents, from then on.
\<close>

lemma commit_prefix_abs:
  assumes can: "can_commit s" and pq: "commit_writes s = p @ q" and k: "\<not> in_log s k"
  shows "log_abs (lg_start s) (apply_writes p (lg_disk s)) k =
    (if length p \<le> length (lg_lh s) then lg_disk s k else new_data s k)"
proof -
  let ?n = "length (lg_lh s)"
  have l1: "length (commit_w1 s) = ?n" "length (commit_w2 s) = ?n" by (simp_all add: commit_w1_def commit_w2_def)
  have p: "p = take (length p) (commit_writes s)" by (simp add: pq)
  consider "length p \<le> ?n" | m where "length p = ?n + 1 + m" "m \<le> ?n" | "q = []"
  proof -
    have "length p + length q = ?n + 1 + ?n + 1"
      using arg_cong [OF pq, of length] l1 by (simp add: commit_writes_def)
    then show thesis using that(1,3) that(2) [of "length p - ?n - 1"] by (cases q) force+
  qed
  then show ?thesis
  proof cases
    case 1
    then have "p = take (length p) (commit_w1 s)" using p l1 by (simp add: commit_writes_def)
    then have "set p \<subseteq> set (commit_w1 s)" by (metis set_take_subset)
    with 1 abs_before_commit [OF can k] show ?thesis by simp
  next
    case (2 m)
    then have "p = commit_w1 s @ [(lg_start s, commit_h1 s)] @ take m (commit_w2 s)"
      using p l1 by (simp add: commit_writes_def)
    with 2(1) abs_after_commit [OF can k, of "take m (commit_w2 s)"] show ?thesis
      by (simp add: set_take_subset)
  next
    case 3
    then have "p = commit_writes s" using pq by simp
    with disk_after_commit [OF can k] can_commitD(7) [OF can] l1 show ?thesis
      by (simp add: log_abs_def commit_writes_def)
  qed
qed

section \<open>Recovery\<close>

text \<open>A reboot: the disk is what it was, everything in memory is lost.\<close>

definition reboot :: "log \<Rightarrow> (nat \<Rightarrow> block) \<Rightarrow> log" where
  "reboot s d = s\<lparr>lg_cache := d, lg_disk := d, lg_trace := [], lg_lh := [], lg_outstanding := 0,
     lg_committing := False\<rparr>"

definition hdr_ok :: "log \<Rightarrow> block \<Rightarrow> bool" where
  "hdr_ok s b \<longleftrightarrow> length b = BSIZE \<and> length (hdr_list b) \<le> LOGSIZE \<and> length (hdr_list b) < nat (lg_size s) \<and>
     (\<forall>b\<in>set (hdr_list b). \<not> in_log s (unat b))"

definition recover_writes :: "log \<Rightarrow> (nat \<Rightarrow> block) \<Rightarrow> (nat \<times> block) list" where
  "recover_writes s d = home_writes (lg_start s) 0 (hdr_list (d (lg_start s))) d @
     [(lg_start s, enc_head (d (lg_start s)) [])]"

lemma reboot_simps [simp]:
  "lg_start (reboot s d) = lg_start s" "lg_size (reboot s d) = lg_size s" "lg_cache (reboot s d) = d"
  "lg_disk (reboot s d) = d" "lg_trace (reboot s d) = []" "in_log (reboot s d) = in_log s"
  by (simp_all add: reboot_def in_log_def fun_eq_iff)

lemma recover_trace:
  assumes "hdr_ok s (d (lg_start s))"
  shows "recover_from_log (reboot s d) = Inr ((do_writes (recover_writes s d) (reboot s d))\<lparr>lg_lh := []\<rparr>)"
proof -
  let ?st = "lg_start s" let ?bs = "hdr_list (d ?st)" let ?s = "(reboot s d)\<lparr>lg_lh := ?bs\<rparr>"
  have h: "length ?bs \<le> LOGSIZE" "length ?bs < nat (lg_size s)" "\<forall>b\<in>set ?bs. \<not> in_log s (unat b)"
    using assms by (auto simp: hdr_ok_def)
  have rd: "read_head (reboot s d) = Inr ?s"
    using h(1) by (simp add: read_head_def Let_def hdr_list_def)
  have inl: "in_log ?s = in_log s" by (simp add: in_log_def fun_eq_iff)
  have ins: "install_trans ?s = do_writes (home_writes ?st 0 ?bs d) ?s"
    using install_loop_writes [of ?bs ?s 0] h by (simp add: install_trans_def inl)
  have "?st \<notin> unat ` set ?bs" using h(2,3) by (auto simp: in_log_def)
  then have "apply_writes (home_writes ?st 0 ?bs d) d ?st = d ?st"
    by (intro apply_writes_other) (simp add: home_writes_set)
  then show ?thesis
    by (simp add: recover_from_log_def rd ins write_head_writes recover_writes_def do_writes_def)
qed

lemma recover_prefix:
  assumes ok: "hdr_ok s (d (lg_start s))" and pq: "recover_writes s d = p @ q"
  shows "hdr_ok s (apply_writes p d (lg_start s))"
    and "\<not> in_log s k \<Longrightarrow> log_abs (lg_start s) (apply_writes p d) k = log_abs (lg_start s) d k"
    and "q = [] \<Longrightarrow> \<not> in_log s k \<Longrightarrow> apply_writes p d k = log_abs (lg_start s) d k"
proof -
  let ?st = "lg_start s" let ?bs = "hdr_list (d ?st)" let ?w = "home_writes ?st 0 ?bs d"
  have st: "in_log s ?st" using ok by (auto simp: hdr_ok_def in_log_def)
  have stn: "?st \<notin> unat ` set ?bs" using ok st by (auto simp: hdr_ok_def)
  have h0: "hdr_list (enc_head (d ?st) []) = []" "length (enc_head (d ?st) []) = BSIZE"
    using ok hdr_enc_head [of "d ?st" "[]"] by (auto simp: hdr_ok_def)
  have full: "apply_writes (recover_writes s d) d k = log_abs ?st d k" if "\<not> in_log s k" for k
  proof -
    have "k \<noteq> ?st" using that st by auto
    then show ?thesis by (simp add: recover_writes_def apply_home_writes log_abs_def)
  qed
  show "hdr_ok s (apply_writes p d ?st)" "\<not> in_log s k \<Longrightarrow> log_abs ?st (apply_writes p d) k = log_abs ?st d k"
  proof -
    have "hdr_ok s (apply_writes p d ?st) \<and> (\<not> in_log s k \<longrightarrow> log_abs ?st (apply_writes p d) k = log_abs ?st d k)"
    proof (cases "q = []")
      case True
      then have p: "p = recover_writes s d" using pq by simp
      have "apply_writes p d ?st = enc_head (d ?st) []" by (simp add: p recover_writes_def)
      moreover have "log_abs ?st (apply_writes p d) k = apply_writes p d k"
        using h0(1) calculation by (intro log_abs_other) simp
      moreover have "0 < nat (lg_size s)" using ok by (auto simp: hdr_ok_def)
      ultimately show ?thesis using h0 full [of k] by (simp add: p hdr_ok_def)
    next
      case False
      have "length p \<le> length ?w"
        using arg_cong [OF pq, of length] False by (cases q) (simp_all add: recover_writes_def)
      then have "p = take (length p) ?w" using pq by (metis append_eq_append_conv_if append_take_drop_id recover_writes_def)
      then have sub: "fst ` set p \<subseteq> unat ` set ?bs"
        by (metis home_writes_set image_mono set_take_subset)
      then have stp: "apply_writes p d ?st = d ?st" using stn by (intro apply_writes_other) blast
      have "log_abs ?st (apply_writes p d) k = log_abs ?st d k" if k: "\<not> in_log s k"
      proof (cases "logged_at 0 k ?bs")
        case None
        then have "k \<notin> fst ` set p" using sub by (auto simp: logged_at_None)
        then show ?thesis using None stp by (simp add: log_abs_def apply_writes_other)
      next
        case (Some i)
        then have "i < length ?bs" using logged_at_Some [OF Some] by simp
        then have "in_log s (?st + i + 1)" using ok by (auto simp: hdr_ok_def in_log_def)
        then have "?st + i + 1 \<notin> fst ` set p" using sub ok by (auto simp: hdr_ok_def)
        then show ?thesis using Some stp by (simp add: log_abs_def apply_writes_other)
      qed
      with stp ok show ?thesis by simp
    qed
    then show "hdr_ok s (apply_writes p d ?st)" "\<not> in_log s k \<Longrightarrow> log_abs ?st (apply_writes p d) k = log_abs ?st d k"
      by auto
  qed
  show "q = [] \<Longrightarrow> \<not> in_log s k \<Longrightarrow> apply_writes p d k = log_abs ?st d k"
    using full pq by simp
qed

lemma recover_ok:
  assumes "hdr_ok s (d (lg_start s))"
  shows "\<exists>s'. recover_from_log (reboot s d) = Inr s' \<and> lg_trace s' = recover_writes s d \<and>
    lg_disk s' = apply_writes (recover_writes s d) d \<and>
    (\<forall>k. \<not> in_log s k \<longrightarrow> lg_disk s' k = log_abs (lg_start s) d k)"
  using recover_trace [of s d, OF assms] recover_prefix(3) [of s d "recover_writes s d" "[]", OF assms] by simp

lemma apply_writes_cases: "apply_writes ws d k = d k \<or> (k, apply_writes ws d k) \<in> set ws"
proof (induction ws rule: rev_induct)
  case (snoc w ws)
  then show ?case by (cases w) auto
qed simp

lemma commit_prefix_hdr:
  assumes can: "can_commit s" and pq: "commit_writes s = p @ q"
  shows "hdr_ok s (apply_writes p (lg_disk s) (lg_start s))"
proof -
  let ?st = "lg_start s"
  have ok: "hdr_ok s (lg_disk s ?st)" "hdr_ok s (commit_h1 s)" "hdr_ok s (commit_h0 s)"
    using can can_commitD(6-8) [OF can] hdr_enc_head(2) [of "lg_cache s ?st" "lg_lh s"]
    by (auto simp: hdr_ok_def can_commit_def commit_h1_def)
  have st: "?st \<notin> fst ` set (commit_w1 s)" "?st \<notin> fst ` set (commit_w2 s)"
    using can_commitD [OF can] by (blast, metis imageE)
  have "apply_writes p (lg_disk s) ?st = lg_disk s ?st \<or> (?st, apply_writes p (lg_disk s) ?st) \<in> set (commit_writes s)"
    using apply_writes_cases [of p "lg_disk s" ?st] pq by auto
  moreover have "(?st, b) \<in> set (commit_writes s) \<Longrightarrow> b = commit_h1 s \<or> b = commit_h0 s" for b
    using st unfolding commit_writes_def by (auto simp: image_iff)
  ultimately show ?thesis using ok by metis
qed

section \<open>Operations against their specification\<close>

text \<open>The calls a file-system operation makes; \<open>LogWrite k d\<close> changes a buffer and logs it.\<close>

datatype log_ev = BeginOp | LogWrite u32 block | EndOp

fun log_ev_step :: "log_ev \<Rightarrow> log \<Rightarrow> log result" where
  "log_ev_step BeginOp s = begin_op s"
| "log_ev_step (LogWrite k d) s = log_write k d s"
| "log_ev_step EndOp s = end_op s"

fun log_run :: "log_ev list \<Rightarrow> log \<Rightarrow> log result" where
  "log_run [] s = Inr s"
| "log_run (e # es) s = andthen (log_ev_step e s) (log_run es)"

text \<open>
  The specification: a memory view and a durable view of the data blocks. The durable view
  becomes the memory view, in one step, when the last outstanding operation ends.
\<close>

record alog =
  al_mem :: "nat \<Rightarrow> block"
  al_dur :: "nat \<Rightarrow> block"
  al_out :: int

fun alog_step :: "log_ev \<Rightarrow> alog \<Rightarrow> alog" where
  "alog_step BeginOp a = a\<lparr>al_out := al_out a + 1\<rparr>"
| "alog_step (LogWrite k d) a = a\<lparr>al_mem := (al_mem a)(unat k := d)\<rparr>"
| "alog_step EndOp a =
     (if al_out a = 1 then a\<lparr>al_out := 0, al_dur := al_mem a\<rparr> else a\<lparr>al_out := al_out a - 1\<rparr>)"

fun ev_data :: "log \<Rightarrow> log_ev \<Rightarrow> bool" where
  "ev_data s (LogWrite k d) \<longleftrightarrow> \<not> in_log s (unat k)"
| "ev_data s e \<longleftrightarrow> True"

definition log_inv :: "log \<Rightarrow> bool" where
  "log_inv s \<longleftrightarrow> length (lg_lh s) \<le> LOGSIZE \<and> length (lg_lh s) < nat (lg_size s) \<and>
     (\<forall>b\<in>set (lg_lh s). \<not> in_log s (unat b)) \<and>
     (\<forall>k. k \<notin> unat ` set (lg_lh s) \<longrightarrow> lg_cache s k = lg_disk s k) \<and>
     length (lg_disk s (lg_start s)) = BSIZE \<and> hdr_list (lg_disk s (lg_start s)) = []"

definition log_rel :: "log \<Rightarrow> alog \<Rightarrow> bool" where
  "log_rel s a \<longleftrightarrow> log_inv s \<and> al_out a = lg_outstanding s \<and>
     (\<forall>k. \<not> in_log s k \<longrightarrow> al_mem a k = lg_cache s k \<and> al_dur a k = lg_disk s k)"

lemma log_inv_can_commit: "log_inv s \<Longrightarrow> lg_lh s \<noteq> [] \<Longrightarrow> can_commit s"
proof -
  assume inv: "log_inv s" and ne: "lg_lh s \<noteq> []"
  then have "in_log s (lg_start s)" by (auto simp: log_inv_def in_log_def)
  then have "lg_start s \<notin> unat ` set (lg_lh s)" using inv by (auto simp: log_inv_def)
  then show "can_commit s" using inv ne by (simp add: log_inv_def can_commit_def)
qed

lemma new_data_cache: "log_inv s \<Longrightarrow> new_data s k = lg_cache s k"
  by (auto simp: log_inv_def new_data_def)

lemma apply_writes_agree:
  "k \<in> fst ` set ws \<or> c k = d k \<Longrightarrow> apply_writes ws c k = apply_writes ws d k"
  by (induction ws arbitrary: c d) auto

lemma commit_writes_disk:
  assumes "log_inv s" "lg_lh s \<noteq> []"
  shows "apply_writes (commit_writes s) (lg_cache s) k = apply_writes (commit_writes s) (lg_disk s) k"
proof (rule apply_writes_agree)
  have "k \<in> fst ` set (commit_w2 s) \<or> lg_cache s k = lg_disk s k"
    using can_commitD(3) [OF log_inv_can_commit [OF assms]] assms(1) by (auto simp: log_inv_def)
  then show "k \<in> fst ` set (commit_writes s) \<or> lg_cache s k = lg_disk s k"
    by (auto simp: commit_writes_def)
qed

lemma commit_ok:
  assumes inv: "log_inv s"
  shows "log_inv (commit s)" "\<not> in_log s k \<Longrightarrow> lg_disk (commit s) k = lg_cache s k"
    "\<not> in_log s k \<Longrightarrow> lg_cache (commit s) k = lg_cache s k"
    "lg_outstanding (commit s) = lg_outstanding s" "in_log (commit s) = in_log s"
    "lg_committing (commit s) = lg_committing s"
proof -
  have "log_inv (commit s) \<and> (\<not> in_log s k \<longrightarrow> lg_disk (commit s) k = lg_cache s k) \<and>
    (\<not> in_log s k \<longrightarrow> lg_cache (commit s) k = lg_cache s k) \<and>
    lg_outstanding (commit s) = lg_outstanding s \<and> in_log (commit s) = in_log s \<and>
    lg_committing (commit s) = lg_committing s"
  proof (cases "lg_lh s = []")
    case True
    then show ?thesis using inv by (simp add: commit_def log_inv_def)
  next
    case False
    have can: "can_commit s" using inv False by (rule log_inv_can_commit)
    let ?w = "commit_writes s"
    have c: "commit s = (do_writes ?w s)\<lparr>lg_lh := []\<rparr>" using commit_trace [OF can] .
    have h: "apply_writes ?w (lg_disk s) (lg_start s) = commit_h0 s" by (simp add: commit_writes_def)
    have "0 < lg_size s" using inv by (auto simp: log_inv_def)
    then have "log_inv (commit s)"
      using can_commitD(7,8) [OF can] h commit_writes_disk [OF inv False]
      by (simp add: c log_inv_def do_writes_def)
    then show ?thesis
      using disk_after_commit [OF can] new_data_cache [OF inv] commit_writes_disk [OF inv False]
      by (simp add: c do_writes_def in_log_def fun_eq_iff)
  qed
  then show "log_inv (commit s)" "\<not> in_log s k \<Longrightarrow> lg_disk (commit s) k = lg_cache s k"
    "\<not> in_log s k \<Longrightarrow> lg_cache (commit s) k = lg_cache s k"
    "lg_outstanding (commit s) = lg_outstanding s" "in_log (commit s) = in_log s"
    "lg_committing (commit s) = lg_committing s"
    by auto
qed

lemma log_step_rel:
  assumes rel: "log_rel s a" and step: "log_ev_step e s = Inr s'" and dat: "ev_data s e"
  shows "log_rel s' (alog_step e a) \<and> in_log s' = in_log s"
proof (cases e)
  case BeginOp
  then show ?thesis
    using rel step by (auto simp: begin_op_def log_rel_def log_inv_def in_log_def fun_eq_iff split: if_splits)
next
  case (LogWrite k d)
  then have "s' = s\<lparr>lg_lh := (if k \<in> set (lg_lh s) then lg_lh s else lg_lh s @ [k]),
      lg_cache := (lg_cache s)(unat k := d)\<rparr>" "length (lg_lh s) < LOGSIZE"
      "int (length (lg_lh s)) < lg_size s - 1"
    using step by (auto simp: log_write_def split: if_splits)
  moreover have "in_log s' = in_log s" using calculation(1) by (simp add: in_log_def fun_eq_iff)
  moreover have "lg_start s \<noteq> unat k"
    using dat LogWrite calculation(3) by (auto simp: in_log_def)
  ultimately show ?thesis
    using rel dat LogWrite by (auto simp: log_rel_def log_inv_def)
next
  case EndOp
  let ?s = "s\<lparr>lg_outstanding := lg_outstanding s - 1\<rparr>"
  let ?c = "?s\<lparr>lg_committing := True\<rparr>"
  have inv: "log_inv ?s" "log_inv ?c" using rel by (simp_all add: log_rel_def log_inv_def in_log_def)
  have inl: "in_log ?s = in_log s" "in_log ?c = in_log s" by (simp_all add: in_log_def fun_eq_iff)
  show ?thesis
  proof (cases "lg_outstanding s = 1")
    case True
    then have s': "s' = (commit ?c)\<lparr>lg_committing := False\<rparr>"
      using EndOp step by (auto simp: end_op_def Let_def split: if_splits)
    have "log_inv s'" "in_log s' = in_log s"
      using commit_ok(1,5) [OF inv(2)] inl by (auto simp: s' log_inv_def in_log_def fun_eq_iff)
    moreover have "lg_outstanding s' = 0" using commit_ok(4) [OF inv(2)] True by (simp add: s')
    moreover have "lg_disk s' k = lg_cache s k" "lg_cache s' k = lg_cache s k" if "\<not> in_log s k" for k
      using commit_ok(2,3) [OF inv(2), of k] that inl by (simp_all add: s')
    ultimately show ?thesis using rel EndOp True by (auto simp: log_rel_def)
  next
    case False
    then have "s' = ?s" using EndOp step by (auto simp: end_op_def Let_def split: if_splits)
    then show ?thesis using rel EndOp False inv inl by (auto simp: log_rel_def)
  qed
qed

lemma ev_data_cong: "in_log s' = in_log s \<Longrightarrow> ev_data s' = ev_data s"
proof
  fix e assume "in_log s' = in_log s"
  then show "ev_data s' e = ev_data s e" by (cases e) simp_all
qed

lemma log_run_rel:
  "log_rel s a \<Longrightarrow> log_run es s = Inr s' \<Longrightarrow> list_all (ev_data s) es \<Longrightarrow>
    log_rel s' (fold alog_step es a) \<and> in_log s' = in_log s"
proof (induction es arbitrary: s a)
  case (Cons e es)
  then obtain s1 where s1: "log_ev_step e s = Inr s1" "log_run es s1 = Inr s'"
    by (auto simp: andthen_def split: sum.splits)
  have "ev_data s e" "list_all (ev_data s) es" using Cons.prems(3) by simp_all
  moreover from this have r: "log_rel s1 (alog_step e a)" "in_log s1 = in_log s"
    using log_step_rel [OF Cons.prems(1) s1(1)] by blast+
  ultimately have "list_all (ev_data s1) es" by (simp only: ev_data_cong [OF r(2)])
  from Cons.IH [OF r(1) s1(2) this] r(2) show ?case by simp
qed simp

section \<open>The space reserved by \<open>begin_op\<close>\<close>

text \<open>
  Each operation may log \<open>MAXOPBLOCKS\<close> blocks. \<open>rs\<close> is what the operations that are outstanding
  may still log; an event belongs to the operation at an index of \<open>rs\<close>.
\<close>

fun budget :: "log_ev \<times> nat \<Rightarrow> nat list \<Rightarrow> nat list option" where
  "budget (BeginOp, i) rs = Some (rs @ [MAXOPBLOCKS])"
| "budget (LogWrite k d, i) rs = (if i < length rs \<and> 0 < rs ! i then Some (rs[i := rs ! i - 1]) else None)"
| "budget (EndOp, i) rs = (if i < length rs then Some (take i rs @ drop (Suc i) rs) else None)"

fun budget_run :: "(log_ev \<times> nat) list \<Rightarrow> nat list \<Rightarrow> bool" where
  "budget_run [] rs \<longleftrightarrow> True"
| "budget_run (e # es) rs \<longleftrightarrow> (case budget e rs of None \<Rightarrow> False | Some rs \<Rightarrow> budget_run es rs)"

definition reserved :: "log \<Rightarrow> nat list \<Rightarrow> bool" where
  "reserved s rs \<longleftrightarrow> \<not> lg_committing s \<and> lg_outstanding s = int (length rs) \<and>
     (\<forall>r\<in>set rs. r \<le> MAXOPBLOCKS) \<and> length (lg_lh s) + sum_list rs \<le> LOGSIZE \<and> int LOGSIZE < lg_size s"

lemma sum_list_take_drop:
  "i < length rs \<Longrightarrow> sum_list (take i rs @ drop (Suc i) rs) + rs ! i = sum_list (rs :: nat list)"
proof -
  assume i: "i < length rs"
  then have "sum_list rs = sum_list (take i rs @ rs ! i # drop (Suc i) rs)" by (simp add: id_take_nth_drop [symmetric])
  then show ?thesis by simp
qed

lemma sum_list_bound: "\<forall>r\<in>set rs. r \<le> m \<Longrightarrow> sum_list rs \<le> length rs * (m :: nat)"
  by (induction rs) auto

lemma loop_fields [simp]:
  "lg_outstanding (write_log_loop t bs s) = lg_outstanding s" "lg_lh (write_log_loop t bs s) = lg_lh s"
  "lg_committing (write_log_loop t bs s) = lg_committing s" "lg_size (write_log_loop t bs s) = lg_size s"
  "lg_outstanding (install_loop t bs s) = lg_outstanding s" "lg_lh (install_loop t bs s) = lg_lh s"
  "lg_committing (install_loop t bs s) = lg_committing s" "lg_size (install_loop t bs s) = lg_size s"
  by (induction bs arbitrary: t s) (auto simp: log_bwrite_def)

lemma commit_fields:
  "lg_outstanding (commit s) = lg_outstanding s" "lg_lh (commit s) = []"
  "lg_committing (commit s) = lg_committing s" "lg_size (commit s) = lg_size s"
  by (auto simp: commit_def Let_def write_head_def install_trans_def write_log_def log_bwrite_def)

lemma reserved_step:
  assumes res: "reserved s rs" and b: "budget (e, i) rs = Some rs'"
  shows "(\<exists>s'. log_ev_step e s = Inr s' \<and> reserved s' rs') \<or> log_ev_step e s = Inl (Sleeps ''log'')"
proof (cases e)
  case BeginOp
  have "sum_list rs \<le> length rs * MAXOPBLOCKS" using res by (intro sum_list_bound) (simp add: reserved_def)
  then show ?thesis using res b BeginOp by (auto simp: begin_op_def reserved_def LOGSIZE_def MAXOPBLOCKS_def)
next
  case (LogWrite k d)
  then have i: "i < length rs" "0 < rs ! i" "rs' = rs[i := rs ! i - 1]" using b by (auto split: if_splits)
  then have "sum_list rs' + 1 = sum_list rs"
    using sum_list_update [of i rs "rs ! i - 1"] elem_le_sum_list [of i rs] by simp
  moreover have "\<forall>r\<in>set rs'. r \<le> MAXOPBLOCKS"
  proof
    fix r assume "r \<in> set rs'"
    then have "r \<in> insert (rs ! i - 1) (set rs)" using i(3) set_update_subset_insert [of rs i "rs ! i - 1"] by blast
    moreover have "rs ! i \<le> MAXOPBLOCKS" using res i(1) by (simp add: reserved_def)
    ultimately show "r \<le> MAXOPBLOCKS" using res by (auto simp: reserved_def)
  qed
  moreover have "1 \<le> int (length rs)" using i(1) by linarith
  ultimately show ?thesis using res i LogWrite by (auto simp: log_write_def reserved_def)
next
  case EndOp
  then have i: "i < length rs" "rs' = take i rs @ drop (Suc i) rs" using b by (auto split: if_splits)
  have l: "int (length rs') = int (length rs) - 1" using i by simp
  have s: "sum_list rs' \<le> sum_list rs" unfolding i(2) using sum_list_take_drop [OF i(1)] by linarith
  have m: "\<forall>r\<in>set rs'. r \<le> MAXOPBLOCKS"
    using res i(2) by (auto simp: reserved_def dest: in_set_takeD in_set_dropD)
  show ?thesis
  proof (cases "lg_outstanding s = 1")
    case True
    then show ?thesis using res EndOp l s m by (auto simp: end_op_def Let_def reserved_def commit_fields)
  next
    case False
    then show ?thesis using res EndOp l s m by (auto simp: end_op_def Let_def reserved_def)
  qed
qed

lemma reserved_run:
  "reserved s rs \<Longrightarrow> budget_run es rs \<Longrightarrow>
    (\<exists>s'. log_run (map fst es) s = Inr s') \<or> log_run (map fst es) s = Inl (Sleeps ''log'')"
proof (induction es arbitrary: s rs)
  case (Cons e es)
  obtain ev i where e: "e = (ev, i)" by (cases e)
  obtain rs' where rs': "budget (ev, i) rs = Some rs'" "budget_run es rs'"
    using Cons.prems(2) by (auto simp: e split: option.splits)
  from reserved_step [OF Cons.prems(1) rs'(1)] show ?case
  proof (elim disjE exE conjE)
    fix s1 assume "log_ev_step ev s = Inr s1" "reserved s1 rs'"
    then show ?thesis using Cons.IH [OF _ rs'(2), of s1] by (simp add: e)
  qed (simp add: e)
qed simp

section \<open>Claims\<close>

definition demo_log :: log where
  "demo_log = \<lparr>lg_start = 2, lg_size = 31, lg_outstanding = 0, lg_committing = False, lg_lh = [],
     lg_cache = (\<lambda>_. zero_block), lg_disk = (\<lambda>_. zero_block), lg_trace = []\<rparr>"

definition demo_txn :: log where
  "demo_txn = demo_log\<lparr>lg_lh := [40, 41], lg_cache := (\<lambda>_. zero_block)(40 := replicate BSIZE 7, 41 := replicate BSIZE 8)\<rparr>"

lemma demo_hdr: "hdr_list zero_block = []" "length zero_block = BSIZE"
  by code_simp+

lemma demo_log_inv: "log_inv demo_log" "can_commit demo_txn"
  by (simp_all add: log_inv_def can_commit_def demo_log_def demo_txn_def demo_hdr LOGSIZE_def MAXOPBLOCKS_def in_log_def)

text \<open>
  C5. A commit is atomic under crashes: cut the disk writes of a commit at any point, reboot and
  recover. Recovery succeeds, and every data block has its old contents when the cut is at or
  before the write of the header, and its new contents when it is after.
\<close>

theorem commit_crash_safe:
  assumes "can_commit s" and "lg_trace (commit s) = lg_trace s @ P @ Q"
  shows "\<exists>s'. recover_from_log (reboot s (apply_writes P (lg_disk s))) = Inr s' \<and>
    (\<forall>k. \<not> in_log s k \<longrightarrow> lg_disk s' k = (if length P \<le> length (lg_lh s) then lg_disk s k else new_data s k))"
proof -
  have pq: "commit_writes s = P @ Q"
    using assms(2) commit_trace [OF assms(1)] by (simp add: do_writes_def)
  have "hdr_ok s (apply_writes P (lg_disk s) (lg_start s))" by (rule commit_prefix_hdr [OF assms(1) pq])
  from recover_ok [of s "apply_writes P (lg_disk s)", OF this] obtain s' where s': "recover_from_log (reboot s (apply_writes P (lg_disk s))) = Inr s'"
    "\<And>k. \<not> in_log s k \<Longrightarrow> lg_disk s' k = log_abs (lg_start s) (apply_writes P (lg_disk s)) k"
    by blast
  have "lg_disk s' k = (if length P \<le> length (lg_lh s) then lg_disk s k else new_data s k)" if "\<not> in_log s k" for k
    using s'(2) [OF that] commit_prefix_abs [OF assms(1) pq that] by simp
  with s'(1) show ?thesis by blast
qed

text \<open>A crash in the middle of installing the blocks of \<open>demo_txn\<close>: the new data survives.\<close>

lemma commit_crash_safe_witness:
  "\<exists>s'. recover_from_log (reboot demo_txn (apply_writes (take 4 (commit_writes demo_txn)) (lg_disk demo_txn))) = Inr s' \<and>
    lg_disk s' 40 = replicate BSIZE 7 \<and> lg_disk s' 41 = replicate BSIZE 8 \<and> lg_disk s' 50 = zero_block"
proof -
  let ?P = "take 4 (commit_writes demo_txn)" let ?Q = "drop 4 (commit_writes demo_txn)"
  have "lg_trace (commit demo_txn) = lg_trace demo_txn @ ?P @ ?Q"
    using commit_trace [OF demo_log_inv(2)] by (simp add: do_writes_def)
  from commit_crash_safe [OF demo_log_inv(2) this] obtain s' where
    s': "recover_from_log (reboot demo_txn (apply_writes ?P (lg_disk demo_txn))) = Inr s'"
      "\<And>k. \<not> in_log demo_txn k \<Longrightarrow> lg_disk s' k =
        (if length ?P \<le> length (lg_lh demo_txn) then lg_disk demo_txn k else new_data demo_txn k)"
    by blast
  have "length ?P = 4" "length (lg_lh demo_txn) = 2"
    by (simp_all add: commit_writes_def commit_w1_def commit_w2_def demo_txn_def)
  moreover have "\<not> in_log demo_txn 40" "\<not> in_log demo_txn 41" "\<not> in_log demo_txn 50"
    by (simp_all add: in_log_def demo_txn_def demo_log_def)
  moreover have "new_data demo_txn 40 = replicate BSIZE 7" "new_data demo_txn 41 = replicate BSIZE 8"
      "new_data demo_txn 50 = zero_block"
    by (simp_all add: new_data_def demo_txn_def demo_log_def)
  ultimately show ?thesis using s' by simp
qed

text \<open>
  C16. Recovery is idempotent: a crash after any of the disk writes of a recovery, followed by
  another recovery, leaves the same data blocks as the first recovery running to its end.
\<close>

theorem recovery_idempotent:
  assumes "hdr_ok s (d (lg_start s))" and "recover_from_log (reboot s d) = Inr r" and "lg_trace r = P @ Q"
  shows "\<exists>r'. recover_from_log (reboot s (apply_writes P d)) = Inr r' \<and>
    (\<forall>k. \<not> in_log s k \<longrightarrow> lg_disk r' k = lg_disk r k)"
proof -
  have r: "recover_writes s d = P @ Q" "\<And>k. \<not> in_log s k \<Longrightarrow> lg_disk r k = log_abs (lg_start s) d k"
    using recover_ok [of s d, OF assms(1)] assms(2,3) by auto
  have ok: "hdr_ok s (apply_writes P d (lg_start s))" by (rule recover_prefix(1) [of s d, OF assms(1) r(1)])
  from recover_ok [of s "apply_writes P d", OF ok] obtain r' where
    "recover_from_log (reboot s (apply_writes P d)) = Inr r'"
    "\<And>k. \<not> in_log s k \<Longrightarrow> lg_disk r' k = log_abs (lg_start s) (apply_writes P d) k"
    by blast
  then show ?thesis using recover_prefix(2) [of s d, OF assms(1) r(1)] r(2) by auto
qed

lemma recovery_idempotent_witness:
  "\<exists>r'. recover_from_log (reboot demo_log (apply_writes
     (take 1 (recover_writes demo_log ((\<lambda>_. zero_block)(2 := enc_head zero_block [40, 41], 3 := replicate BSIZE 7))))
     ((\<lambda>_. zero_block)(2 := enc_head zero_block [40, 41], 3 := replicate BSIZE 7)))) = Inr r' \<and>
   lg_disk r' 40 = replicate BSIZE 7"
proof -
  let ?d = "(\<lambda>_. zero_block)(2 := enc_head zero_block [40, 41], 3 := replicate BSIZE 7)"
  let ?w = "recover_writes demo_log ?d"
  have h: "hdr_list (enc_head zero_block [40, 41]) = [40, 41]" "length (enc_head zero_block [40, 41]) = BSIZE"
    by code_simp+
  then have ok: "hdr_ok demo_log (?d (lg_start demo_log))"
    by (simp add: hdr_ok_def demo_log_def in_log_def LOGSIZE_def MAXOPBLOCKS_def)
  from recover_ok [of demo_log ?d, OF ok] obtain r where
    r: "recover_from_log (reboot demo_log ?d) = Inr r" "lg_trace r = ?w"
      "\<And>k. \<not> in_log demo_log k \<Longrightarrow> lg_disk r k = log_abs (lg_start demo_log) ?d k"
    by blast
  have "log_abs 2 ?d 40 = replicate BSIZE 7" by (simp add: log_abs_def h)
  moreover have n: "\<not> in_log demo_log 40" by (simp add: in_log_def demo_log_def)
  moreover have "lg_start demo_log = 2" by (simp add: demo_log_def)
  ultimately have "lg_disk r 40 = replicate BSIZE 7" using r(3) [OF n] by simp
  moreover have "lg_trace r = take 1 ?w @ drop 1 ?w" using r(2) by simp
  ultimately show ?thesis using recovery_idempotent [of demo_log ?d, OF ok r(1)] n by metis
qed

text \<open>
  C6. The log implements its specification: over any sequence of \<open>begin_op\<close>, \<open>log_write\<close> (to
  blocks outside the log) and \<open>end_op\<close> calls that returns, readers see the memory view, and a
  crash followed by recovery yields the durable view, which is the memory view as of the last
  time no operation was outstanding.
\<close>

theorem log_refines_spec:
  assumes "log_rel s a" and "log_run es s = Inr s'" and "list_all (ev_data s) es"
  shows "(\<forall>k. \<not> in_log s k \<longrightarrow> lg_cache s' k = al_mem (fold alog_step es a) k) \<and>
    (\<exists>r. recover_from_log (reboot s' (lg_disk s')) = Inr r \<and>
      (\<forall>k. \<not> in_log s k \<longrightarrow> lg_disk r k = al_dur (fold alog_step es a) k))"
proof -
  let ?a = "fold alog_step es a"
  have rel: "log_rel s' ?a" and inl: "in_log s' = in_log s" using log_run_rel [OF assms] by blast+
  have h: "hdr_list (lg_disk s' (lg_start s')) = []" using rel by (simp add: log_rel_def log_inv_def)
  have "0 < nat (lg_size s')" using rel unfolding log_rel_def log_inv_def by linarith
  then have "hdr_ok s' (lg_disk s' (lg_start s'))"
    using rel h by (simp add: hdr_ok_def log_rel_def log_inv_def)
  from recover_ok [of s' "lg_disk s'", OF this] obtain r where
    "recover_from_log (reboot s' (lg_disk s')) = Inr r"
    "\<And>k. \<not> in_log s k \<Longrightarrow> lg_disk r k = lg_disk s' k"
    using inl log_abs_other [of "lg_disk s'" "lg_start s'", OF h] by auto
  then show ?thesis using rel inl by (auto simp: log_rel_def)
qed

lemma log_refines_spec_witness:
  "\<exists>s'. log_run [BeginOp, LogWrite 40 (replicate BSIZE 7), BeginOp, EndOp] demo_log = Inr s' \<and>
    lg_cache s' 40 = replicate BSIZE 7 \<and>
    (\<exists>r. recover_from_log (reboot s' (lg_disk s')) = Inr r \<and> lg_disk r 40 = zero_block)"
proof -
  let ?es = "[BeginOp, LogWrite 40 (replicate BSIZE 7), BeginOp, EndOp]"
  let ?a = "\<lparr>al_mem = (\<lambda>_. zero_block), al_dur = (\<lambda>_. zero_block), al_out = 0\<rparr>"
  have rel: "log_rel demo_log ?a" using demo_log_inv by (simp add: log_rel_def demo_log_def)
  have n: "\<not> in_log demo_log 40" by (simp add: in_log_def demo_log_def)
  obtain s' where s': "log_run ?es demo_log = Inr s'"
    by (simp add: begin_op_def log_write_def end_op_def Let_def demo_log_def LOGSIZE_def MAXOPBLOCKS_def)
  have "list_all (ev_data demo_log) ?es" using n by simp
  from log_refines_spec [OF rel s' this] n s' show ?thesis by auto
qed



definition full_log_run :: "(log_ev \<times> nat) list" where
  "full_log_run = replicate 3 (BeginOp, 0) @
     map (\<lambda>i. (LogWrite (of_nat (100 + i)) zero_block, i div 10)) [0..<30]"

text \<open>
  C33. With the log that \<open>mkfs\<close> makes, of \<open>LOGSIZE\<close> blocks header included, the reservation is one
  block too generous: three operations are admitted, each logs at most \<open>MAXOPBLOCKS\<close> distinct
  blocks, and the thirtieth \<open>log_write\<close> panics.
\<close>

theorem log_reservation_overflow:
  "budget_run full_log_run [] \<and>
   (\<exists>s'. log_run (map fst (take 32 full_log_run)) (demo_log\<lparr>lg_size := int LOGSIZE\<rparr>) = Inr s') \<and>
   log_run (map fst full_log_run) (demo_log\<lparr>lg_size := int LOGSIZE\<rparr>) = Inl (Panic ''too big a transaction'')"
proof -
  have "budget_run full_log_run []" by code_simp
  moreover have "(case log_run (map fst (take 32 full_log_run)) (demo_log\<lparr>lg_size := int LOGSIZE\<rparr>) of Inr _ \<Rightarrow> True | Inl _ \<Rightarrow> False)"
    by code_simp
  moreover have "(case log_run (map fst full_log_run) (demo_log\<lparr>lg_size := int LOGSIZE\<rparr>) of Inl f \<Rightarrow> f = Panic ''too big a transaction'' | Inr _ \<Rightarrow> False)"
    by code_simp
  ultimately show ?thesis by (auto split: sum.splits)
qed

end
