(* ===== verification/Xv6_Fs.thy ===== *)
theory Xv6_Fs
  imports Xv6_Block Xv6_Spinlock Xv6_Log
begin

text \<open>
  Blocks, inodes and file contents (\<open>fs.c\<close> up to \<open>writei\<close>). The state has the disk blocks as
  the buffer cache presents them (\<open>fs_view\<close>), the list of the \<open>log_write\<close> calls (\<open>fs_wlog\<close>,
  whose meaning is \<open>Xv6_Log\<close>), the superblock read at boot and the inode cache. An inode pointer
  is an index of the cache. \<open>'d\<close> is the state of the devices behind \<open>devsw\<close>.
\<close>

section \<open>Data\<close>

definition ROOTINO :: u32 where "ROOTINO = 1"
definition ROOTDEV :: u32 where "ROOTDEV = 1"
definition IPB :: nat where "IPB = BSIZE div 64"
definition BPB :: nat where "BPB = BSIZE * 8"

definition T_DIR :: u16 where "T_DIR = 1"
definition T_FILE :: u16 where "T_FILE = 2"
definition T_DEV :: u16 where "T_DEV = 3"

lemmas [xv6_consts] = IPB_def BPB_def

definition IBLOCK :: "u32 \<Rightarrow> superblock \<Rightarrow> u32" where
  "IBLOCK i sb = i div of_nat IPB + sb_inodestart sb"

definition BBLOCK :: "u32 \<Rightarrow> superblock \<Rightarrow> u32" where
  "BBLOCK b sb = b div of_nat BPB + sb_bmapstart sb"

record dinode =
  di_type :: u16
  di_major :: u16
  di_minor :: u16
  di_nlink :: u16
  di_size :: u32
  di_addrs :: "u32 list"

text \<open>The layout of \<open>struct dinode\<close> in a block, at byte \<open>o\<close>.\<close>

definition get_dinode :: "block \<Rightarrow> nat \<Rightarrow> dinode" where
  "get_dinode b o' =
     \<lparr>di_type = get16 b o', di_major = get16 b (o' + 2), di_minor = get16 b (o' + 4),
      di_nlink = get16 b (o' + 6), di_size = get32 b (o' + 8), di_addrs = get32s b (o' + 12) (NDIRECT + 1)\<rparr>"

definition put_dinode :: "dinode \<Rightarrow> block \<Rightarrow> nat \<Rightarrow> block" where
  "put_dinode d b o' =
     put32s (put32 (put16 (put16 (put16 (put16 b o' (di_type d)) (o' + 2) (di_major d)) (o' + 4) (di_minor d))
       (o' + 6) (di_nlink d)) (o' + 8) (di_size d)) (o' + 12) (di_addrs d)"

definition zero_dinode :: dinode where
  "zero_dinode = \<lparr>di_type = 0, di_major = 0, di_minor = 0, di_nlink = 0, di_size = 0,
     di_addrs = replicate (NDIRECT + 1) 0\<rparr>"

record inode =
  i_dev :: u32
  i_inum :: u32
  i_ref :: int
  i_lock :: sleeplock
  i_valid :: bool
  i_di :: dinode

record 'd fsys =
  fs_view :: "nat \<Rightarrow> block"
  fs_wlog :: "(u32 \<times> block) list"
  fs_nblk :: nat
  fs_sb :: superblock
  fs_icache :: "nat \<Rightarrow> inode"
  fs_dev :: 'd

text \<open>
  \<open>bread\<close>: the transfer routine of the disk panics for another device and for a block beyond the
  end of the disk. \<open>log_write\<close> of a buffer whose data is now \<open>b\<close>.
\<close>

definition fs_bread :: "u32 \<Rightarrow> u32 \<Rightarrow> 'd fsys \<Rightarrow> block result" where
  "fs_bread dev k s =
     (if dev \<noteq> 1 then Inl (Panic ''iderw: request not for disk 1'')
      else if unat k \<ge> fs_nblk s then Inl (Panic ''iderw: block out of range'')
      else Inr (fs_view s (unat k)))"

definition fs_log_write :: "u32 \<Rightarrow> block \<Rightarrow> 'd fsys \<Rightarrow> 'd fsys" where
  "fs_log_write k b s = s\<lparr>fs_view := (fs_view s)(unat k := b), fs_wlog := fs_wlog s @ [(k, b)]\<rparr>"

definition upd_inode :: "nat \<Rightarrow> (inode \<Rightarrow> inode) \<Rightarrow> 'd fsys \<Rightarrow> 'd fsys" where
  "upd_inode i f s = s\<lparr>fs_icache := (fs_icache s)(i := f (fs_icache s i))\<rparr>"

definition upd_di :: "nat \<Rightarrow> (dinode \<Rightarrow> dinode) \<Rightarrow> 'd fsys \<Rightarrow> 'd fsys" where
  "upd_di i f s = upd_inode i (\<lambda>ip. ip\<lparr>i_di := f (i_di ip)\<rparr>) s"

abbreviation inode_of :: "'d fsys \<Rightarrow> nat \<Rightarrow> inode" where "inode_of s i \<equiv> fs_icache s i"
abbreviation di_of :: "'d fsys \<Rightarrow> nat \<Rightarrow> dinode" where "di_of s i \<equiv> i_di (fs_icache s i)"

section \<open>Blocks\<close>

definition bzero :: "u32 \<Rightarrow> u32 \<Rightarrow> 'd fsys \<Rightarrow> 'd fsys result" where
  "bzero dev bno s = andthen (fs_bread dev bno s) (\<lambda>_. Inr (fs_log_write bno zero_block s))"

text \<open>The bit of block \<open>bi\<close> in a block of the free map: \<open>data[bi/8] & (1 << bi%8)\<close>.\<close>

definition bm_used :: "block \<Rightarrow> nat \<Rightarrow> bool" where
  "bm_used d bi \<longleftrightarrow> d ! (bi div 8) AND push_bit (bi mod 8) 1 \<noteq> 0"

definition bm_set :: "block \<Rightarrow> nat \<Rightarrow> block" where
  "bm_set d bi = d[bi div 8 := d ! (bi div 8) OR push_bit (bi mod 8) 1]"

definition bm_clear :: "block \<Rightarrow> nat \<Rightarrow> block" where
  "bm_clear d bi = d[bi div 8 := d ! (bi div 8) AND NOT (push_bit (bi mod 8) 1)]"

text \<open>The outer loop of \<open>balloc\<close> runs over the values \<open>0, BPB, 2 BPB, ...\<close> of \<open>b\<close> below \<open>sb.size\<close>.\<close>

fun balloc_loop :: "u32 \<Rightarrow> nat list \<Rightarrow> 'd fsys \<Rightarrow> (u32 \<times> 'd fsys) result" where
  "balloc_loop dev [] s = Inl (Panic ''balloc: out of blocks'')"
| "balloc_loop dev (b # bs) s =
     andthen (fs_bread dev (BBLOCK (of_nat b) (fs_sb s)) s) (\<lambda>bp.
       case find (\<lambda>bi. \<not> bm_used bp bi) [0..<min BPB (unat (sb_size (fs_sb s)) - b)] of
         Some bi \<Rightarrow>
           (let s1 = fs_log_write (BBLOCK (of_nat b) (fs_sb s)) (bm_set bp bi) s
            in andthen (bzero dev (of_nat (b + bi)) s1) (\<lambda>s2. Inr (of_nat (b + bi), s2)))
       | None \<Rightarrow> balloc_loop dev bs s)"

definition bmap_starts :: "superblock \<Rightarrow> nat list" where
  "bmap_starts sb = map (\<lambda>i. i * BPB) [0..<(unat (sb_size sb) + BPB - 1) div BPB]"

definition balloc :: "u32 \<Rightarrow> 'd fsys \<Rightarrow> (u32 \<times> 'd fsys) result" where
  "balloc dev s = balloc_loop dev (bmap_starts (fs_sb s)) s"

definition bfree :: "u32 \<Rightarrow> u32 \<Rightarrow> 'd fsys \<Rightarrow> 'd fsys result" where
  "bfree dev b s =
     andthen (fs_bread dev (BBLOCK b (fs_sb s)) s) (\<lambda>bp.
       let bi = unat b mod BPB
       in if \<not> bm_used bp bi then Inl (Panic ''freeing free block'')
          else Inr (fs_log_write (BBLOCK b (fs_sb s)) (bm_clear bp bi) s))"

section \<open>Inodes\<close>

definition iinit :: "'d fsys \<Rightarrow> 'd fsys" where
  "iinit s =
     s\<lparr>fs_icache := (\<lambda>i. (fs_icache s i)\<lparr>i_lock := (if i < NINODE then initsleeplock else i_lock (fs_icache s i))\<rparr>),
       fs_sb := readsb (fs_view s)\<rparr>"

text \<open>The cached entry for an inode if there is one, the first unused entry otherwise.\<close>

definition iget :: "u32 \<Rightarrow> u32 \<Rightarrow> 'd fsys \<Rightarrow> (nat \<times> 'd fsys) result" where
  "iget dev inum s =
     (case find (\<lambda>i. i_ref (inode_of s i) > 0 \<and> i_dev (inode_of s i) = dev \<and> i_inum (inode_of s i) = inum) [0..<NINODE] of
        Some i \<Rightarrow> Inr (i, upd_inode i (\<lambda>ip. ip\<lparr>i_ref := i_ref ip + 1\<rparr>) s)
      | None \<Rightarrow>
          (case find (\<lambda>i. i_ref (inode_of s i) = 0) [0..<NINODE] of
             None \<Rightarrow> Inl (Panic ''iget: no inodes'')
           | Some i \<Rightarrow> Inr (i, upd_inode i (\<lambda>ip. ip\<lparr>i_dev := dev, i_inum := inum, i_ref := 1, i_valid := False\<rparr>) s)))"

definition ino_off :: "u32 \<Rightarrow> nat" where
  "ino_off inum = 64 * (unat inum mod IPB)"

fun ialloc_loop :: "u32 \<Rightarrow> u16 \<Rightarrow> nat list \<Rightarrow> 'd fsys \<Rightarrow> (nat \<times> 'd fsys) result" where
  "ialloc_loop dev ty [] s = Inl (Panic ''ialloc: no inodes'')"
| "ialloc_loop dev ty (n # ns) s =
     (let inum = of_nat n; k = IBLOCK inum (fs_sb s)
      in andthen (fs_bread dev k s) (\<lambda>bp.
           if get16 bp (ino_off inum) = 0
           then iget dev inum (fs_log_write k (put_dinode (zero_dinode\<lparr>di_type := ty\<rparr>) bp (ino_off inum)) s)
           else ialloc_loop dev ty ns s))"

definition ialloc :: "u32 \<Rightarrow> u16 \<Rightarrow> 'd fsys \<Rightarrow> (nat \<times> 'd fsys) result" where
  "ialloc dev ty s = ialloc_loop dev ty [1..<unat (sb_ninodes (fs_sb s))] s"

definition iupdate :: "nat \<Rightarrow> 'd fsys \<Rightarrow> 'd fsys result" where
  "iupdate i s =
     (let ip = inode_of s i; k = IBLOCK (i_inum ip) (fs_sb s)
      in andthen (fs_bread (i_dev ip) k s) (\<lambda>bp.
           Inr (fs_log_write k (put_dinode (i_di ip) bp (ino_off (i_inum ip))) s)))"

definition idup :: "nat \<Rightarrow> 'd fsys \<Rightarrow> nat \<times> 'd fsys" where
  "idup i s = (i, upd_inode i (\<lambda>ip. ip\<lparr>i_ref := i_ref ip + 1\<rparr>) s)"

definition ilock :: "int \<Rightarrow> nat \<Rightarrow> 'd fsys \<Rightarrow> 'd fsys result" where
  "ilock pid i s =
     (if i_ref (inode_of s i) < 1 then Inl (Panic ''ilock'')
      else andthen (acquiresleep pid (i_lock (inode_of s i))) (\<lambda>lk.
        let s = upd_inode i (\<lambda>ip. ip\<lparr>i_lock := lk\<rparr>) s; ip = inode_of s i
        in if i_valid ip then Inr s
           else andthen (fs_bread (i_dev ip) (IBLOCK (i_inum ip) (fs_sb s)) s) (\<lambda>bp.
             let d = get_dinode bp (ino_off (i_inum ip));
                 s = upd_inode i (\<lambda>ip. ip\<lparr>i_di := d, i_valid := True\<rparr>) s
             in if di_type d = 0 then Inl (Panic ''ilock: no type'') else Inr s)))"

definition iunlock :: "int \<Rightarrow> nat \<Rightarrow> 'd fsys \<Rightarrow> 'd fsys result" where
  "iunlock pid i s =
     (if \<not> holdingsleep pid (i_lock (inode_of s i)) \<or> i_ref (inode_of s i) < 1 then Inl (Panic ''iunlock'')
      else Inr (upd_inode i (\<lambda>ip. ip\<lparr>i_lock := releasesleep (i_lock ip)\<rparr>) s))"

section \<open>Contents\<close>

definition bmap :: "nat \<Rightarrow> nat \<Rightarrow> 'd fsys \<Rightarrow> (u32 \<times> 'd fsys) result" where
  "bmap i bn s =
     (let dev = i_dev (inode_of s i)
      in if bn < NDIRECT
         then let addr = di_addrs (di_of s i) ! bn
              in if addr = 0
                 then andthen (balloc dev s) (\<lambda>(addr, s).
                        Inr (addr, upd_di i (\<lambda>d. d\<lparr>di_addrs := (di_addrs d)[bn := addr]\<rparr>) s))
                 else Inr (addr, s)
         else let bn = bn - NDIRECT
              in if bn < NINDIRECT
                 then andthen (let addr = di_addrs (di_of s i) ! NDIRECT
                               in if addr = 0
                                  then andthen (balloc dev s) (\<lambda>(addr, s).
                                         Inr (addr, upd_di i (\<lambda>d. d\<lparr>di_addrs := (di_addrs d)[NDIRECT := addr]\<rparr>) s))
                                  else Inr (addr, s)) (\<lambda>(ind, s).
                        andthen (fs_bread dev ind s) (\<lambda>bp.
                          let addr = get32 bp (4 * bn)
                          in if addr = 0
                             then andthen (balloc dev s) (\<lambda>(addr, s).
                                    Inr (addr, fs_log_write ind (put32 bp (4 * bn) addr) s))
                             else Inr (addr, s)))
                 else Inl (Panic ''bmap: out of range''))"

fun itrunc_direct :: "nat \<Rightarrow> nat list \<Rightarrow> 'd fsys \<Rightarrow> 'd fsys result" where
  "itrunc_direct i [] s = Inr s"
| "itrunc_direct i (j # js) s =
     (let a = di_addrs (di_of s i) ! j
      in if a \<noteq> 0
         then andthen (bfree (i_dev (inode_of s i)) a s) (\<lambda>s.
                itrunc_direct i js (upd_di i (\<lambda>d. d\<lparr>di_addrs := (di_addrs d)[j := 0]\<rparr>) s))
         else itrunc_direct i js s)"

text \<open>The entries of the indirect block are those of the buffer, which stays locked.\<close>

fun itrunc_indirect :: "u32 \<Rightarrow> u32 list \<Rightarrow> 'd fsys \<Rightarrow> 'd fsys result" where
  "itrunc_indirect dev [] s = Inr s"
| "itrunc_indirect dev (a # as) s =
     (if a \<noteq> 0 then andthen (bfree dev a s) (itrunc_indirect dev as) else itrunc_indirect dev as s)"

definition itrunc :: "nat \<Rightarrow> 'd fsys \<Rightarrow> 'd fsys result" where
  "itrunc i s =
     (let dev = i_dev (inode_of s i)
      in andthen (itrunc_direct i [0..<NDIRECT] s) (\<lambda>s.
         andthen (let ind = di_addrs (di_of s i) ! NDIRECT
                  in if ind \<noteq> 0
                     then andthen (fs_bread dev ind s) (\<lambda>bp.
                          andthen (itrunc_indirect dev (get32s bp 0 NINDIRECT) s) (\<lambda>s.
                          andthen (bfree dev ind s) (\<lambda>s.
                            Inr (upd_di i (\<lambda>d. d\<lparr>di_addrs := (di_addrs d)[NDIRECT := 0]\<rparr>) s))))
                     else Inr s) (\<lambda>s.
           iupdate i (upd_di i (\<lambda>d. d\<lparr>di_size := 0\<rparr>) s))))"

definition iput :: "int \<Rightarrow> nat \<Rightarrow> 'd fsys \<Rightarrow> 'd fsys result" where
  "iput pid i s =
     andthen (acquiresleep pid (i_lock (inode_of s i))) (\<lambda>lk.
       let s = upd_inode i (\<lambda>ip. ip\<lparr>i_lock := lk\<rparr>) s
       in andthen (if i_valid (inode_of s i) \<and> di_nlink (di_of s i) = 0 \<and> i_ref (inode_of s i) = 1
                   then andthen (itrunc i s) (\<lambda>s.
                        andthen (iupdate i (upd_di i (\<lambda>d. d\<lparr>di_type := 0\<rparr>) s)) (\<lambda>s.
                          Inr (upd_inode i (\<lambda>ip. ip\<lparr>i_valid := False\<rparr>) s)))
                   else Inr s) (\<lambda>s.
            Inr (upd_inode i (\<lambda>ip. ip\<lparr>i_lock := releasesleep (i_lock ip), i_ref := i_ref ip - 1\<rparr>) s)))"

definition iunlockput :: "int \<Rightarrow> nat \<Rightarrow> 'd fsys \<Rightarrow> 'd fsys result" where
  "iunlockput pid i s = andthen (iunlock pid i s) (iput pid i)"

record stat =
  st_type :: u16
  st_dev :: u32
  st_ino :: u32
  st_nlink :: u16
  st_size :: u32

definition stati :: "nat \<Rightarrow> 'd fsys \<Rightarrow> stat" where
  "stati i s =
     \<lparr>st_type = di_type (di_of s i), st_dev = i_dev (inode_of s i), st_ino = i_inum (inode_of s i),
      st_nlink = di_nlink (di_of s i), st_size = di_size (di_of s i)\<rparr>"

text \<open>
  \<open>devsw\<close>: for each major number the read and the write routine of the driver, if there is one.
  A read returns the bytes it stores, \<open>None\<close> stands for the error value -1.
\<close>

record 'd devsw =
  dv_read :: "nat \<Rightarrow> (nat \<Rightarrow> u32 \<Rightarrow> 'd fsys \<Rightarrow> (u8 list option \<times> 'd fsys) result) option"
  dv_write :: "nat \<Rightarrow> (nat \<Rightarrow> u8 list \<Rightarrow> 'd fsys \<Rightarrow> (nat option \<times> 'd fsys) result) option"

function readi_loop :: "nat \<Rightarrow> nat \<Rightarrow> nat \<Rightarrow> 'd fsys \<Rightarrow> (u8 list \<times> 'd fsys) result" where
  "readi_loop i off n s =
     (if n = 0 then Inr ([], s)
      else andthen (bmap i (off div BSIZE) s) (\<lambda>(addr, s).
           andthen (fs_bread (i_dev (inode_of s i)) addr s) (\<lambda>bp.
             let m = min n (BSIZE - off mod BSIZE)
             in andthen (readi_loop i (off + m) (n - m) s) (\<lambda>(bs, s).
                  Inr (slice bp (off mod BSIZE) m @ bs, s)))))"
  by pat_completeness auto
termination
  by (relation "measure (\<lambda>(i, off, n, s). n)") (auto simp: BSIZE_def)

definition readi :: "'d devsw \<Rightarrow> nat \<Rightarrow> u32 \<Rightarrow> u32 \<Rightarrow> 'd fsys \<Rightarrow> (u8 list option \<times> 'd fsys) result" where
  "readi dv i off n s =
     (let d = di_of s i; major = sint (di_major d)
      in if di_type d = T_DEV
         then if major < 0 \<or> major \<ge> int NDEV then Inr (None, s)
              else (case dv_read dv (nat major) of None \<Rightarrow> Inr (None, s) | Some rd \<Rightarrow> rd i n s)
         else if off > di_size d \<or> off + n < off then Inr (None, s)
         else let n = (if off + n > di_size d then di_size d - off else n)
              in andthen (readi_loop i (unat off) (unat n) s) (\<lambda>(bs, s). Inr (Some bs, s)))"

function writei_loop :: "nat \<Rightarrow> nat \<Rightarrow> u8 list \<Rightarrow> 'd fsys \<Rightarrow> 'd fsys result" where
  "writei_loop i off src s =
     (if src = [] then Inr s
      else andthen (bmap i (off div BSIZE) s) (\<lambda>(addr, s).
           andthen (fs_bread (i_dev (inode_of s i)) addr s) (\<lambda>bp.
             let m = min (length src) (BSIZE - off mod BSIZE)
             in writei_loop i (off + m) (drop m src)
                  (fs_log_write addr (splice bp (off mod BSIZE) (take m src)) s))))"
  by pat_completeness auto
termination
  by (relation "measure (\<lambda>(i, off, src, s). length src)") (auto simp: BSIZE_def)

declare readi_loop.simps [simp del] writei_loop.simps [simp del]

text \<open>The bytes at \<open>src\<close> are an argument; \<open>n\<close> is their number.\<close>

definition writei :: "'d devsw \<Rightarrow> nat \<Rightarrow> u8 list \<Rightarrow> u32 \<Rightarrow> 'd fsys \<Rightarrow> (nat option \<times> 'd fsys) result" where
  "writei dv i src off s =
     (let d = di_of s i; major = sint (di_major d); n = (of_nat (length src) :: u32)
      in if di_type d = T_DEV
         then if major < 0 \<or> major \<ge> int NDEV then Inr (None, s)
              else (case dv_write dv (nat major) of None \<Rightarrow> Inr (None, s) | Some wr \<Rightarrow> wr i src s)
         else if off > di_size d \<or> off + n < off then Inr (None, s)
         else if unat (off + n) > MAXFILE * BSIZE then Inr (None, s)
         else andthen (writei_loop i (unat off) src s) (\<lambda>s.
                if n > 0 \<and> off + n > di_size (di_of s i)
                then andthen (iupdate i (upd_di i (\<lambda>d. d\<lparr>di_size := off + n\<rparr>) s)) (\<lambda>s.
                       Inr (Some (length src), s))
                else Inr (Some (length src), s)))"

section \<open>The layout and the free map\<close>

lemma bm_used_bit: "bm_used d bi \<longleftrightarrow> bit (d ! (bi div 8)) (bi mod 8)"
  by (simp add: bm_used_def bit_iff_and_push_bit_not_eq_0)

lemma bm_index: "length d = BSIZE \<Longrightarrow> bi < BPB \<Longrightarrow> bi div 8 < length d"
  by (simp add: xv6_consts)

lemma bm_used_set:
  assumes "length d = BSIZE" "bi < BPB" "bj < BPB"
  shows "bm_used (bm_set d bi) bj \<longleftrightarrow> bj = bi \<or> bm_used d bj"
proof (cases "bj div 8 = bi div 8")
  case True
  then have "bj = bi \<longleftrightarrow> bj mod 8 = bi mod 8" by (metis div_mult_mod_eq)
  then show ?thesis
    using True bm_index [OF assms(1,2)] by (auto simp: bm_used_bit bm_set_def bit_simps)
next
  case False
  then show ?thesis using bm_index [OF assms(1,2)] by (auto simp: bm_used_bit bm_set_def)
qed

lemma bm_used_clear:
  assumes "length d = BSIZE" "bi < BPB" "bj < BPB"
  shows "bm_used (bm_clear d bi) bj \<longleftrightarrow> bj \<noteq> bi \<and> bm_used d bj"
proof (cases "bj div 8 = bi div 8")
  case True
  then have "bj = bi \<longleftrightarrow> bj mod 8 = bi mod 8" by (metis div_mult_mod_eq)
  then show ?thesis
    using True bm_index [OF assms(1,2)] by (auto simp: bm_used_bit bm_clear_def bit_simps)
next
  case False
  then show ?thesis using bm_index [OF assms(1,2)] by (auto simp: bm_used_bit bm_clear_def)
qed

lemma bm_clear_set:
  assumes "length d = BSIZE" "bi < BPB" "\<not> bm_used d bi"
  shows "bm_clear (bm_set d bi) bi = d"
proof -
  have "(d ! (bi div 8) OR push_bit (bi mod 8) 1) AND NOT (push_bit (bi mod 8) 1) = d ! (bi div 8)"
    using assms(3) by (intro bit_word_eqI) (auto simp: bm_used_bit bit_simps)
  then show ?thesis using bm_index [OF assms(1,2)] by (simp add: bm_clear_def bm_set_def)
qed

lemma length_bm [simp]: "length (bm_set d bi) = length d" "length (bm_clear d bi) = length d"
  by (simp_all add: bm_set_def bm_clear_def)

definition nbitmap :: "superblock \<Rightarrow> nat" where
  "nbitmap sb = (unat (sb_size sb) + BPB - 1) div BPB"

text \<open>The first data block: the free map is the last of the metadata.\<close>

definition dstart :: "superblock \<Rightarrow> nat" where
  "dstart sb = unat (sb_bmapstart sb) + nbitmap sb"

definition bm_block :: "superblock \<Rightarrow> nat \<Rightarrow> nat" where
  "bm_block sb b = unat (sb_bmapstart sb) + b div BPB"

definition used :: "'d fsys \<Rightarrow> nat \<Rightarrow> bool" where
  "used s b \<longleftrightarrow> bm_used (fs_view s (bm_block (fs_sb s) b)) (b mod BPB)"

definition free_blocks :: "'d fsys \<Rightarrow> nat set" where
  "free_blocks s = {b. b < unat (sb_size (fs_sb s)) \<and> \<not> used s b}"

definition sb_ok :: "superblock \<Rightarrow> bool" where
  "sb_ok sb \<longleftrightarrow> dstart sb \<le> unat (sb_size sb) \<and> unat (sb_size sb) < 2147483648 \<and>
     unat (sb_inodestart sb) + unat (sb_ninodes sb) div IPB < unat (sb_bmapstart sb)"

definition fs_ok :: "'d fsys \<Rightarrow> bool" where
  "fs_ok s \<longleftrightarrow> sb_ok (fs_sb s) \<and> unat (sb_size (fs_sb s)) \<le> fs_nblk s \<and>
     (\<forall>k<fs_nblk s. length (fs_view s k) = BSIZE) \<and> (\<forall>b<dstart (fs_sb s). used s b)"

lemma finite_free [simp]: "finite (free_blocks s)"
  by (simp add: free_blocks_def)

lemma fs_okD:
  assumes "fs_ok s"
  shows "dstart (fs_sb s) \<le> unat (sb_size (fs_sb s))" "unat (sb_size (fs_sb s)) \<le> fs_nblk s"
    "unat (sb_size (fs_sb s)) < 2147483648"
    "k < fs_nblk s \<Longrightarrow> length (fs_view s k) = BSIZE" "b < dstart (fs_sb s) \<Longrightarrow> used s b"
    "\<not> used s b \<Longrightarrow> dstart (fs_sb s) \<le> b"
  using assms by (auto simp: fs_ok_def sb_ok_def not_le [symmetric])

lemma BBLOCK_unat:
  assumes "sb_ok sb" "b < unat (sb_size sb)"
  shows "unat (BBLOCK (of_nat b) sb) = bm_block sb b" "bm_block sb b < dstart sb"
    "unat (sb_bmapstart sb) \<le> bm_block sb b"
proof -
  have b: "b < 2147483648" "dstart sb < 2147483648" using assms by (auto simp: sb_ok_def)
  have "b div BPB < nbitmap sb"
    using assms(2) unfolding nbitmap_def by (simp add: xv6_consts)
  then show d: "bm_block sb b < dstart sb" by (simp add: bm_block_def dstart_def)
  have "unat (of_nat b div of_nat BPB :: u32) = b div BPB"
    using b by (simp add: unat_div unat_of_nat_u32 xv6_consts)
  then show "unat (BBLOCK (of_nat b) sb) = bm_block sb b"
    using d b unfolding BBLOCK_def bm_block_def by (subst unat_add_u32) simp_all
  show "unat (sb_bmapstart sb) \<le> bm_block sb b" by (simp add: bm_block_def)
qed

lemma BBLOCK_of_u32: "BBLOCK b sb = BBLOCK (of_nat (unat b)) sb" by simp

lemma fs_bread_ok [simp]: "unat k < fs_nblk s \<Longrightarrow> fs_bread 1 k s = Inr (fs_view s (unat k))"
  by (simp add: fs_bread_def)

lemma fs_log_write_simps [simp]:
  "fs_view (fs_log_write k b s) = (fs_view s)(unat k := b)"
  "fs_sb (fs_log_write k b s) = fs_sb s" "fs_nblk (fs_log_write k b s) = fs_nblk s"
  "fs_icache (fs_log_write k b s) = fs_icache s" "fs_dev (fs_log_write k b s) = fs_dev s"
  "fs_wlog (fs_log_write k b s) = fs_wlog s @ [(k, b)]"
  by (simp_all add: fs_log_write_def)

lemma upd_inode_simps [simp]:
  "fs_view (upd_inode i f s) = fs_view s" "fs_sb (upd_inode i f s) = fs_sb s"
  "fs_nblk (upd_inode i f s) = fs_nblk s" "fs_dev (upd_inode i f s) = fs_dev s"
  "fs_wlog (upd_inode i f s) = fs_wlog s"
  "fs_icache (upd_inode i f s) = (fs_icache s)(i := f (fs_icache s i))"
  by (simp_all add: upd_inode_def)

lemma used_upd_inode [simp]: "used (upd_inode i f s) = used s" "fs_ok (upd_inode i f s) = fs_ok s"
  "free_blocks (upd_inode i f s) = free_blocks s"
  by (simp_all add: used_def fs_ok_def free_blocks_def fun_eq_iff)

lemma mod_BPB [simp]: "b mod BPB < BPB" by (simp add: xv6_consts)

lemma used_data_write:
  assumes "sb_ok (fs_sb s)" "dstart (fs_sb s) \<le> unat k" "b < unat (sb_size (fs_sb s))"
  shows "used (fs_log_write k d s) b = used s b"
  using BBLOCK_unat(2) [OF assms(1,3)] assms(2) by (simp add: used_def)

lemma same_bm:
  "bm_block sb b' = bm_block sb b \<Longrightarrow> b' mod BPB = b mod BPB \<longleftrightarrow> b' = b"
  by (metis add_left_cancel bm_block_def div_mult_mod_eq)

lemma used_bm_set:
  assumes ok: "fs_ok s" and b: "b < unat (sb_size (fs_sb s))" and b': "b' < unat (sb_size (fs_sb s))"
  shows "used (fs_log_write (BBLOCK (of_nat b) (fs_sb s)) (bm_set (fs_view s (bm_block (fs_sb s) b)) (b mod BPB)) s) b'
    \<longleftrightarrow> b' = b \<or> used s b'"
proof -
  have sb: "sb_ok (fs_sb s)" using ok by (simp add: fs_ok_def)
  have k: "bm_block (fs_sb s) b < fs_nblk s"
    using BBLOCK_unat(2) [OF sb b] fs_okD(1,2) [OF ok] by linarith
  then have l: "length (fs_view s (bm_block (fs_sb s) b)) = BSIZE" using fs_okD(4) [OF ok] by blast
  show ?thesis
    using BBLOCK_unat(1) [OF sb b] bm_used_set [OF l mod_BPB mod_BPB, of b b'] same_bm [of "fs_sb s" b' b]
    by (auto simp: used_def)
qed

lemma used_bm_clear:
  assumes ok: "fs_ok s" and b: "b < unat (sb_size (fs_sb s))" and b': "b' < unat (sb_size (fs_sb s))"
  shows "used (fs_log_write (BBLOCK (of_nat b) (fs_sb s)) (bm_clear (fs_view s (bm_block (fs_sb s) b)) (b mod BPB)) s) b'
    \<longleftrightarrow> b' \<noteq> b \<and> used s b'"
proof -
  have sb: "sb_ok (fs_sb s)" using ok by (simp add: fs_ok_def)
  have k: "bm_block (fs_sb s) b < fs_nblk s"
    using BBLOCK_unat(2) [OF sb b] fs_okD(1,2) [OF ok] by linarith
  then have l: "length (fs_view s (bm_block (fs_sb s) b)) = BSIZE" using fs_okD(4) [OF ok] by blast
  show ?thesis
    using BBLOCK_unat(1) [OF sb b] bm_used_clear [OF l mod_BPB mod_BPB, of b b'] same_bm [of "fs_sb s" b' b]
    by (auto simp: used_def)
qed

section \<open>Allocation of blocks\<close>

text \<open>The state after block \<open>b\<close> has been marked in use and zeroed.\<close>

definition alloc_state :: "nat \<Rightarrow> 'd fsys \<Rightarrow> 'd fsys" where
  "alloc_state b s =
     fs_log_write (of_nat b) zero_block
       (fs_log_write (BBLOCK (of_nat b) (fs_sb s)) (bm_set (fs_view s (bm_block (fs_sb s) b)) (b mod BPB)) s)"

lemma find_upt_None: "find P [0..<n] = None \<longleftrightarrow> (\<forall>i<n. \<not> P i)"
  by (auto simp: find_None_iff)

lemma find_upt_Some: "find P [0..<n] = Some i \<longleftrightarrow> i < n \<and> P i \<and> (\<forall>j<i. \<not> P j)"
  by (auto simp: find_Some_iff)

lemma balloc_loop_ok:
  assumes ok: "fs_ok s" and free: "\<exists>b\<in>free_blocks s. m * BPB \<le> b"
    and n: "n = nbitmap (fs_sb s)"
  shows "\<exists>b. balloc_loop 1 (map (\<lambda>i. i * BPB) [m..<n]) s = Inr (of_nat b, alloc_state b s) \<and>
    b \<in> free_blocks s \<and> (\<forall>b'. m * BPB \<le> b' \<and> b' < b \<longrightarrow> used s b')"
  using free
proof (induction "n - m" arbitrary: m)
  case 0
  then obtain b where b: "b < unat (sb_size (fs_sb s))" "m * BPB \<le> b" by (auto simp: free_blocks_def)
  have "n \<le> m" using 0 by simp
  then have "nbitmap (fs_sb s) * BPB \<le> b" using b(2) n mult_le_mono1 le_trans by blast
  then show ?case using b(1) unfolding nbitmap_def by (simp add: xv6_consts)
next
  case (Suc d)
  let ?sb = "fs_sb s" let ?size = "unat (sb_size ?sb)"
  obtain b where b: "b < ?size" "m * BPB \<le> b" "\<not> used s b" using Suc.prems by (auto simp: free_blocks_def)
  have sb: "sb_ok ?sb" using ok by (simp add: fs_ok_def)
  have lt: "m * BPB < ?size" using b by simp
  have m: "m < n" using Suc by simp
  have up: "[m..<n] = m # [Suc m..<n]" using m by (rule upt_conv_Cons)
  have bl: "bm_block ?sb (m * BPB + bi) = bm_block ?sb (m * BPB)" "(m * BPB + bi) mod BPB = bi" if "bi < BPB" for bi
    using that by (simp_all add: bm_block_def)
  have kk: "unat (BBLOCK (of_nat (m * BPB)) ?sb) = bm_block ?sb (m * BPB)" using BBLOCK_unat [OF sb lt] by simp
  have rd: "fs_bread 1 (BBLOCK (of_nat (m * BPB)) ?sb) s = Inr (fs_view s (bm_block ?sb (m * BPB)))"
    using BBLOCK_unat [OF sb lt] fs_okD(1,2) [OF ok] by (subst fs_bread_ok) auto
  let ?f = "find (\<lambda>bi. \<not> bm_used (fs_view s (bm_block ?sb (m * BPB))) bi) [0..<min BPB (?size - m * BPB)]"
  have us: "bm_used (fs_view s (bm_block ?sb (m * BPB))) bi \<longleftrightarrow> used s (m * BPB + bi)" if "bi < BPB" for bi
    using bl [OF that] by (simp add: used_def)
  show ?case
  proof (cases ?f)
    case None
    then have no: "\<forall>bi<min BPB (?size - m * BPB). used s (m * BPB + bi)"
      using us by (auto simp: find_upt_None)
    have all: "used s b'" if "m * BPB \<le> b'" "b' < Suc m * BPB" "b' < ?size" for b'
    proof -
      have "b' - m * BPB < min BPB (?size - m * BPB)" using that by auto
      then show ?thesis using no that(1) by (metis le_add_diff_inverse)
    qed
    have "Suc m * BPB \<le> b" using all b by (meson not_le)
    then have "\<exists>b\<in>free_blocks s. Suc m * BPB \<le> b" using b by (auto simp: free_blocks_def)
    moreover have "d = n - Suc m" using Suc.hyps(2) by simp
    ultimately obtain c where c: "balloc_loop 1 (map (\<lambda>i. i * BPB) [Suc m..<n]) s = Inr (of_nat c, alloc_state c s)"
      "c \<in> free_blocks s" "\<forall>b'. Suc m * BPB \<le> b' \<and> b' < c \<longrightarrow> used s b'"
      using Suc.hyps(1) [of "Suc m"] by blast
    have "\<forall>b'. m * BPB \<le> b' \<and> b' < c \<longrightarrow> used s b'"
      using c(2,3) all by (auto simp: free_blocks_def) (meson less_trans not_le)
    then show ?thesis using c None rd by (auto simp: up)
  next
    case (Some bi)
    then have bi: "bi < BPB" "m * BPB + bi < ?size" "\<not> used s (m * BPB + bi)" "\<forall>j<bi. used s (m * BPB + j)"
      using us by (auto simp: find_upt_Some)
    let ?b = "m * BPB + bi"
    have "BBLOCK (of_nat (m * BPB)) ?sb = BBLOCK (of_nat ?b) ?sb"
      using BBLOCK_unat(1) [OF sb lt] BBLOCK_unat(1) [OF sb bi(2)] bl [OF bi(1)] by (metis unsigned_word_eqI)
    then have st: "fs_log_write (BBLOCK (of_nat (m * BPB)) ?sb) (bm_set (fs_view s (bm_block ?sb (m * BPB))) bi) s =
      fs_log_write (BBLOCK (of_nat ?b) ?sb) (bm_set (fs_view s (bm_block ?sb ?b)) (?b mod BPB)) s"
      using bl [OF bi(1)] by simp
    have ub: "unat (of_nat ?b :: u32) = ?b" using bi(2) fs_okD(3) [OF ok] by (intro unat_of_nat_u32) linarith
    have "balloc_loop 1 (map (\<lambda>i. i * BPB) [m..<n]) s = Inr (of_nat ?b, alloc_state ?b s)"
      using Some rd ub bi(2) fs_okD(2) [OF ok]
      by (simp only: up list.map balloc_loop.simps rd andthen_simps option.case Let_def st bzero_def alloc_state_def)
        (simp add: fs_bread_def ub)
    moreover have "used s b'" if "m * BPB \<le> b'" "b' < ?b" for b'
      using bi(4) [rule_format, of "b' - m * BPB"] that by simp
    ultimately show ?thesis using bi(2,3) by (intro exI [of _ ?b]) (simp add: free_blocks_def)
  qed
qed

lemma balloc_ok:
  assumes "fs_ok s" and "free_blocks s \<noteq> {}"
  shows "\<exists>b. balloc 1 s = Inr (of_nat b, alloc_state b s) \<and> b \<in> free_blocks s \<and> (\<forall>b'<b. used s b')"
  using balloc_loop_ok [OF assms(1), of 0 "nbitmap (fs_sb s)"] assms(2)
  by (auto simp: balloc_def bmap_starts_def nbitmap_def)

lemma unat_of_block:
  "fs_ok s \<Longrightarrow> b < unat (sb_size (fs_sb s)) \<Longrightarrow> unat (of_nat b :: u32) = b"
  using fs_okD(3) [of s] by (intro unat_of_nat_u32) linarith

lemma alloc_state_simps [simp]:
  "fs_sb (alloc_state b s) = fs_sb s" "fs_nblk (alloc_state b s) = fs_nblk s"
  "fs_icache (alloc_state b s) = fs_icache s" "fs_dev (alloc_state b s) = fs_dev s"
  by (simp_all add: alloc_state_def)

lemma alloc_state_ok:
  assumes ok: "fs_ok s" and b: "b \<in> free_blocks s"
  shows "fs_ok (alloc_state b s)"
    and "b' < unat (sb_size (fs_sb s)) \<Longrightarrow> used (alloc_state b s) b' \<longleftrightarrow> b' = b \<or> used s b'"
    and "free_blocks (alloc_state b s) = free_blocks s - {b}"
    and "fs_view (alloc_state b s) b = zero_block"
    and "k \<noteq> b \<Longrightarrow> k < unat (sb_bmapstart (fs_sb s)) \<or> dstart (fs_sb s) \<le> k \<Longrightarrow>
      fs_view (alloc_state b s) k = fs_view s k"
    and "dstart (fs_sb s) \<le> b" "b < unat (sb_size (fs_sb s))"
proof -
  let ?sb = "fs_sb s"
  have lt: "b < unat (sb_size ?sb)" "\<not> used s b" using b by (auto simp: free_blocks_def)
  have sb: "sb_ok ?sb" using ok by (simp add: fs_ok_def)
  have d: "dstart ?sb \<le> b" using fs_okD(6) [OF ok lt(2)] .
  have ub: "unat (of_nat b :: u32) = b" by (rule unat_of_block [OF ok lt(1)])
  let ?s1 = "fs_log_write (BBLOCK (of_nat b) ?sb) (bm_set (fs_view s (bm_block ?sb b)) (b mod BPB)) s"
  have u: "used (alloc_state b s) b' \<longleftrightarrow> b' = b \<or> used s b'" if "b' < unat (sb_size ?sb)" for b'
    using used_bm_set [OF ok lt(1) that] used_data_write [of ?s1 "of_nat b" b' zero_block] sb d that
    by (simp add: alloc_state_def ub)
  then show "b' < unat (sb_size (fs_sb s)) \<Longrightarrow> used (alloc_state b s) b' \<longleftrightarrow> b' = b \<or> used s b'" .
  show "free_blocks (alloc_state b s) = free_blocks s - {b}" using u by (auto simp: free_blocks_def)
  show "fs_view (alloc_state b s) b = zero_block" by (simp add: alloc_state_def ub)
  show "k \<noteq> b \<Longrightarrow> k < unat (sb_bmapstart (fs_sb s)) \<or> dstart (fs_sb s) \<le> k \<Longrightarrow>
      fs_view (alloc_state b s) k = fs_view s k"
    using BBLOCK_unat [OF sb lt(1)] by (auto simp: alloc_state_def ub)
  have "length (fs_view (alloc_state b s) k) = BSIZE" if "k < fs_nblk s" for k
    using that fs_okD(4) [OF ok] BBLOCK_unat(1) [OF sb lt(1)] by (simp add: alloc_state_def zero_block_def)
  then show "fs_ok (alloc_state b s)"
    using ok u fs_okD(1) [OF ok] by (auto simp: fs_ok_def)
  show "dstart ?sb \<le> b" "b < unat (sb_size ?sb)" using d lt by auto
qed

lemma bfree_ok:
  assumes ok: "fs_ok s" and b: "unat b < unat (sb_size (fs_sb s))" and u: "used s (unat b)"
  shows "bfree 1 b s = Inr (fs_log_write (BBLOCK b (fs_sb s))
    (bm_clear (fs_view s (bm_block (fs_sb s) (unat b))) (unat b mod BPB)) s)"
proof -
  have sb: "sb_ok (fs_sb s)" using ok by (simp add: fs_ok_def)
  have k: "unat (BBLOCK b (fs_sb s)) = bm_block (fs_sb s) (unat b)" "bm_block (fs_sb s) (unat b) < dstart (fs_sb s)"
    using BBLOCK_unat [OF sb b] by simp_all
  then have "fs_bread 1 (BBLOCK b (fs_sb s)) s = Inr (fs_view s (bm_block (fs_sb s) (unat b)))"
    using fs_okD(1,2) [OF ok] by (subst fs_bread_ok) auto
  then show ?thesis using u by (simp add: bfree_def Let_def used_def)
qed

lemma bfree_used_panics:
  assumes ok: "fs_ok s" and b: "unat b < unat (sb_size (fs_sb s))" and u: "\<not> used s (unat b)"
  shows "bfree 1 b s = Inl (Panic ''freeing free block'')"
proof -
  have sb: "sb_ok (fs_sb s)" using ok by (simp add: fs_ok_def)
  have k: "unat (BBLOCK b (fs_sb s)) = bm_block (fs_sb s) (unat b)" "bm_block (fs_sb s) (unat b) < dstart (fs_sb s)"
    using BBLOCK_unat [OF sb b] by simp_all
  then have "fs_bread 1 (BBLOCK b (fs_sb s)) s = Inr (fs_view s (bm_block (fs_sb s) (unat b)))"
    using fs_okD(1,2) [OF ok] by (subst fs_bread_ok) auto
  then show ?thesis using u by (simp add: bfree_def Let_def used_def)
qed

text \<open>The state after block \<open>b\<close> has been freed.\<close>

definition free_state :: "u32 \<Rightarrow> 'd fsys \<Rightarrow> 'd fsys" where
  "free_state b s = fs_log_write (BBLOCK b (fs_sb s))
     (bm_clear (fs_view s (bm_block (fs_sb s) (unat b))) (unat b mod BPB)) s"

lemma free_state_simps [simp]:
  "fs_sb (free_state b s) = fs_sb s" "fs_nblk (free_state b s) = fs_nblk s"
  "fs_icache (free_state b s) = fs_icache s" "fs_dev (free_state b s) = fs_dev s"
  by (simp_all add: free_state_def)

lemma free_state_ok:
  assumes ok: "fs_ok s" and b: "dstart (fs_sb s) \<le> unat b" "unat b < unat (sb_size (fs_sb s))"
  shows "fs_ok (free_state b s)"
    and "b' < unat (sb_size (fs_sb s)) \<Longrightarrow> used (free_state b s) b' \<longleftrightarrow> b' \<noteq> unat b \<and> used s b'"
    and "free_blocks (free_state b s) = insert (unat b) (free_blocks s)"
    and "k < unat (sb_bmapstart (fs_sb s)) \<or> dstart (fs_sb s) \<le> k \<Longrightarrow> fs_view (free_state b s) k = fs_view s k"
proof -
  let ?sb = "fs_sb s"
  have sb: "sb_ok ?sb" using ok by (simp add: fs_ok_def)
  have u: "used (free_state b s) b' \<longleftrightarrow> b' \<noteq> unat b \<and> used s b'" if "b' < unat (sb_size ?sb)" for b'
    using used_bm_clear [OF ok b(2) that] by (simp add: free_state_def)
  then show "b' < unat (sb_size (fs_sb s)) \<Longrightarrow> used (free_state b s) b' \<longleftrightarrow> b' \<noteq> unat b \<and> used s b'" .
  show "free_blocks (free_state b s) = insert (unat b) (free_blocks s)" using u b by (auto simp: free_blocks_def)
  show "k < unat (sb_bmapstart (fs_sb s)) \<or> dstart (fs_sb s) \<le> k \<Longrightarrow> fs_view (free_state b s) k = fs_view s k"
    using BBLOCK_unat [OF sb b(2)] by (auto simp: free_state_def)
  have "length (fs_view (free_state b s) k) = BSIZE" if "k < fs_nblk s" for k
    using that fs_okD(4) [OF ok] BBLOCK_unat(1) [OF sb b(2)] by (simp add: free_state_def)
  then show "fs_ok (free_state b s)"
    using ok u b(1) fs_okD(1) [OF ok] by (auto simp: fs_ok_def)
qed

section \<open>The layout of inodes\<close>

lemma get16_put16_other:
  "off + 2 \<le> length bs \<Longrightarrow> o' + 2 \<le> off \<or> off + 2 \<le> o' \<Longrightarrow> get16 (put16 bs off w) o' = get16 bs o'"
  by (simp add: get16_splice_other put16_def)

lemma get16_put32_other:
  "off + 4 \<le> length bs \<Longrightarrow> o' + 2 \<le> off \<or> off + 4 \<le> o' \<Longrightarrow> get16 (put32 bs off w) o' = get16 bs o'"
  by (simp add: get16_splice_other put32_def)

lemma slice_put32s_other:
  "off + 4 * length ws \<le> length bs \<Longrightarrow> o' + n \<le> off \<or> off + 4 * length ws \<le> o' \<Longrightarrow>
   slice (put32s bs off ws) o' n = slice bs o' n"
proof (induction ws arbitrary: bs off)
  case (Cons w ws)
  then have "slice (put32s (put32 bs off w) (off + 4) ws) o' n = slice (put32 bs off w) o' n"
    by (intro Cons.IH) auto
  also have "\<dots> = slice bs o' n"
    unfolding put32_def using Cons.prems by (intro slice_splice_disjoint) auto
  finally show ?case by simp
qed simp

lemma get16_put32s_below:
  "off + 4 * length ws \<le> length bs \<Longrightarrow> o' + 2 \<le> off \<Longrightarrow> get16 (put32s bs off ws) o' = get16 bs o'"
  by (simp add: get16_def slice_put32s_other)

lemma get_put_dinode:
  assumes "o' + 64 \<le> length b" "length (di_addrs d) = NDIRECT + 1"
  shows "get_dinode (put_dinode d b o') o' = d" "length (put_dinode d b o') = length b"
proof -
  have "get32s (put32s b' (o' + 12) (di_addrs d)) (o' + 12) (NDIRECT + 1) = di_addrs d" if "length b' = length b" for b'
    using get32s_put32s [of "o' + 12" "di_addrs d" b'] assms that by (simp add: xv6_consts)
  then show "get_dinode (put_dinode d b o') o' = d"
    using assms by (simp add: get_dinode_def put_dinode_def get16_put32s_below get32_put32s_below
        get16_put32_other get16_put16_other xv6_consts)
  show "length (put_dinode d b o') = length b" using assms by (simp add: put_dinode_def xv6_consts)
qed

lemma slice_put_dinode_other:
  assumes "o' + 64 \<le> length b" "length (di_addrs d) = NDIRECT + 1" "p + n \<le> o' \<or> o' + 64 \<le> p"
  shows "slice (put_dinode d b o') p n = slice b p n"
proof -
  have "4 * length (di_addrs d) = 52" using assms(2) by (simp add: xv6_consts)
  then show ?thesis
    using assms by (auto simp: put_dinode_def slice_put32s_other put32_def put16_def slice_splice_disjoint)
qed

lemma get_dinode_cong: "slice b p 64 = slice b' p' 64 \<Longrightarrow> get_dinode b p = get_dinode b' p'"
proof -
  assume h: "slice b p 64 = slice b' p' 64"
  have sl: "slice b (p + i) n = slice b' (p' + i) n" if "i + n \<le> 64" for i n
  proof -
    have "slice c (q + i) n = slice (slice c q 64) i n" for c :: "u8 list" and q
      using that by (simp add: slice_def drop_take min_def add.commute)
    then show ?thesis using h by metis
  qed
  have "get32 b (p + i) = get32 b' (p' + i)" if "i + 4 \<le> 64" for i using sl that by (simp add: get32_def)
  moreover have "get16 b (p + i) = get16 b' (p' + i)" if "i + 2 \<le> 64" for i using sl that by (simp add: get16_def)
  moreover have "get16 b p = get16 b' p'" using sl [of 0 2] by (simp add: get16_def)
  moreover have "get32s b (p + 12) (NDIRECT + 1) = get32s b' (p' + 12) (NDIRECT + 1)"
    using calculation(1) by (auto simp: get32s_def xv6_consts add.assoc)
  moreover have "get16 b (p + 2) = get16 b' (p' + 2)" using sl [of 2 2] by (simp add: get16_def)
  ultimately show ?thesis unfolding get_dinode_def by simp
qed

lemma get_put_dinode_other:
  assumes "o' + 64 \<le> length b" "length (di_addrs d) = NDIRECT + 1" "p + 64 \<le> o' \<or> o' + 64 \<le> p"
  shows "get_dinode (put_dinode d b o') p = get_dinode b p"
  using slice_put_dinode_other [OF assms] by (rule get_dinode_cong)

section \<open>The blocks of a file\<close>

text \<open>
  The address of block \<open>k\<close> of a file, 0 where there is none; index \<open>MAXFILE\<close> is the indirect
  block itself. A missing block reads as zeroes.
\<close>

definition faddr :: "(nat \<Rightarrow> block) \<Rightarrow> u32 list \<Rightarrow> nat \<Rightarrow> u32" where
  "faddr v A k =
     (if k < NDIRECT then A ! k
      else if k = MAXFILE then A ! NDIRECT
      else if A ! NDIRECT = 0 then 0 else get32 (v (unat (A ! NDIRECT))) (4 * (k - NDIRECT)))"

definition fb :: "'d fsys \<Rightarrow> nat \<Rightarrow> nat \<Rightarrow> u32" where
  "fb s i k = faddr (fs_view s) (di_addrs (di_of s i)) k"

definition fdata :: "'d fsys \<Rightarrow> nat \<Rightarrow> nat \<Rightarrow> block" where
  "fdata s i k = (if fb s i k = 0 then zero_block else fs_view s (unat (fb s i k)))"

definition own :: "'d fsys \<Rightarrow> nat \<Rightarrow> nat set" where
  "own s i = {unat (fb s i k) | k. k \<le> MAXFILE \<and> fb s i k \<noteq> 0}"

definition file_ok :: "'d fsys \<Rightarrow> nat \<Rightarrow> bool" where
  "file_ok s i \<longleftrightarrow> length (di_addrs (di_of s i)) = NDIRECT + 1 \<and>
     (\<forall>b\<in>own s i. dstart (fs_sb s) \<le> b \<and> b < unat (sb_size (fs_sb s)) \<and> used s b) \<and>
     (\<forall>j\<le>MAXFILE. \<forall>k\<le>MAXFILE. fb s i j \<noteq> 0 \<longrightarrow> fb s i j = fb s i k \<longrightarrow> j = k)"

text \<open>
  What an operation on file \<open>i\<close> leaves alone: every other inode, every metadata block but the free
  map, and every block in use that is not one of the file's own.
\<close>

definition fkeep :: "nat \<Rightarrow> 'd fsys \<Rightarrow> 'd fsys \<Rightarrow> bool" where
  "fkeep i s s' \<longleftrightarrow> fs_sb s' = fs_sb s \<and> fs_nblk s' = fs_nblk s \<and> fs_dev s' = fs_dev s \<and>
     (\<exists>A. fs_icache s' = (fs_icache s)(i := (inode_of s i)\<lparr>i_di := (di_of s i)\<lparr>di_addrs := A\<rparr>\<rparr>)) \<and>
     (\<forall>b<unat (sb_size (fs_sb s)). used s b \<longrightarrow> used s' b) \<and>
     (\<forall>k<unat (sb_bmapstart (fs_sb s)). fs_view s' k = fs_view s k) \<and>
     (\<forall>k. dstart (fs_sb s) \<le> k \<longrightarrow> k < unat (sb_size (fs_sb s)) \<longrightarrow> used s k \<longrightarrow> k \<notin> own s i \<longrightarrow>
       fs_view s' k = fs_view s k) \<and>
     own s' i \<subseteq> own s i \<union> free_blocks s"

lemma fkeep_refl [simp]: "fkeep i s s"
  by (auto simp: fkeep_def intro!: exI [of _ "di_addrs (di_of s i)"])

lemma own_bounds: "file_ok s i \<Longrightarrow> b \<in> own s i \<Longrightarrow> dstart (fs_sb s) \<le> b \<and> b < unat (sb_size (fs_sb s)) \<and> used s b"
  by (simp add: file_ok_def)

lemma fkeep_trans:
  assumes 1: "fkeep i s s1" and 2: "fkeep i s1 s2"
  shows "fkeep i s s2"
proof -
  have sb: "fs_sb s1 = fs_sb s" "fs_sb s2 = fs_sb s" using 1 2 by (auto simp: fkeep_def)
  have "\<exists>A. fs_icache s2 = (fs_icache s)(i := (inode_of s i)\<lparr>i_di := (di_of s i)\<lparr>di_addrs := A\<rparr>\<rparr>)"
    using 1 2 by (auto simp: fkeep_def)
  moreover have "free_blocks s1 \<subseteq> free_blocks s" using 1 sb by (auto simp: fkeep_def free_blocks_def)
  then have "own s2 i \<subseteq> own s i \<union> free_blocks s" using 1 2 unfolding fkeep_def by blast
  moreover have "fs_view s2 k = fs_view s k"
    if "dstart (fs_sb s) \<le> k" "k < unat (sb_size (fs_sb s))" "used s k" "k \<notin> own s i" for k
  proof -
    have "k \<notin> free_blocks s" using that by (simp add: free_blocks_def)
    then have "k \<notin> own s1 i" "used s1 k" using 1 that by (auto simp: fkeep_def)
    then show ?thesis using 1 2 that sb by (simp add: fkeep_def)
  qed
  ultimately show ?thesis using 1 2 by (simp add: fkeep_def)
qed

lemma fb_own: "k \<le> MAXFILE \<Longrightarrow> fb s i k \<noteq> 0 \<Longrightarrow> unat (fb s i k) \<in> own s i"
  by (auto simp: own_def)

lemma file_ok_inj:
  "file_ok s i \<Longrightarrow> j \<le> MAXFILE \<Longrightarrow> k \<le> MAXFILE \<Longrightarrow> fb s i j \<noteq> 0 \<Longrightarrow> fb s i j = fb s i k \<Longrightarrow> j = k"
  unfolding file_ok_def by blast

text \<open>A fresh block \<open>b\<close> becomes block \<open>j\<close> of file \<open>i\<close>.\<close>

lemma attach:
  assumes ok: "fs_ok s" and f: "file_ok s i" and b: "b \<in> free_blocks s"
    and j: "j \<le> MAXFILE" "fb s i j = 0"
    and ic: "fs_icache s' = (fs_icache s)(i := (inode_of s i)\<lparr>i_di := (di_of s i)\<lparr>di_addrs := A\<rparr>\<rparr>)"
    and A: "length A = NDIRECT + 1"
    and eq: "fs_sb s' = fs_sb s" "fs_nblk s' = fs_nblk s" "fs_dev s' = fs_dev s"
    and all_fb: "\<forall>k\<le>MAXFILE. fb s' i k = (if k = j then of_nat b else fb s i k)"
    and all_view: "\<forall>k. fb s i MAXFILE = 0 \<or> k \<noteq> unat (fb s i MAXFILE) \<longrightarrow> fs_view s' k = fs_view (alloc_state b s) k"
    and len: "\<forall>k<fs_nblk s. length (fs_view s' k) = BSIZE"
  shows "fs_ok s'" "file_ok s' i" "fkeep i s s'" "free_blocks s' = free_blocks s - {b}"
    "k < MAXFILE \<Longrightarrow> fdata s' i k = fdata s i k"
    "k \<le> MAXFILE \<Longrightarrow> fb s i k \<noteq> 0 \<Longrightarrow> fb s' i k = fb s i k"
proof -
  let ?sb = "fs_sb s"
  note fb' = all_fb [rule_format] and view = all_view [rule_format]
  note al = alloc_state_ok [OF ok b]
  have sb: "sb_ok ?sb" using ok by (simp add: fs_ok_def)
  have ub: "unat (of_nat b :: u32) = b" by (rule unat_of_block [OF ok al(7)])
  have nb: "b \<notin> own s i" using own_bounds [OF f, of b] b by (auto simp: free_blocks_def)
  show "k \<le> MAXFILE \<Longrightarrow> fb s i k \<noteq> 0 \<Longrightarrow> fb s' i k = fb s i k" using fb' [of k] j(2) by auto
  have "0 < dstart ?sb" using sb by (simp add: sb_ok_def dstart_def)
  then have b0: "(of_nat b :: u32) \<noteq> 0" using al(6) ub by (metis le_zero_eq neq0_conv unat_0)
  have us: "used s' k = used (alloc_state b s) k" if k: "k < unat (sb_size ?sb)" for k
  proof -
    have "bm_block ?sb k < dstart ?sb" using BBLOCK_unat(2) [OF sb k] .
    moreover have "fb s i MAXFILE \<noteq> 0 \<Longrightarrow> dstart ?sb \<le> unat (fb s i MAXFILE)"
      using own_bounds [OF f fb_own] by simp
    ultimately have "fs_view s' (bm_block ?sb k) = fs_view (alloc_state b s) (bm_block ?sb k)"
      by (intro view) auto
    then show ?thesis by (simp add: used_def eq)
  qed
  have us': "used s' k \<longleftrightarrow> k = b \<or> used s k" if "k < unat (sb_size ?sb)" for k using us al(2) that by simp
  show "fs_ok s'" using ok us' len fs_okD(1) [OF ok] by (auto simp: fs_ok_def eq)
  show fr: "free_blocks s' = free_blocks s - {b}" using us' by (auto simp: free_blocks_def eq)
  have own': "own s' i = insert b (own s i)"
  proof (rule set_eqI)
    fix x
    show "x \<in> own s' i \<longleftrightarrow> x \<in> insert b (own s i)"
    proof
      assume "x \<in> own s' i"
      then obtain k where "k \<le> MAXFILE" "x = unat (fb s' i k)" "fb s' i k \<noteq> 0" by (auto simp: own_def)
      then show "x \<in> insert b (own s i)" using fb' [of k] ub by (auto simp: own_def split: if_splits)
    next
      assume "x \<in> insert b (own s i)"
      then consider "x = b" | k where "k \<le> MAXFILE" "x = unat (fb s i k)" "fb s i k \<noteq> 0" by (auto simp: own_def)
      then show "x \<in> own s' i"
      proof cases
        case 1
        then have "x = unat (fb s' i j)" "fb s' i j \<noteq> 0" using fb' [OF j(1)] ub b0 by auto
        then show ?thesis using j(1) by (auto simp: own_def)
      next
        case 2
        then have "x = unat (fb s' i k)" "fb s' i k \<noteq> 0" using fb' [of k] j(2) by auto
        then show ?thesis using 2(1) by (auto simp: own_def)
      qed
    qed
  qed
  have fbn: "fb s i k \<noteq> of_nat b" if "k \<le> MAXFILE" for k
    using fb_own [OF that, of s i] nb ub b0 by (metis)
  have "j1 = k1" if "j1 \<le> MAXFILE" "k1 \<le> MAXFILE" "fb s' i j1 \<noteq> 0" "fb s' i j1 = fb s' i k1" for j1 k1
    using that fb' [OF that(1)] fb' [OF that(2)] fbn [OF that(1)] fbn [OF that(2)] file_ok_inj [OF f that(1,2)]
    by (metis (full_types))
  moreover have "dstart ?sb \<le> x \<and> x < unat (sb_size ?sb) \<and> used s' x" if "x \<in> own s' i" for x
    using that own_bounds [OF f, of x] al(6,7) us' [of x] unfolding own' by auto
  moreover have "di_addrs (di_of s' i) = A" by (simp add: ic)
  ultimately show "file_ok s' i" using A by (simp add: file_ok_def eq)
  have keep: "fs_view s' k = fs_view s k"
    if "k < unat (sb_bmapstart ?sb) \<or> dstart ?sb \<le> k" "k \<noteq> b" "fb s i MAXFILE = 0 \<or> k \<noteq> unat (fb s i MAXFILE)" for k
    using view [OF that(3)] al(5) [OF that(2,1)] by simp
  have ind: "fb s i MAXFILE = 0 \<or> unat (fb s i MAXFILE) \<in> own s i" using fb_own [of MAXFILE s i] by auto
  have "fs_view s' k = fs_view s k" if "k < unat (sb_bmapstart ?sb)" for k
  proof (rule keep)
    have kd: "k < dstart ?sb" using that by (simp add: dstart_def)
    then show "k \<noteq> b" using al(6) by simp
    show "fb s i MAXFILE = 0 \<or> k \<noteq> unat (fb s i MAXFILE)" using ind kd own_bounds [OF f] by fastforce
  qed (use that in simp)
  moreover have "fs_view s' k = fs_view s k" if "dstart ?sb \<le> k" "used s k" "k \<notin> own s i" for k
    using that b ind by (intro keep) (auto simp: free_blocks_def)
  moreover have "\<exists>A. fs_icache s' = (fs_icache s)(i := (inode_of s i)\<lparr>i_di := (di_of s i)\<lparr>di_addrs := A\<rparr>\<rparr>)"
    using ic by blast
  ultimately show "fkeep i s s'" using own' us' b by (simp add: fkeep_def eq)
  show "k < MAXFILE \<Longrightarrow> fdata s' i k = fdata s i k"
  proof -
    assume k: "k < MAXFILE"
    show ?thesis
    proof (cases "k = j")
      case True
      have "b \<noteq> unat (fb s i MAXFILE) \<or> fb s i MAXFILE = 0" using ind nb by auto
      then have "fs_view s' b = zero_block" using view al(4) by auto
      then show ?thesis using fb' [OF j(1)] True j(2) ub b0 by (simp add: fdata_def)
    next
      case False
      then have e: "fb s' i k = fb s i k" using fb' [of k] k by simp
      have "fs_view s' (unat (fb s i k)) = fs_view s (unat (fb s i k))" if nz: "fb s i k \<noteq> 0"
      proof (rule keep)
        have o: "unat (fb s i k) \<in> own s i" using fb_own [of k s i] k nz by simp
        then show "unat (fb s i k) < unat (sb_bmapstart ?sb) \<or> dstart ?sb \<le> unat (fb s i k)" using own_bounds [OF f] by blast
        show "unat (fb s i k) \<noteq> b" using o nb by auto
        show "fb s i MAXFILE = 0 \<or> unat (fb s i k) \<noteq> unat (fb s i MAXFILE)"
          using file_ok_inj [OF f, of k MAXFILE] k nz by (auto dest: unsigned_word_eqI)
      qed
      then show ?thesis by (simp add: fdata_def e)
    qed
  qed
qed

lemma bmap_present:
  assumes f: "file_ok s i" and ok: "fs_ok s" and dev: "i_dev (inode_of s i) = 1"
    and bn: "bn < MAXFILE" "fb s i bn \<noteq> 0"
  shows "bmap i bn s = Inr (fb s i bn, s)"
proof (cases "bn < NDIRECT")
  case True
  then show ?thesis using bn by (simp add: bmap_def fb_def faddr_def Let_def)
next
  case False
  then have ind: "fb s i MAXFILE \<noteq> 0" "di_addrs (di_of s i) ! NDIRECT = fb s i MAXFILE"
    using bn by (auto simp: fb_def faddr_def xv6_consts split: if_splits)
  then have "unat (fb s i MAXFILE) < fs_nblk s"
    using own_bounds [OF f fb_own] fs_okD(2) [OF ok] by (meson le_trans less_le_not_le not_le order_refl)
  then show ?thesis
    using False bn ind dev by (simp add: bmap_def Let_def fb_def faddr_def xv6_consts)
qed

abbreviation no_ind :: "'d fsys \<Rightarrow> nat \<Rightarrow> nat" where
  "no_ind s i \<equiv> (if fb s i MAXFILE = 0 then 1 else 0)"

text \<open>\<open>bmap\<close> adds at most the block itself and the indirect block, and no byte of the file changes.\<close>

definition bmap_post :: "nat \<Rightarrow> 'd fsys \<Rightarrow> 'd fsys \<Rightarrow> bool" where
  "bmap_post i s s' \<longleftrightarrow> fs_ok s' \<and> file_ok s' i \<and> fkeep i s s' \<and> (\<forall>k<MAXFILE. fdata s' i k = fdata s i k) \<and>
     (\<forall>k\<le>MAXFILE. fb s i k \<noteq> 0 \<longrightarrow> fb s' i k = fb s i k)"

lemma bmap_post_trans: "bmap_post i s s1 \<Longrightarrow> bmap_post i s1 s2 \<Longrightarrow> bmap_post i s s2"
  unfolding bmap_post_def using fkeep_trans by auto

lemma di_addrs_upd: "di_addrs (di_of (upd_di i f s) i) = di_addrs (f (di_of s i))"
  by (simp add: upd_di_def)

lemma bmap_direct:
  assumes ok: "fs_ok s" and f: "file_ok s i" and bn: "bn < NDIRECT" "fb s i bn = 0" and b: "b \<in> free_blocks s"
  defines "s' \<equiv> upd_di i (\<lambda>d. d\<lparr>di_addrs := (di_addrs d)[bn := of_nat b]\<rparr>) (alloc_state b s)"
  shows "bmap_post i s s'" "fb s' i bn = of_nat b" "fb s' i MAXFILE = fb s i MAXFILE"
    "free_blocks s' = free_blocks s - {b}"
proof -
  let ?A = "di_addrs (di_of s i)"
  have lA: "length ?A = NDIRECT + 1" using f by (simp add: file_ok_def)
  note al = alloc_state_ok [OF ok b]
  have A': "di_addrs (di_of s' i) = ?A[bn := of_nat b]" by (simp add: s'_def upd_di_def)
  have v: "fs_view s' = fs_view (alloc_state b s)" by (simp add: s'_def upd_di_def)
  have ind: "fs_view (alloc_state b s) (unat (?A ! NDIRECT)) = fs_view s (unat (?A ! NDIRECT))" if "?A ! NDIRECT \<noteq> 0"
  proof -
    have "fb s i MAXFILE = ?A ! NDIRECT" by (simp add: fb_def faddr_def xv6_consts)
    then have "unat (?A ! NDIRECT) \<in> own s i" using fb_own [of MAXFILE s i] that by simp
    then show ?thesis using own_bounds [OF f, of "unat (?A ! NDIRECT)"] b by (intro al(5)) (auto simp: free_blocks_def)
  qed
  have nd: "NDIRECT \<noteq> bn" using bn(1) by simp
  have fb': "fb s' i k = (if k = bn then of_nat b else fb s i k)" if "k \<le> MAXFILE" for k
    unfolding fb_def A' v faddr_def using lA bn nd ind by (auto simp: xv6_consts nth_list_update)
  then have all_fb: "\<forall>k\<le>MAXFILE. fb s' i k = (if k = bn then of_nat b else fb s i k)" by blast
  have bm: "bn \<le> MAXFILE" using bn(1) by (simp add: xv6_consts)
  have ic: "fs_icache s' = (fs_icache s)(i := (inode_of s i)\<lparr>i_di := (di_of s i)\<lparr>di_addrs := ?A[bn := of_nat b]\<rparr>\<rparr>)"
    by (simp add: s'_def upd_di_def)
  have eq: "length (?A[bn := of_nat b]) = NDIRECT + 1" "fs_sb s' = fs_sb s" "fs_nblk s' = fs_nblk s" "fs_dev s' = fs_dev s"
    using lA by (simp_all add: s'_def upd_di_def)
  have vo: "\<forall>k. fb s i MAXFILE = 0 \<or> k \<noteq> unat (fb s i MAXFILE) \<longrightarrow> fs_view s' k = fs_view (alloc_state b s) k"
    using v by simp
  have len: "\<forall>k<fs_nblk s. length (fs_view s' k) = BSIZE" using fs_okD(4) [OF al(1)] v by simp
  note at = attach [OF ok f b bm bn(2) ic eq all_fb vo len]
  show "bmap_post i s s'" unfolding bmap_post_def using at by blast
  show "free_blocks s' = free_blocks s - {b}" using at by blast
  show "fb s' i bn = of_nat b" "fb s' i MAXFILE = fb s i MAXFILE" using fb' bn(1) bm by (auto simp: xv6_consts)
qed

lemma bmap_indirect:
  assumes ok: "fs_ok s" and f: "file_ok s i" and no: "fb s i MAXFILE = 0" and b: "b \<in> free_blocks s"
  defines "s' \<equiv> upd_di i (\<lambda>d. d\<lparr>di_addrs := (di_addrs d)[NDIRECT := of_nat b]\<rparr>) (alloc_state b s)"
  shows "bmap_post i s s'" "fb s' i MAXFILE = of_nat b"
    "free_blocks s' = free_blocks s - {b}" "bn < MAXFILE \<Longrightarrow> fb s' i bn = fb s i bn"
proof -
  let ?A = "di_addrs (di_of s i)"
  have lA: "length ?A = NDIRECT + 1" using f by (simp add: file_ok_def)
  note al = alloc_state_ok [OF ok b]
  have ub: "unat (of_nat b :: u32) = b" by (rule unat_of_block [OF ok al(7)])
  have A0: "?A ! NDIRECT = 0" using no by (simp add: fb_def faddr_def xv6_consts)
  have A': "di_addrs (di_of s' i) = ?A[NDIRECT := of_nat b]" by (simp add: s'_def upd_di_def)
  have v: "fs_view s' = fs_view (alloc_state b s)" by (simp add: s'_def upd_di_def)
  have z: "get32 zero_block (4 * (k - NDIRECT)) = 0" if "k < MAXFILE" for k
  proof -
    have "slice zero_block (4 * (k - NDIRECT)) 4 = replicate 4 0"
      using that by (simp add: slice_def zero_block_def xv6_consts)
    then show ?thesis by (simp add: get32_def dec32_def numeral_eq_Suc)
  qed
  have fb': "fb s' i k = (if k = MAXFILE then of_nat b else fb s i k)" if "k \<le> MAXFILE" for k
    unfolding fb_def A' v faddr_def using lA A0 z [of k] that al(4) ub
    by (auto simp: xv6_consts nth_list_update)
  then have all_fb: "\<forall>k\<le>MAXFILE. fb s' i k = (if k = MAXFILE then of_nat b else fb s i k)" by blast
  have ic: "fs_icache s' = (fs_icache s)(i := (inode_of s i)\<lparr>i_di := (di_of s i)\<lparr>di_addrs := ?A[NDIRECT := of_nat b]\<rparr>\<rparr>)"
    by (simp add: s'_def upd_di_def)
  have eq: "length (?A[NDIRECT := of_nat b]) = NDIRECT + 1" "fs_sb s' = fs_sb s" "fs_nblk s' = fs_nblk s" "fs_dev s' = fs_dev s"
    using lA by (simp_all add: s'_def upd_di_def)
  have vo: "\<forall>k. fb s i MAXFILE = 0 \<or> k \<noteq> unat (fb s i MAXFILE) \<longrightarrow> fs_view s' k = fs_view (alloc_state b s) k"
    using v by simp
  have len: "\<forall>k<fs_nblk s. length (fs_view s' k) = BSIZE" using fs_okD(4) [OF al(1)] v by simp
  note at = attach [OF ok f b order_refl no ic eq all_fb vo len]
  show "bmap_post i s s'" unfolding bmap_post_def using at by blast
  show "free_blocks s' = free_blocks s - {b}" using at by blast
  show "fb s' i MAXFILE = of_nat b" "bn < MAXFILE \<Longrightarrow> fb s' i bn = fb s i bn" using fb' by auto
qed

lemma bmap_entry:
  assumes ok: "fs_ok s" and f: "file_ok s i" and ind: "fb s i MAXFILE \<noteq> 0" and bn: "bn < NINDIRECT"
    and no: "fb s i (NDIRECT + bn) = 0" and b: "b \<in> free_blocks s"
  defines "s' \<equiv> fs_log_write (fb s i MAXFILE) (put32 (fs_view s (unat (fb s i MAXFILE))) (4 * bn) (of_nat b)) (alloc_state b s)"
  shows "bmap_post i s s'" "fb s' i (NDIRECT + bn) = of_nat b" "fb s' i MAXFILE = fb s i MAXFILE"
    "free_blocks s' = free_blocks s - {b}"
proof -
  let ?A = "di_addrs (di_of s i)" let ?ind = "fb s i MAXFILE"
  have lA: "length ?A = NDIRECT + 1" using f by (simp add: file_ok_def)
  note al = alloc_state_ok [OF ok b]
  have Ai: "?A ! NDIRECT = ?ind" by (simp add: fb_def faddr_def xv6_consts)
  have "unat ?ind \<in> own s i" using fb_own [of MAXFILE s i] ind by simp
  then have ib: "dstart (fs_sb s) \<le> unat ?ind" "unat ?ind < unat (sb_size (fs_sb s))" "used s (unat ?ind)"
    using own_bounds [OF f] by auto
  then have li: "length (fs_view s (unat ?ind)) = BSIZE" using fs_okD(2,4) [OF ok] by simp
  have v: "fs_view s' = (fs_view (alloc_state b s))(unat ?ind := put32 (fs_view s (unat ?ind)) (4 * bn) (of_nat b))"
    by (simp add: s'_def)
  have A': "di_addrs (di_of s' i) = ?A" by (simp add: s'_def)
  have b4: "4 * bn + 4 \<le> BSIZE" using bn by (simp add: xv6_consts)
  have o4: "4 * (k - NDIRECT) + 4 \<le> 4 * bn \<or> 4 * bn + 4 \<le> 4 * (k - NDIRECT)" if "k \<noteq> NDIRECT + bn" "NDIRECT \<le> k" for k
    using that by arith
  have bm: "NDIRECT + bn \<le> MAXFILE" "NDIRECT + bn < MAXFILE" using bn by (simp_all add: xv6_consts)
  have nl: "\<not> k < NDIRECT \<Longrightarrow> NDIRECT \<le> k" for k by simp
  have fb': "fb s' i k = (if k = NDIRECT + bn then of_nat b else fb s i k)" if "k \<le> MAXFILE" for k
    unfolding fb_def A' v faddr_def using Ai ind bm li b4 o4 [of k] nl [of k]
    by (auto simp: get32_put32_other)
  then have all_fb: "\<forall>k\<le>MAXFILE. fb s' i k = (if k = NDIRECT + bn then of_nat b else fb s i k)" by blast
  have ic: "fs_icache s' = (fs_icache s)(i := (inode_of s i)\<lparr>i_di := (di_of s i)\<lparr>di_addrs := ?A\<rparr>\<rparr>)"
    by (simp add: s'_def)
  have eq: "fs_sb s' = fs_sb s" "fs_nblk s' = fs_nblk s" "fs_dev s' = fs_dev s"
    by (simp_all add: s'_def)
  have len: "\<forall>k<fs_nblk s. length (fs_view s' k) = BSIZE"
    using fs_okD(4) [OF al(1)] li b4 by (simp add: v)
  have vo: "\<forall>k. ?ind = 0 \<or> k \<noteq> unat ?ind \<longrightarrow> fs_view s' k = fs_view (alloc_state b s) k"
    using ind by (simp add: v)
  note at = attach [OF ok f b bm(1) no ic lA eq all_fb vo len]
  show "bmap_post i s s'" unfolding bmap_post_def using at by blast
  show "free_blocks s' = free_blocks s - {b}" using at by blast
  show "fb s' i (NDIRECT + bn) = of_nat b" "fb s' i MAXFILE = fb s i MAXFILE" using fb' bm by auto
qed

lemma of_block_nz: "fs_ok s \<Longrightarrow> b \<in> free_blocks s \<Longrightarrow> (of_nat b :: u32) \<noteq> 0"
proof -
  assume ok: "fs_ok s" and b: "b \<in> free_blocks s"
  have "unat (of_nat b :: u32) = b" by (rule unat_of_block [OF ok alloc_state_ok(7) [OF ok b]])
  moreover have "0 < dstart (fs_sb s)" using ok by (simp add: fs_ok_def sb_ok_def dstart_def)
  ultimately show ?thesis using alloc_state_ok(6) [OF ok b] by (metis le_zero_eq neq0_conv unat_0)
qed

text \<open>
  The blocks an operation logs, besides blocks of the free map; the logged writes are all the
  changes of the disk.
\<close>

definition wr_of :: "(u32 \<times> block) list \<Rightarrow> (nat \<times> block) list" where
  "wr_of w = map (\<lambda>x. (unat (fst x), snd x)) w"

definition logs :: "nat set \<Rightarrow> 'd fsys \<Rightarrow> 'd fsys \<Rightarrow> bool" where
  "logs B s s' \<longleftrightarrow> (\<exists>w. fs_wlog s' = fs_wlog s @ w \<and> fs_view s' = apply_writes (wr_of w) (fs_view s) \<and>
     (\<forall>x\<in>set w. unat (fst x) \<in> B \<or> (unat (sb_bmapstart (fs_sb s)) \<le> unat (fst x) \<and> unat (fst x) < dstart (fs_sb s))))"

lemma logs_refl [simp]: "logs B s s" by (simp add: logs_def wr_of_def)

lemma logs_trans: "logs B s s1 \<Longrightarrow> logs B s1 s2 \<Longrightarrow> fs_sb s1 = fs_sb s \<Longrightarrow> logs B s s2"
  unfolding logs_def
proof (elim exE conjE)
  fix v w
  assume v: "fs_wlog s1 = fs_wlog s @ v" "fs_view s1 = apply_writes (wr_of v) (fs_view s)"
    "\<forall>x\<in>set v. unat (fst x) \<in> B \<or> (unat (sb_bmapstart (fs_sb s)) \<le> unat (fst x) \<and> unat (fst x) < dstart (fs_sb s))"
    and w: "fs_wlog s2 = fs_wlog s1 @ w" "fs_view s2 = apply_writes (wr_of w) (fs_view s1)"
    "\<forall>x\<in>set w. unat (fst x) \<in> B \<or> (unat (sb_bmapstart (fs_sb s1)) \<le> unat (fst x) \<and> unat (fst x) < dstart (fs_sb s1))"
    and sb: "fs_sb s1 = fs_sb s"
  have "fs_wlog s2 = fs_wlog s @ (v @ w)" "fs_view s2 = apply_writes (wr_of (v @ w)) (fs_view s)"
    using v(1,2) w(1,2) by (simp_all add: wr_of_def)
  moreover have "\<forall>x\<in>set (v @ w). unat (fst x) \<in> B \<or> (unat (sb_bmapstart (fs_sb s)) \<le> unat (fst x) \<and> unat (fst x) < dstart (fs_sb s))"
    using v(3) w(3) unfolding sb by (simp add: ball_Un)
  ultimately show "\<exists>w. fs_wlog s2 = fs_wlog s @ w \<and> fs_view s2 = apply_writes (wr_of w) (fs_view s) \<and>
     (\<forall>x\<in>set w. unat (fst x) \<in> B \<or> (unat (sb_bmapstart (fs_sb s)) \<le> unat (fst x) \<and> unat (fst x) < dstart (fs_sb s)))"
    by blast
qed

lemma logs_mono: "logs B s s' \<Longrightarrow> B \<subseteq> C \<Longrightarrow> logs C s s'"
  unfolding logs_def by blast

lemma logs_write: "unat k \<in> B \<Longrightarrow> logs B s (fs_log_write k d s)"
  unfolding logs_def by (rule exI [of _ "[(k, d)]"]) (simp add: wr_of_def)

lemma logs_write_map:
  "unat (sb_bmapstart (fs_sb s)) \<le> unat k \<Longrightarrow> unat k < dstart (fs_sb s) \<Longrightarrow> logs B s (fs_log_write k d s)"
  unfolding logs_def by (rule exI [of _ "[(k, d)]"]) (simp add: wr_of_def)

lemma logs_alloc:
  assumes "fs_ok s" "b \<in> free_blocks s" "b \<in> B"
  shows "logs B s (alloc_state b s)"
proof -
  have sb: "sb_ok (fs_sb s)" using assms(1) by (simp add: fs_ok_def)
  have lt: "b < unat (sb_size (fs_sb s))" using alloc_state_ok(7) [OF assms(1,2)] .
  have "logs B s (fs_log_write (BBLOCK (of_nat b) (fs_sb s)) (bm_set (fs_view s (bm_block (fs_sb s) b)) (b mod BPB)) s)"
    using BBLOCK_unat [OF sb lt] by (intro logs_write_map) simp_all
  then show ?thesis
    unfolding alloc_state_def by (rule logs_trans) (use unat_of_block [OF assms(1) lt] assms(3) in \<open>auto intro: logs_write\<close>)
qed

lemma logs_upd_di [simp]: "logs B s (upd_di i f s') = logs B s s'"
  by (simp add: logs_def upd_di_def)

lemma bmap_post_refl: "fs_ok s \<Longrightarrow> file_ok s i \<Longrightarrow> bmap_post i s s"
  by (simp add: bmap_post_def)

lemma card_free_minus: "b \<in> free_blocks s \<Longrightarrow> card (free_blocks s - {b}) + 1 = card (free_blocks s)"
  by (metis Suc_eq_plus1 card_Suc_Diff1 finite_free)

definition ind_set :: "'d fsys \<Rightarrow> nat \<Rightarrow> nat set" where
  "ind_set s i = (if fb s i MAXFILE = 0 then {} else {unat (fb s i MAXFILE)})"

lemma bmap_ok:
  assumes ok: "fs_ok s" and f: "file_ok s i" and dev: "i_dev (inode_of s i) = 1" and bn: "bn < MAXFILE"
    and free: "1 + no_ind s i \<le> card (free_blocks s)"
  shows "\<exists>s'. bmap i bn s = Inr (fb s' i bn, s') \<and> fb s' i bn \<noteq> 0 \<and> bmap_post i s s' \<and>
    card (free_blocks s) + no_ind s' i \<le> card (free_blocks s') + 1 + no_ind s i \<and>
    logs (insert (unat (fb s' i bn)) (ind_set s' i)) s s'"
proof (cases "fb s i bn = 0")
  case False
  then show ?thesis using bmap_present [OF f ok dev bn] bmap_post_refl [OF ok f] by (intro exI [of _ s]) simp
next
  case no: True
  have ne: "free_blocks s \<noteq> {}" using free by (metis add_is_0 card.empty le_zero_eq zero_neq_one)
  then obtain b where b: "balloc 1 s = Inr (of_nat b, alloc_state b s)" "b \<in> free_blocks s" using balloc_ok [OF ok] by blast
  have lt: "b < unat (sb_size (fs_sb s))" using alloc_state_ok(7) [OF ok b(2)] .
  have ub: "unat (of_nat b :: u32) = b" by (rule unat_of_block [OF ok lt])
  note nz = of_block_nz [OF ok b(2)]
  show ?thesis
  proof (cases "bn < NDIRECT")
    case True
    let ?s = "upd_di i (\<lambda>d. d\<lparr>di_addrs := (di_addrs d)[bn := of_nat b]\<rparr>) (alloc_state b s)"
    note p = bmap_direct [OF ok f True no b(2)]
    have "bmap i bn s = Inr (of_nat b, ?s)"
      using True no b(1) dev by (simp add: bmap_def fb_def faddr_def Let_def)
    then show ?thesis
      using p nz card_free_minus [OF b(2)] logs_alloc [OF ok b(2)] ub
      by (intro exI [of _ ?s]) simp
  next
    case False
    define m where "m = bn - NDIRECT"
    have m: "m < NINDIRECT" "bn = NDIRECT + m" using False bn by (auto simp: m_def xv6_consts)
    have entry: "\<exists>s'. (andthen (fs_bread 1 (fb s1 i MAXFILE) s1) (\<lambda>bp.
          let addr = get32 bp (4 * m)
          in if addr = 0 then andthen (balloc 1 s1) (\<lambda>(addr, s). Inr (addr, fs_log_write (fb s1 i MAXFILE) (put32 bp (4 * m) addr) s))
             else Inr (addr, s1))) = Inr (fb s' i bn, s') \<and> fb s' i bn \<noteq> 0 \<and> bmap_post i s1 s' \<and>
        fb s' i MAXFILE = fb s1 i MAXFILE \<and> card (free_blocks s1) = card (free_blocks s') + 1 \<and>
        logs {unat (fb s' i bn), unat (fb s' i MAXFILE)} s1 s'"
      if ok1: "fs_ok s1" and f1: "file_ok s1 i" and i1: "fb s1 i MAXFILE \<noteq> 0" and n1: "fb s1 i bn = 0"
        and ne1: "free_blocks s1 \<noteq> {}" for s1 :: "'a fsys"
    proof -
      obtain c where c: "balloc 1 s1 = Inr (of_nat c, alloc_state c s1)" "c \<in> free_blocks s1"
        using balloc_ok [OF ok1 ne1] by blast
      have uc: "unat (of_nat c :: u32) = c" by (rule unat_of_block [OF ok1 alloc_state_ok(7) [OF ok1 c(2)]])
      let ?i = "fb s1 i MAXFILE"
      let ?s = "fs_log_write ?i (put32 (fs_view s1 (unat ?i)) (4 * m) (of_nat c)) (alloc_state c s1)"
      note p = bmap_entry [OF ok1 f1 i1 m(1) _ c(2), folded m(2), OF n1]
      have "unat ?i < fs_nblk s1"
        using own_bounds [OF f1 fb_own [OF order_refl i1]] fs_okD(2) [OF ok1] by simp
      then have rd: "fs_bread 1 ?i s1 = Inr (fs_view s1 (unat ?i))" by simp
      have "get32 (fs_view s1 (unat ?i)) (4 * m) = 0"
        using n1 i1 m bn by (simp add: fb_def faddr_def xv6_consts split: if_splits)
      moreover have "logs {unat (fb ?s i bn), unat (fb ?s i MAXFILE)} s1 ?s"
        using logs_trans [OF logs_alloc [OF ok1 c(2), of "{c, unat ?i}"] logs_write [of ?i "{c, unat ?i}"]] p(2,3) uc
        by simp
      ultimately show ?thesis
        using p of_block_nz [OF ok1 c(2)] card_free_minus [OF c(2)] rd c(1)
        by (intro exI [of _ ?s]) (simp add: Let_def)
    qed
    have Ai: "di_addrs (di_of s i) ! NDIRECT = fb s i MAXFILE" by (simp add: fb_def faddr_def xv6_consts)
    note nd = False
    show ?thesis
    proof (cases "fb s i MAXFILE = 0")
      case False
      from entry [OF ok f False no ne] obtain s' where s': "andthen (fs_bread 1 (fb s i MAXFILE) s) (\<lambda>bp.
          let addr = get32 bp (4 * m)
          in if addr = 0 then andthen (balloc 1 s) (\<lambda>(addr, s'). Inr (addr, fs_log_write (fb s i MAXFILE) (put32 bp (4 * m) addr) s'))
             else Inr (addr, s)) = Inr (fb s' i bn, s')" "fb s' i bn \<noteq> 0" "bmap_post i s s'"
          "fb s' i MAXFILE = fb s i MAXFILE" "card (free_blocks s) = card (free_blocks s') + 1"
          "logs {unat (fb s' i bn), unat (fb s' i MAXFILE)} s s'" by blast
      have "bmap i bn s = Inr (fb s' i bn, s')"
        using s'(1) False nd m(1) unfolding bmap_def Let_def dev Ai m_def [symmetric] by simp
      then show ?thesis using s' False by (intro exI [of _ s']) (simp add: ind_set_def)
    next
      case i0: True
      let ?s1 = "upd_di i (\<lambda>d. d\<lparr>di_addrs := (di_addrs d)[NDIRECT := of_nat b]\<rparr>) (alloc_state b s)"
      note p = bmap_indirect [OF ok f i0 b(2)]
      have post: "fs_ok ?s1" "file_ok ?s1 i" "fs_sb ?s1 = fs_sb s" using p(1) by (auto simp: bmap_post_def fkeep_def)
      have c1: "1 \<le> card (free_blocks ?s1)" using p(3) card_free_minus [OF b(2)] free i0 by simp
      then have ne1: "free_blocks ?s1 \<noteq> {}" by force
      have i1: "fb ?s1 i MAXFILE \<noteq> 0" using p(2) nz by simp
      have n1: "fb ?s1 i bn = 0" using p(4) bn no by simp
      from entry [OF post(1,2) i1 n1 ne1] obtain s' where s': "andthen (fs_bread 1 (fb ?s1 i MAXFILE) ?s1) (\<lambda>bp.
          let addr = get32 bp (4 * m)
          in if addr = 0 then andthen (balloc 1 ?s1) (\<lambda>(addr, s). Inr (addr, fs_log_write (fb ?s1 i MAXFILE) (put32 bp (4 * m) addr) s))
             else Inr (addr, ?s1)) = Inr (fb s' i bn, s')" "fb s' i bn \<noteq> 0" "bmap_post i ?s1 s'"
          "fb s' i MAXFILE = fb ?s1 i MAXFILE" "card (free_blocks ?s1) = card (free_blocks s') + 1"
          "logs {unat (fb s' i bn), unat (fb s' i MAXFILE)} ?s1 s'" by blast
      have "bmap i bn s = Inr (fb s' i bn, s')"
        using s'(1) [unfolded p(2)] nd m(1) i0 b(1) unfolding bmap_def Let_def dev Ai m_def [symmetric] by simp
      moreover have "logs {unat (fb s' i bn), unat (fb s' i MAXFILE)} s s'"
        using logs_trans [OF _ s'(6) post(3)] logs_alloc [OF ok b(2), of "{unat (fb s' i bn), unat (fb s' i MAXFILE)}"]
          s'(4) p(2) ub by simp
      ultimately show ?thesis
        using s' bmap_post_trans [OF p(1) s'(3)] p(2,3) nz card_free_minus [OF b(2)] i0
        by (intro exI [of _ s']) (simp add: ind_set_def)
    qed
  qed
qed

section \<open>The bytes of a file\<close>

definition fbyte :: "'d fsys \<Rightarrow> nat \<Rightarrow> nat \<Rightarrow> u8" where
  "fbyte s i x = fdata s i (x div BSIZE) ! (x mod BSIZE)"

definition contents :: "'d fsys \<Rightarrow> nat \<Rightarrow> u8 list" where
  "contents s i = map (fbyte s i) [0..<unat (di_size (di_of s i))]"

text \<open>No block of the range is missing.\<close>

definition present :: "'d fsys \<Rightarrow> nat \<Rightarrow> nat \<Rightarrow> nat \<Rightarrow> bool" where
  "present s i off n \<longleftrightarrow> (\<forall>x. off \<le> x \<and> x < off + n \<longrightarrow> x div BSIZE < MAXFILE \<and> fb s i (x div BSIZE) \<noteq> 0)"

lemma BSIZE_pos [simp]: "0 < BSIZE" by (simp add: BSIZE_def)

lemma chunk_bounds:
  "0 < n \<Longrightarrow> 0 < min n (BSIZE - off mod BSIZE)" "off mod BSIZE + min n (BSIZE - off mod BSIZE) \<le> BSIZE"
  "min n (BSIZE - off mod BSIZE) \<le> n"
proof -
  have "off mod BSIZE < BSIZE" by simp
  then show "0 < n \<Longrightarrow> 0 < min n (BSIZE - off mod BSIZE)" "off mod BSIZE + min n (BSIZE - off mod BSIZE) \<le> BSIZE"
    "min n (BSIZE - off mod BSIZE) \<le> n"
    by linarith+
qed

lemma same_block:
  assumes "off mod BSIZE + x < BSIZE"
  shows "(off + x) div BSIZE = off div BSIZE" "(off + x) mod BSIZE = off mod BSIZE + x"
proof -
  have "x < BSIZE" using assms by linarith
  then show "(off + x) div BSIZE = off div BSIZE" using div_add1_eq [of off x BSIZE] assms by simp
  show "(off + x) mod BSIZE = off mod BSIZE + x" using mod_add_left_eq [of off BSIZE x] assms by simp
qed

lemma length_fdata:
  assumes "fs_ok s" "file_ok s i" "k \<le> MAXFILE"
  shows "length (fdata s i k) = BSIZE"
proof (cases "fb s i k = 0")
  case False
  then have "unat (fb s i k) < fs_nblk s"
    using own_bounds [OF assms(2) fb_own [OF assms(3) False]] fs_okD(2) [OF assms(1)] by simp
  then show ?thesis using False fs_okD(4) [OF assms(1)] by (simp add: fdata_def)
qed (simp add: fdata_def zero_block_def)

lemma slice_fdata:
  assumes "fs_ok s" "file_ok s i" "off div BSIZE < MAXFILE" "off mod BSIZE + m \<le> BSIZE"
  shows "slice (fdata s i (off div BSIZE)) (off mod BSIZE) m = map (fbyte s i) [off..<off + m]"
proof (rule nth_equalityI)
  have l: "length (fdata s i (off div BSIZE)) = BSIZE" using length_fdata [OF assms(1,2)] assms(3) by simp
  then show "length (slice (fdata s i (off div BSIZE)) (off mod BSIZE) m) = length (map (fbyte s i) [off..<off + m])"
    using assms(4) by simp
  fix x assume "x < length (slice (fdata s i (off div BSIZE)) (off mod BSIZE) m)"
  then have x: "x < m" using l assms(4) by simp
  then have "(off + x) div BSIZE = off div BSIZE" "(off + x) mod BSIZE = off mod BSIZE + x"
    using assms(4) same_block [of off x] by auto
  then show "slice (fdata s i (off div BSIZE)) (off mod BSIZE) m ! x = map (fbyte s i) [off..<off + m] ! x"
    using x l assms(4) by (simp add: nth_slice fbyte_def)
qed

lemma readi_loop_ok:
  assumes ok: "fs_ok s" and f: "file_ok s i" and dev: "i_dev (inode_of s i) = 1" and pr: "present s i off n"
  shows "readi_loop i off n s = Inr (map (fbyte s i) [off..<off + n], s)"
  using pr
proof (induction n arbitrary: off rule: less_induct)
  case (less n)
  show ?case
  proof (cases "n = 0")
    case True
    then show ?thesis by (simp add: readi_loop.simps)
  next
    case False
    let ?bn = "off div BSIZE" let ?m = "min n (BSIZE - off mod BSIZE)"
    have bn: "?bn < MAXFILE" "fb s i ?bn \<noteq> 0" using less.prems False by (auto simp: present_def)
    have m: "0 < ?m" "?m \<le> n" "off mod BSIZE + ?m \<le> BSIZE"
      using False chunk_bounds(1,3) [of n off] chunk_bounds(2) [of off n] by auto
    have "unat (fb s i ?bn) < fs_nblk s"
      using own_bounds [OF f fb_own, of ?bn] bn fs_okD(2) [OF ok] by simp
    then have rd: "fs_bread 1 (fb s i ?bn) s = Inr (fdata s i ?bn)" using bn by (simp add: fdata_def)
    have "present s i (off + ?m) (n - ?m)" using less.prems m(2) by (auto simp: present_def)
    then have "readi_loop i (off + ?m) (n - ?m) s = Inr (map (fbyte s i) [off + ?m..<off + n], s)"
      using less.IH [of "n - ?m" "off + ?m"] m by simp
    moreover have "map (fbyte s i) [off..<off + ?m] @ map (fbyte s i) [off + ?m..<off + n] = map (fbyte s i) [off..<off + n]"
      unfolding map_append [symmetric] using m(2) upt_add_eq_append [of off "off + ?m" "n - ?m"] by simp
    ultimately show ?thesis
      using False bmap_present [OF f ok dev bn] dev rd slice_fdata [OF ok f bn(1) m(3)]
      by (subst readi_loop.simps) (simp add: Let_def)
  qed
qed

lemma write_data:
  assumes ok: "fs_ok s" and f: "file_ok s i" and bn: "bn < MAXFILE" "fb s i bn \<noteq> 0" and d: "length d = BSIZE"
  defines "s' \<equiv> fs_log_write (fb s i bn) d s"
  shows "fs_ok s'" "file_ok s' i" "fkeep i s s'" "free_blocks s' = free_blocks s"
    "k \<le> MAXFILE \<Longrightarrow> fb s' i k = fb s i k" "k < MAXFILE \<Longrightarrow> fdata s' i k = (if k = bn then d else fdata s i k)"
proof -
  let ?a = "unat (fb s i bn)"
  have sb: "sb_ok (fs_sb s)" using ok by (simp add: fs_ok_def)
  have a: "dstart (fs_sb s) \<le> ?a" "?a \<in> own s i" using fb_own [of bn s i] own_bounds [OF f, of ?a] bn by auto
  have us: "used s' b = used s b" if "b < unat (sb_size (fs_sb s))" for b
    using used_data_write [OF sb a(1) that] by (simp add: s'_def)
  show "fs_ok s'" using ok us d fs_okD(1) [OF ok] by (auto simp: fs_ok_def s'_def)
  have nd: "NDIRECT \<le> MAXFILE" by (simp add: xv6_consts)
  have ind: "unat (di_addrs (di_of s i) ! NDIRECT) \<noteq> ?a" if "di_addrs (di_of s i) ! NDIRECT \<noteq> 0"
  proof -
    have "fb s i MAXFILE = di_addrs (di_of s i) ! NDIRECT" by (simp add: fb_def faddr_def xv6_consts)
    then show ?thesis using file_ok_inj [OF f, of bn MAXFILE] bn by (metis less_imp_le order_refl nat_neq_iff unsigned_word_eqI)
  qed
  have fb': "fb s' i k = fb s i k" for k
    using ind by (auto simp: fb_def faddr_def s'_def)
  then show "k \<le> MAXFILE \<Longrightarrow> fb s' i k = fb s i k" by blast
  have own': "own s' i = own s i" by (simp add: own_def fb')
  show "file_ok s' i" using f us by (auto simp: file_ok_def own' fb') (simp_all add: s'_def)
  show "free_blocks s' = free_blocks s" using us by (auto simp: free_blocks_def s'_def)
  have "unat (sb_bmapstart (fs_sb s)) \<le> ?a" using a(1) by (simp add: dstart_def)
  then show "fkeep i s s'"
    using us a(2) unfolding fkeep_def own' by (auto simp: s'_def intro!: exI [of _ "di_addrs (di_of s i)"])
  show "k < MAXFILE \<Longrightarrow> fdata s' i k = (if k = bn then d else fdata s i k)"
  proof -
    assume k: "k < MAXFILE"
    have "unat (fb s i k) \<noteq> ?a" if "k \<noteq> bn" "fb s i k \<noteq> 0"
      using file_ok_inj [OF f, of k bn] that k bn by (metis less_imp_le unsigned_word_eqI)
    then show ?thesis using bn(2) by (auto simp: fdata_def fb') (simp_all add: s'_def)
  qed
qed

lemma in_chunk:
  assumes "off mod BSIZE + m \<le> BSIZE"
  shows "off \<le> x \<and> x < off + m \<longleftrightarrow>
    x div BSIZE = off div BSIZE \<and> off mod BSIZE \<le> x mod BSIZE \<and> x mod BSIZE < off mod BSIZE + m"
proof
  assume x: "off \<le> x \<and> x < off + m"
  then have "off mod BSIZE + (x - off) < BSIZE" using assms by linarith
  from same_block [OF this] x show "x div BSIZE = off div BSIZE \<and> off mod BSIZE \<le> x mod BSIZE \<and> x mod BSIZE < off mod BSIZE + m"
    by auto
next
  assume "x div BSIZE = off div BSIZE \<and> off mod BSIZE \<le> x mod BSIZE \<and> x mod BSIZE < off mod BSIZE + m"
  then show "off \<le> x \<and> x < off + m"
    using div_mult_mod_eq [of x BSIZE] div_mult_mod_eq [of off BSIZE] by (metis add.assoc nat_add_left_cancel_le nat_add_left_cancel_less)
qed

lemma chunk_offset:
  "x div BSIZE = off div BSIZE \<Longrightarrow> off mod BSIZE \<le> x mod BSIZE \<Longrightarrow> x mod BSIZE - off mod BSIZE = x - off"
  using div_mult_mod_eq [of x BSIZE] div_mult_mod_eq [of off BSIZE] by (metis diff_cancel2 add.commute)

text \<open>The number of blocks a range touches.\<close>

definition nblocks :: "nat \<Rightarrow> nat \<Rightarrow> nat" where
  "nblocks off n = (if n = 0 then 0 else (off + n - 1) div BSIZE - off div BSIZE + 1)"

lemma nblocks_step:
  assumes "0 < n" and m_def: "m = min n (BSIZE - off mod BSIZE)"
  shows "nblocks off n = 1 + nblocks (off + m) (n - m)"
proof (cases "n \<le> BSIZE - off mod BSIZE")
  case True
  then have m: "m = n" by (simp add: m_def)
  have "off mod BSIZE + (n - 1) < BSIZE" using True assms(1) by linarith
  then have "(off + (n - 1)) div BSIZE = off div BSIZE" by (rule same_block)
  then show ?thesis using assms(1) by (simp add: nblocks_def m)
next
  case False
  then have m: "m = BSIZE - off mod BSIZE" "m < n" by (simp_all add: m_def)
  have "off mod BSIZE < BSIZE" by simp
  then have "off + m = (off div BSIZE + 1) * BSIZE"
    unfolding add_mult_distrib mult_1 using div_mult_mod_eq [of off BSIZE] m(1) by linarith
  then have d: "(off + m) div BSIZE = off div BSIZE + 1" by simp
  have "(off + m) div BSIZE \<le> (off + n - 1) div BSIZE" using m(2) by (intro div_le_mono) simp
  then show ?thesis using m(2) assms(1) d by (simp add: nblocks_def)
qed

definition wset :: "'d fsys \<Rightarrow> nat \<Rightarrow> nat \<Rightarrow> nat \<Rightarrow> nat set" where
  "wset s i off n = {unat (fb s i (x div BSIZE)) | x. off \<le> x \<and> x < off + n} \<union> ind_set s i"

lemma fkeep_inode:
  "fkeep i s s' \<Longrightarrow> i_dev (inode_of s' i) = i_dev (inode_of s i) \<and> di_size (di_of s' i) = di_size (di_of s i) \<and>
     di_type (di_of s' i) = di_type (di_of s i) \<and> i_inum (inode_of s' i) = i_inum (inode_of s i) \<and> fs_sb s' = fs_sb s"
  by (auto simp: fkeep_def)

lemma fbyte_write:
  assumes ok: "fs_ok s1" and f: "file_ok s1 i" and bn: "off div BSIZE < MAXFILE" "fb s1 i (off div BSIZE) \<noteq> 0"
    and m: "off mod BSIZE + length w \<le> BSIZE" and x: "x < MAXFILE * BSIZE"
  defines "s2 \<equiv> fs_log_write (fb s1 i (off div BSIZE)) (splice (fdata s1 i (off div BSIZE)) (off mod BSIZE) w) s1"
  shows "fbyte s2 i x = (if off \<le> x \<and> x < off + length w then w ! (x - off) else fbyte s1 i x)"
proof -
  have xk: "x div BSIZE < MAXFILE" using x by (simp add: less_mult_imp_div_less)
  have l: "length (fdata s1 i (off div BSIZE)) = BSIZE" using length_fdata [OF ok f] bn(1) by simp
  have "length (splice (fdata s1 i (off div BSIZE)) (off mod BSIZE) w) = BSIZE" using l m by simp
  from write_data(6) [OF ok f bn this xk]
  have "fdata s2 i (x div BSIZE) = (if x div BSIZE = off div BSIZE
      then splice (fdata s1 i (off div BSIZE)) (off mod BSIZE) w else fdata s1 i (x div BSIZE))"
    by (simp add: s2_def)
  then show ?thesis
    using in_chunk [OF m, of x] chunk_offset [of x off] l m by (auto simp: fbyte_def nth_splice)
qed

lemma writei_loop_ok:
  assumes "fs_ok s" "file_ok s i" "i_dev (inode_of s i) = 1" "off + length src \<le> MAXFILE * BSIZE"
    "nblocks off (length src) + no_ind s i \<le> card (free_blocks s)"
  shows "\<exists>s'. writei_loop i off src s = Inr s' \<and> fs_ok s' \<and> file_ok s' i \<and> fkeep i s s' \<and>
    (\<forall>k\<le>MAXFILE. fb s i k \<noteq> 0 \<longrightarrow> fb s' i k = fb s i k) \<and> present s' i off (length src) \<and>
    (\<forall>x<MAXFILE * BSIZE. fbyte s' i x = (if off \<le> x \<and> x < off + length src then src ! (x - off) else fbyte s i x)) \<and>
    logs (wset s' i off (length src)) s s' \<and>
    card (free_blocks s) + no_ind s' i \<le> card (free_blocks s') + nblocks off (length src) + no_ind s i"
  using assms
proof (induction "length src" arbitrary: off src s rule: less_induct)
  case less
  note ok = less.prems(1) and f = less.prems(2) and dev = less.prems(3)
  show ?case
  proof (cases "src = []")
    case True
    then show ?thesis using ok f by (auto simp: writei_loop.simps present_def nblocks_def)
  next
    case False
    let ?n = "length src" let ?bn = "off div BSIZE" let ?r = "off mod BSIZE"
    define m where "m = min ?n (BSIZE - ?r)"
    have m: "0 < m" "m \<le> ?n" "?r + m \<le> BSIZE"
      using False chunk_bounds(1,3) [of ?n off] chunk_bounds(2) [of off ?n] by (auto simp: m_def)
    have bn: "?bn < MAXFILE"
      using less.prems(4) False by (intro less_mult_imp_div_less) (cases src; simp)
    have st: "nblocks off ?n = 1 + nblocks (off + m) (?n - m)"
      using nblocks_step [OF _ m_def] False by simp
    obtain s1 where s1: "bmap i ?bn s = Inr (fb s1 i ?bn, s1)" "fb s1 i ?bn \<noteq> 0" "bmap_post i s s1"
      "card (free_blocks s) + no_ind s1 i \<le> card (free_blocks s1) + 1 + no_ind s i"
      "logs (insert (unat (fb s1 i ?bn)) (ind_set s1 i)) s s1"
      using bmap_ok [OF ok f dev bn] less.prems(5) st by auto
    have p1: "fs_ok s1" "file_ok s1 i" "fkeep i s s1" "\<And>k. k < MAXFILE \<Longrightarrow> fdata s1 i k = fdata s i k"
      "\<And>k. k \<le> MAXFILE \<Longrightarrow> fb s i k \<noteq> 0 \<Longrightarrow> fb s1 i k = fb s i k"
      using s1(3) by (auto simp: bmap_post_def)
    let ?w = "take m src" let ?d = "splice (fdata s1 i ?bn) ?r ?w"
    define s2 where "s2 = fs_log_write (fb s1 i ?bn) ?d s1"
    have lw: "length ?w = m" using m(2) by simp
    have ld: "length ?d = BSIZE" using length_fdata [OF p1(1,2)] bn m(3) lw by simp
    note p2 = write_data [OF p1(1,2) bn s1(2) ld, folded s2_def]
    have dev1: "i_dev (inode_of s1 i) = 1" "i_dev (inode_of s2 i) = 1" "fs_sb s1 = fs_sb s" "fs_sb s2 = fs_sb s"
      using fkeep_inode [OF p1(3)] dev by (simp_all add: s2_def)
    have "unat (fb s1 i ?bn) < fs_nblk s1"
      using own_bounds [OF p1(2) fb_own, of ?bn] bn s1(2) fs_okD(2) [OF p1(1)] by simp
    then have rd: "fs_bread 1 (fb s1 i ?bn) s1 = Inr (fdata s1 i ?bn)" using s1(2) by (simp add: fdata_def)
    have free2: "nblocks (off + m) (length (drop m src)) + no_ind s2 i \<le> card (free_blocks s2)"
      using s1(4) less.prems(5) st p2(4) p2(5) [of MAXFILE] by simp
    obtain s' where s': "writei_loop i (off + m) (drop m src) s2 = Inr s'" "fs_ok s'" "file_ok s' i" "fkeep i s2 s'"
      "\<And>k. k \<le> MAXFILE \<Longrightarrow> fb s2 i k \<noteq> 0 \<Longrightarrow> fb s' i k = fb s2 i k" "present s' i (off + m) (?n - m)"
      "\<And>x. x < MAXFILE * BSIZE \<Longrightarrow> fbyte s' i x = (if off + m \<le> x \<and> x < off + ?n then drop m src ! (x - (off + m)) else fbyte s2 i x)"
      "logs (wset s' i (off + m) (?n - m)) s2 s'"
      "card (free_blocks s2) + no_ind s' i \<le> card (free_blocks s') + nblocks (off + m) (?n - m) + no_ind s2 i"
      using less.hyps [OF _ p2(1,2) dev1(2) _ free2] less.prems(4) m False by auto
    have run: "writei_loop i off src s = Inr s'"
      using False s1(1) dev1(1) rd s'(1) by (subst writei_loop.simps) (simp add: Let_def s2_def m_def)
    have st1: "fb s' i k = fb s1 i k" if "k \<le> MAXFILE" "fb s1 i k \<noteq> 0" for k
      using s'(5) [OF that(1)] p2(5) [OF that(1)] that(2) by simp
    have st0: "fb s' i k = fb s i k" if "k \<le> MAXFILE" "fb s i k \<noteq> 0" for k
      using st1 [OF that(1)] p1(5) [OF that] that by simp
    have pr: "present s' i off ?n"
      unfolding present_def
    proof (intro allI impI)
      fix x assume x: "off \<le> x \<and> x < off + ?n"
      show "x div BSIZE < MAXFILE \<and> fb s' i (x div BSIZE) \<noteq> 0"
      proof (cases "x < off + m")
        case True
        then have "x div BSIZE = ?bn" using in_chunk [OF m(3), of x] x by blast
        then show ?thesis using bn st1 [of ?bn] s1(2) by simp
      next
        case False
        then show ?thesis using s'(6) x by (auto simp: present_def)
      qed
    qed
    have by': "fbyte s' i x = (if off \<le> x \<and> x < off + ?n then src ! (x - off) else fbyte s i x)" if x: "x < MAXFILE * BSIZE" for x
    proof -
      have "x div BSIZE < MAXFILE" using x by (simp add: less_mult_imp_div_less)
      then have "fbyte s1 i x = fbyte s i x" using p1(4) by (simp add: fbyte_def)
      then have "fbyte s2 i x = (if off \<le> x \<and> x < off + m then src ! (x - off) else fbyte s i x)"
        using fbyte_write [OF p1(1,2) bn s1(2) _ x, of ?w] lw m(3) by (auto simp: s2_def)
      then show ?thesis using s'(7) [OF x] m(2) by (auto simp: nth_append)
    qed
    have sub1: "insert (unat (fb s1 i ?bn)) (ind_set s1 i) \<subseteq> wset s' i off ?n"
    proof -
      have "unat (fb s1 i ?bn) \<in> wset s' i off ?n"
        using st1 [of ?bn] bn s1(2) False by (auto simp: wset_def intro!: exI [of _ off])
      moreover have "ind_set s1 i \<subseteq> ind_set s' i" using st1 [of MAXFILE] by (auto simp: ind_set_def)
      ultimately show ?thesis by (auto simp: wset_def)
    qed
    have sub2: "wset s' i (off + m) (?n - m) \<subseteq> wset s' i off ?n" using m(2) by (fastforce simp: wset_def)
    have "logs (wset s' i off ?n) s s1" using s1(5) sub1 by (rule logs_mono)
    moreover have "logs (wset s' i off ?n) s1 s2" unfolding s2_def using sub1 by (intro logs_write) blast
    moreover have "logs (wset s' i off ?n) s2 s'" using s'(8) sub2 by (rule logs_mono)
    ultimately have "logs (wset s' i off ?n) s s'" using logs_trans dev1(3,4) by (metis (no_types, lifting))
    moreover have "card (free_blocks s) + no_ind s' i \<le> card (free_blocks s') + nblocks off ?n + no_ind s i"
      using s'(9) s1(4) st unfolding p2(4) p2(5) [OF order_refl] by linarith
    ultimately show ?thesis
      using run s'(2,3) fkeep_trans [OF fkeep_trans [OF p1(3) p2(3)] s'(4)] st0 pr by' by blast
  qed
qed

section \<open>Inodes on disk\<close>

definition disk_inode :: "'d fsys \<Rightarrow> u32 \<Rightarrow> dinode" where
  "disk_inode s inum = get_dinode (fs_view s (unat (IBLOCK inum (fs_sb s)))) (ino_off inum)"

lemma IBLOCK_unat:
  assumes "sb_ok sb" "unat inum < unat (sb_ninodes sb)"
  shows "unat (IBLOCK inum sb) = unat (sb_inodestart sb) + unat inum div IPB"
    "unat (IBLOCK inum sb) < unat (sb_bmapstart sb)" "ino_off inum + 64 \<le> BSIZE"
proof -
  have "unat inum div IPB \<le> unat (sb_ninodes sb) div IPB" using assms(2) by (intro div_le_mono) simp
  then have lt: "unat (sb_inodestart sb) + unat inum div IPB < unat (sb_bmapstart sb)"
    using assms(1) unfolding sb_ok_def by linarith
  have d: "unat (inum div of_nat IPB) = unat inum div IPB" by (simp add: unat_div xv6_consts)
  show e: "unat (IBLOCK inum sb) = unat (sb_inodestart sb) + unat inum div IPB"
    unfolding IBLOCK_def using lt d unat_u32_lt [of "sb_bmapstart sb"] by (subst unat_add_u32) simp_all
  show "unat (IBLOCK inum sb) < unat (sb_bmapstart sb)" using e lt by simp
  show "ino_off inum + 64 \<le> BSIZE" by (simp add: ino_off_def xv6_consts)
qed

lemma ino_apart:
  assumes "sb_ok sb" "unat m < unat (sb_ninodes sb)" "unat n < unat (sb_ninodes sb)" "m \<noteq> n"
    "unat (IBLOCK m sb) = unat (IBLOCK n sb)"
  shows "ino_off m + 64 \<le> ino_off n \<or> ino_off n + 64 \<le> ino_off m"
proof -
  have "unat m div IPB = unat n div IPB" using IBLOCK_unat(1) [OF assms(1,2)] IBLOCK_unat(1) [OF assms(1,3)] assms(5) by simp
  moreover have "unat m \<noteq> unat n" using assms(4) by (metis unsigned_word_eqI)
  ultimately have "unat m mod IPB \<noteq> unat n mod IPB" by (metis div_mult_mod_eq)
  then show ?thesis unfolding ino_off_def by linarith
qed

text \<open>The state after \<open>iupdate\<close>.\<close>

definition iupd_state :: "nat \<Rightarrow> 'd fsys \<Rightarrow> 'd fsys" where
  "iupd_state i s =
     (let ip = inode_of s i; k = IBLOCK (i_inum ip) (fs_sb s)
      in fs_log_write k (put_dinode (i_di ip) (fs_view s (unat k)) (ino_off (i_inum ip))) s)"

lemma iupd_state_simps [simp]:
  "fs_sb (iupd_state i s) = fs_sb s" "fs_nblk (iupd_state i s) = fs_nblk s"
  "fs_icache (iupd_state i s) = fs_icache s" "fs_dev (iupd_state i s) = fs_dev s"
  by (simp_all add: iupd_state_def Let_def)

lemma iupdate_ok:
  assumes ok: "fs_ok s" and dev: "i_dev (inode_of s i) = 1" and n: "unat (i_inum (inode_of s i)) < unat (sb_ninodes (fs_sb s))"
    and l: "length (di_addrs (di_of s i)) = NDIRECT + 1"
  shows "iupdate i s = Inr (iupd_state i s)" "fs_ok (iupd_state i s)"
    "disk_inode (iupd_state i s) (i_inum (inode_of s i)) = di_of s i"
    "unat m < unat (sb_ninodes (fs_sb s)) \<Longrightarrow> m \<noteq> i_inum (inode_of s i) \<Longrightarrow> disk_inode (iupd_state i s) m = disk_inode s m"
    "unat (sb_bmapstart (fs_sb s)) \<le> k \<Longrightarrow> fs_view (iupd_state i s) k = fs_view s k"
    "used (iupd_state i s) b = used s b"
proof -
  let ?m = "i_inum (inode_of s i)" let ?k = "IBLOCK ?m (fs_sb s)"
  have sb: "sb_ok (fs_sb s)" using ok by (simp add: fs_ok_def)
  note k = IBLOCK_unat [OF sb n]
  have kn: "unat ?k < fs_nblk s" using k(2) fs_okD(1,2) [OF ok] by (simp add: dstart_def)
  then have lk: "length (fs_view s (unat ?k)) = BSIZE" by (rule fs_okD(4) [OF ok])
  note gp = get_put_dinode [of "ino_off ?m" "fs_view s (unat ?k)" "di_of s i"]
  show "iupdate i s = Inr (iupd_state i s)" using dev kn by (simp add: iupdate_def iupd_state_def Let_def)
  show us: "used (iupd_state i s) b = used s b" for b
  proof -
    have "bm_block (fs_sb s) b \<noteq> unat ?k" using k(2) by (simp add: bm_block_def)
    then show ?thesis by (simp add: used_def iupd_state_def Let_def)
  qed
  show "fs_ok (iupd_state i s)" using ok us gp lk k(3) l by (auto simp: fs_ok_def) (auto simp: iupd_state_def Let_def)
  show "disk_inode (iupd_state i s) ?m = di_of s i" using gp lk k(3) l by (simp add: disk_inode_def iupd_state_def Let_def)
  show "unat (sb_bmapstart (fs_sb s)) \<le> k \<Longrightarrow> fs_view (iupd_state i s) k = fs_view s k"
    using k(2) by (auto simp: iupd_state_def Let_def)
  show "disk_inode (iupd_state i s) m = disk_inode s m" if "unat m < unat (sb_ninodes (fs_sb s))" "m \<noteq> ?m"
  proof (cases "unat (IBLOCK m (fs_sb s)) = unat ?k")
    case True
    have "ino_off m + 64 \<le> ino_off ?m \<or> ino_off ?m + 64 \<le> ino_off m" by (rule ino_apart [OF sb that(1) n that(2) True])
    then show ?thesis
      using True get_put_dinode_other [of "ino_off ?m" "fs_view s (unat ?k)" "di_of s i" "ino_off m"] lk k(3) l
      by (simp add: disk_inode_def iupd_state_def Let_def)
  next
    case False
    then show ?thesis by (simp add: disk_inode_def iupd_state_def Let_def)
  qed
qed

lemma fb_view_cong:
  assumes "file_ok s i" "fs_icache s' i = fs_icache s i" "\<And>k. k \<in> own s i \<Longrightarrow> fs_view s' k = fs_view s k"
  shows "k \<le> MAXFILE \<Longrightarrow> fb s' i k = fb s i k" "k \<le> MAXFILE \<Longrightarrow> fdata s' i k = fdata s i k" "own s' i = own s i"
proof -
  have nd: "di_addrs (di_of s i) ! NDIRECT = fb s i MAXFILE" by (simp add: fb_def faddr_def xv6_consts)
  have "fs_view s' (unat (di_addrs (di_of s i) ! NDIRECT)) = fs_view s (unat (di_addrs (di_of s i) ! NDIRECT))"
    if "di_addrs (di_of s i) ! NDIRECT \<noteq> 0"
    using assms(3) fb_own [of MAXFILE s i] that nd by simp
  then have f: "fb s' i k = fb s i k" for k using assms(2) by (simp add: fb_def faddr_def)
  then show "k \<le> MAXFILE \<Longrightarrow> fb s' i k = fb s i k" "own s' i = own s i" by (simp_all add: own_def)
  show "k \<le> MAXFILE \<Longrightarrow> fdata s' i k = fdata s i k" using assms(3) fb_own [of k s i] by (simp add: fdata_def f)
qed

lemma contents_cong:
  assumes "unat (di_size (di_of s i)) \<le> MAXFILE * BSIZE" "di_size (di_of s' i) = di_size (di_of s i)"
    "\<And>k. k < MAXFILE \<Longrightarrow> fdata s' i k = fdata s i k"
  shows "contents s' i = contents s i"
proof -
  have "fbyte s' i x = fbyte s i x" if "x < unat (di_size (di_of s i))" for x
  proof -
    have "x div BSIZE < MAXFILE" using that assms(1) by (intro less_mult_imp_div_less) linarith
    then show ?thesis using assms(3) by (simp add: fbyte_def)
  qed
  then show ?thesis using assms(2) by (simp add: contents_def)
qed

text \<open>
  A file in the cache: its inode is valid and locked by nobody else's operation, its size within
  bounds, every block below its size present.
\<close>

definition inode_ok :: "'d fsys \<Rightarrow> nat \<Rightarrow> bool" where
  "inode_ok s i \<longleftrightarrow> file_ok s i \<and> i_dev (inode_of s i) = 1 \<and>
     unat (i_inum (inode_of s i)) < unat (sb_ninodes (fs_sb s)) \<and>
     unat (di_size (di_of s i)) \<le> MAXFILE * BSIZE \<and> present s i 0 (unat (di_size (di_of s i)))"

text \<open>What a write to file \<open>i\<close> leaves alone.\<close>

definition keeps_others :: "nat \<Rightarrow> 'd fsys \<Rightarrow> 'd fsys \<Rightarrow> bool" where
  "keeps_others i s s' \<longleftrightarrow> fs_sb s' = fs_sb s \<and> fs_nblk s' = fs_nblk s \<and> fs_dev s' = fs_dev s \<and>
     (\<forall>j. j \<noteq> i \<longrightarrow> fs_icache s' j = fs_icache s j) \<and>
     (\<forall>m. unat m < unat (sb_ninodes (fs_sb s)) \<longrightarrow> m \<noteq> i_inum (inode_of s i) \<longrightarrow> disk_inode s' m = disk_inode s m) \<and>
     (\<forall>j. j \<noteq> i \<longrightarrow> inode_ok s j \<longrightarrow> own s i \<inter> own s j = {} \<longrightarrow>
        inode_ok s' j \<and> contents s' j = contents s j \<and> own s' i \<inter> own s' j = {})"

lemma other_file:
  assumes sb: "fs_sb s' = fs_sb s" and ic: "fs_icache s' j = fs_icache s j" and f: "inode_ok s j"
    and us: "\<And>b. b < unat (sb_size (fs_sb s)) \<Longrightarrow> b \<in> own s j \<Longrightarrow> used s' b"
    and v: "\<And>k. k \<in> own s j \<Longrightarrow> fs_view s' k = fs_view s k"
  shows "inode_ok s' j" "contents s' j = contents s j" "own s' j = own s j"
proof -
  have fo: "file_ok s j" using f by (simp add: inode_ok_def)
  note c = fb_view_cong [OF fo ic v]
  show o: "own s' j = own s j" by (rule c(3))
  have fb: "\<And>k. k \<le> MAXFILE \<Longrightarrow> fb s' j k = fb s j k" by (rule c(1))
  have "file_ok s' j" using fo fb us unfolding file_ok_def o sb ic by auto
  then show "inode_ok s' j" using f fb by (auto simp: inode_ok_def present_def ic sb less_imp_le)
  show "contents s' j = contents s j" using f c(2) ic by (intro contents_cong) (auto simp: inode_ok_def)
qed

lemma fkeep_others:
  assumes ok: "fs_ok s" and f: "file_ok s i" and k: "fkeep i s s'"
  shows "keeps_others i s s'"
proof -
  have sb: "sb_ok (fs_sb s)" using ok by (simp add: fs_ok_def)
  have e: "fs_sb s' = fs_sb s" "\<And>k. k < unat (sb_bmapstart (fs_sb s)) \<Longrightarrow> fs_view s' k = fs_view s k"
    "\<And>j. j \<noteq> i \<Longrightarrow> fs_icache s' j = fs_icache s j"
    using k by (auto simp: fkeep_def)
  have "disk_inode s' m = disk_inode s m" if "unat m < unat (sb_ninodes (fs_sb s))" for m
    using IBLOCK_unat(2) [OF sb that] e(1,2) by (simp add: disk_inode_def)
  moreover have "inode_ok s' j \<and> contents s' j = contents s j \<and> own s' i \<inter> own s' j = {}"
    if j: "j \<noteq> i" "inode_ok s j" "own s i \<inter> own s j = {}" for j
  proof -
    have fj: "file_ok s j" using j(2) by (simp add: inode_ok_def)
    have "fs_view s' x = fs_view s x" if "x \<in> own s j" for x
      using k own_bounds [OF fj that] that j(3) unfolding fkeep_def by blast
    moreover have "used s' b" if "b < unat (sb_size (fs_sb s))" "b \<in> own s j" for b
      using k own_bounds [OF fj that(2)] by (auto simp: fkeep_def)
    ultimately have o: "inode_ok s' j" "contents s' j = contents s j" "own s' j = own s j"
      using other_file [OF e(1) e(3) [OF j(1)] j(2)] by blast+
    have "own s' i \<subseteq> own s i \<union> free_blocks s" using k by (simp add: fkeep_def)
    moreover have "own s j \<inter> free_blocks s = {}" using own_bounds [OF fj] by (auto simp: free_blocks_def)
    ultimately show ?thesis using o j(3) by blast
  qed
  ultimately show ?thesis using k e by (auto simp: keeps_others_def fkeep_def)
qed

text \<open>Changing the in-memory inode and writing it to disk keeps the contents of the other files.\<close>

lemma iupd_others:
  assumes ok: "fs_ok s" and dev: "i_dev (inode_of s i) = 1" and n: "unat (i_inum (inode_of s i)) < unat (sb_ninodes (fs_sb s))"
    and f: "file_ok s i" and k: "keeps_others i s0 s1"
    and s: "fs_view s = fs_view s1" "fs_sb s = fs_sb s1" "fs_nblk s = fs_nblk s1" "fs_dev s = fs_dev s1"
      "fs_icache s = (fs_icache s1)(i := ip)" "i_inum (inode_of s i) = i_inum (inode_of s0 i)" "own s i \<subseteq> own s1 i"
  shows "keeps_others i s0 (iupd_state i s)"
proof -
  have l: "length (di_addrs (di_of s i)) = NDIRECT + 1" using f by (simp add: file_ok_def)
  note iu = iupdate_ok [OF ok dev n l]
  let ?t = "iupd_state i s"
  have sb: "fs_sb s0 = fs_sb s" using k s by (simp add: keeps_others_def)
  have "disk_inode ?t m = disk_inode s0 m" if m: "unat m < unat (sb_ninodes (fs_sb s0))" "m \<noteq> i_inum (inode_of s0 i)" for m
  proof -
    have "disk_inode s m = disk_inode s1 m" using s by (simp add: disk_inode_def)
    then show ?thesis using iu(4) [of m] m s(6) sb k by (simp add: keeps_others_def)
  qed
  moreover have "inode_ok ?t j \<and> contents ?t j = contents s0 j \<and> own ?t i \<inter> own ?t j = {}"
    if j: "j \<noteq> i" "inode_ok s0 j" "own s0 i \<inter> own s0 j = {}" for j
  proof -
    have 1: "inode_ok s1 j" "contents s1 j = contents s0 j" "own s1 i \<inter> own s1 j = {}" using k j by (auto simp: keeps_others_def)
    have fj: "file_ok s1 j" using 1(1) by (simp add: inode_ok_def)
    have v: "fs_view ?t x = fs_view s1 x" if "x \<in> own s1 j" for x
      using iu(5) [of x] own_bounds [OF fj that] s by (simp add: dstart_def)
    have us: "used ?t b" if "b \<in> own s1 j" for b
      using own_bounds [OF fj that] iu(6) s by (simp add: used_def)
    have o: "inode_ok ?t j" "contents ?t j = contents s1 j" "own ?t j = own s1 j"
      using other_file [of ?t s1 j, OF _ _ 1(1) us v] s j(1) by auto
    have "fs_view ?t x = fs_view s x" if "x \<in> own s i" for x
      using iu(5) [of x] own_bounds [OF f that] by (simp add: dstart_def)
    then have "own ?t i = own s i" using fb_view_cong(3) [OF f, of ?t] by simp
    then have "own ?t i \<subseteq> own s1 i" using s(7) by simp
    then show ?thesis using o 1 by auto
  qed
  ultimately show ?thesis using k s sb by (simp add: keeps_others_def)
qed

lemma iupd_file:
  assumes ok: "fs_ok s" and f: "inode_ok s i"
  shows "iupdate i s = Inr (iupd_state i s)" "fs_ok (iupd_state i s)" "inode_ok (iupd_state i s) i"
    "k \<le> MAXFILE \<Longrightarrow> fb (iupd_state i s) i k = fb s i k" "contents (iupd_state i s) i = contents s i"
    "disk_inode (iupd_state i s) (i_inum (inode_of s i)) = di_of s i" "own (iupd_state i s) i = own s i"
proof -
  have h: "file_ok s i" "length (di_addrs (di_of s i)) = NDIRECT + 1" "i_dev (inode_of s i) = 1"
    "unat (i_inum (inode_of s i)) < unat (sb_ninodes (fs_sb s))"
    using f by (auto simp: inode_ok_def file_ok_def)
  note iu = iupdate_ok [OF ok h(3,4,2)]
  have v: "fs_view (iupd_state i s) x = fs_view s x" if "x \<in> own s i" for x
    using iu(5) [of x] own_bounds [OF h(1) that] by (simp add: dstart_def)
  note c = fb_view_cong [OF h(1), of "iupd_state i s", OF _ v]
  show "iupdate i s = Inr (iupd_state i s)" "fs_ok (iupd_state i s)"
    "disk_inode (iupd_state i s) (i_inum (inode_of s i)) = di_of s i" using iu by blast+
  show "k \<le> MAXFILE \<Longrightarrow> fb (iupd_state i s) i k = fb s i k" "own (iupd_state i s) i = own s i" using c by simp_all
  show "inode_ok (iupd_state i s) i" "contents (iupd_state i s) i = contents s i"
    using other_file [of "iupd_state i s" s i, OF _ _ f _ v] own_bounds [OF h(1)] iu(6) by simp_all
qed

lemma contents_write:
  assumes by': "\<And>x. x < MAXFILE * BSIZE \<Longrightarrow> fbyte s' i x = (if off \<le> x \<and> x < off + length src then src ! (x - off) else fbyte s i x)"
    and off: "off \<le> unat (di_size (di_of s i))" "off + length src \<le> MAXFILE * BSIZE"
    and old: "unat (di_size (di_of s i)) \<le> MAXFILE * BSIZE"
    and new: "unat (di_size (di_of s' i)) = max (unat (di_size (di_of s i))) (off + length src)"
  shows "contents s' i = take off (contents s i) @ src @ drop (off + length src) (contents s i)" (is "_ = ?r")
proof (rule nth_equalityI)
  show l: "length (contents s' i) = length ?r" using off new by (auto simp: contents_def)
  fix x assume "x < length (contents s' i)"
  then have x: "x < max (unat (di_size (di_of s i))) (off + length src)" using new by (simp add: contents_def)
  then have "x < MAXFILE * BSIZE" using old off(2) by linarith
  from by' [OF this] show "contents s' i ! x = ?r ! x"
    using x off new by (auto simp: contents_def nth_append min_def)
qed

lemma upd_size_file:
  assumes "file_ok s i" and s'_def: "s' = upd_di i (\<lambda>d. d\<lparr>di_size := n\<rparr>) s"
  shows "file_ok s' i" "fb s' i k = fb s i k" "fbyte s' i x = fbyte s i x" "own s' i = own s i"
proof -
  show fb: "fb s' i k = fb s i k" for k by (simp add: fb_def s'_def upd_di_def)
  then show "fbyte s' i x = fbyte s i x" by (simp add: fbyte_def fdata_def) (simp add: s'_def upd_di_def)
  show o: "own s' i = own s i" by (simp add: own_def fb)
  show "file_ok s' i" using assms(1) unfolding file_ok_def o fb by (simp add: s'_def upd_di_def)
qed

lemma unat_size_max:
  assumes "unat (off :: u32) + n \<le> MAXFILE * BSIZE"
  shows "unat (off + of_nat n) = unat off + n" "\<not> off + of_nat n < off" "unat (of_nat n :: u32) = n"
proof -
  have "unat off + n < 4294967296" using assms by (simp add: xv6_consts)
  then show n: "unat (of_nat n :: u32) = n" "unat (off + of_nat n) = unat off + n"
    by (simp_all add: unat_of_nat_u32 unat_add_u32)
  then show "\<not> off + of_nat n < off" by (simp add: word_less_nat_alt)
qed

lemma writei_ok:
  assumes ok: "fs_ok s" and f: "inode_ok s i" and ty: "di_type (di_of s i) \<noteq> T_DEV"
    and off: "off \<le> di_size (di_of s i)" and max: "unat off + length src \<le> MAXFILE * BSIZE"
    and free: "nblocks (unat off) (length src) + no_ind s i \<le> card (free_blocks s)"
  shows "\<exists>s'. writei dv i src off s = Inr (Some (length src), s') \<and> fs_ok s' \<and> inode_ok s' i \<and> keeps_others i s s' \<and>
    contents s' i = take (unat off) (contents s i) @ src @ drop (unat off + length src) (contents s i) \<and>
    inode_of s' i = (inode_of s i)\<lparr>i_di := di_of s' i\<rparr> \<and> di_type (di_of s' i) = di_type (di_of s i) \<and>
    di_nlink (di_of s' i) = di_nlink (di_of s i) \<and>
    logs (insert (unat (IBLOCK (i_inum (inode_of s i)) (fs_sb s))) (wset s' i (unat off) (length src))) s s' \<and>
    card (free_blocks s) + no_ind s' i \<le> card (free_blocks s') + nblocks (unat off) (length src) + no_ind s i"
proof -
  let ?n = "length src" let ?size = "di_size (di_of s i)"
  have h: "file_ok s i" "i_dev (inode_of s i) = 1" "unat (i_inum (inode_of s i)) < unat (sb_ninodes (fs_sb s))"
    "unat ?size \<le> MAXFILE * BSIZE" "present s i 0 (unat ?size)"
    using f by (auto simp: inode_ok_def)
  note o = unat_size_max [OF max]
  obtain s1 where s1: "writei_loop i (unat off) src s = Inr s1" "fs_ok s1" "file_ok s1 i" "fkeep i s s1"
    "\<And>k. k \<le> MAXFILE \<Longrightarrow> fb s i k \<noteq> 0 \<Longrightarrow> fb s1 i k = fb s i k" "present s1 i (unat off) ?n"
    "\<And>x. x < MAXFILE * BSIZE \<Longrightarrow> fbyte s1 i x = (if unat off \<le> x \<and> x < unat off + ?n then src ! (x - unat off) else fbyte s i x)"
    "logs (wset s1 i (unat off) ?n) s s1"
    "card (free_blocks s) + no_ind s1 i \<le> card (free_blocks s1) + nblocks (unat off) ?n + no_ind s i"
    using writei_loop_ok [OF ok h(1,2) max free] by blast
  note k1 = fkeep_inode [OF s1(4)]
  have io: "unat off \<le> unat ?size" using off by (simp add: word_le_nat_alt)
  have pr1: "present s1 i 0 (max (unat ?size) (unat off + ?n))"
  proof -
    have "x div BSIZE < MAXFILE \<and> fb s1 i (x div BSIZE) \<noteq> 0" if x: "x < max (unat ?size) (unat off + ?n)" for x
    proof (cases "x < unat ?size")
      case True
      then have "x div BSIZE < MAXFILE" "fb s i (x div BSIZE) \<noteq> 0" using h(5) by (auto simp: present_def)
      then show ?thesis using s1(5) [of "x div BSIZE"] by simp
    next
      case False
      then show ?thesis using s1(6) x io by (auto simp: present_def)
    qed
    then show ?thesis by (simp add: present_def)
  qed
  have run: "writei dv i src off s = (if of_nat ?n > (0 :: u32) \<and> off + of_nat ?n > di_size (di_of s1 i)
      then andthen (iupdate i (upd_di i (\<lambda>d. d\<lparr>di_size := off + of_nat ?n\<rparr>) s1)) (\<lambda>s. Inr (Some ?n, s))
      else Inr (Some ?n, s1))"
  proof -
    have c: "\<not> off > ?size" "\<not> off + of_nat ?n < off" "\<not> unat (off + of_nat ?n) > MAXFILE * BSIZE"
      using off o(1,2) max by (simp_all add: not_less)
    show ?thesis unfolding writei_def Let_def by (simp only: c ty if_False simp_thms s1(1) andthen_simps)
  qed
  have ko: "keeps_others i s s1" by (rule fkeep_others [OF ok h(1) s1(4)])
  have in1: "inode_of s1 i = (inode_of s i)\<lparr>i_di := di_of s1 i\<rparr>" "di_nlink (di_of s1 i) = di_nlink (di_of s i)"
    using s1(4) by (auto simp: fkeep_def)
  show ?thesis
  proof (cases "?n > 0 \<and> unat ?size < unat off + ?n")
    case False
    then have mx: "max (unat ?size) (unat off + ?n) = unat ?size" using io by auto
    have "inode_ok s1 i" using s1(3) h k1 pr1 mx by (simp add: inode_ok_def)
    moreover have "writei dv i src off s = Inr (Some ?n, s1)"
      using run False o k1 by (auto simp: word_less_nat_alt)
    moreover have "contents s1 i = take (unat off) (contents s i) @ src @ drop (unat off + ?n) (contents s i)"
      using contents_write [OF s1(7) io max h(4)] k1 mx by simp
    ultimately show ?thesis using s1(2) ko k1 in1 logs_mono [OF s1(8)] s1(9) by (intro exI [of _ s1]) auto
  next
    case True
    define s2 where "s2 = upd_di i (\<lambda>d. d\<lparr>di_size := off + of_nat ?n\<rparr>) s1"
    let ?t = "iupd_state i s2"
    have mx: "max (unat ?size) (unat off + ?n) = unat off + ?n" using True by auto
    have s2: "fs_ok s2" "fs_view s2 = fs_view s1" "fs_sb s2 = fs_sb s1" "fs_nblk s2 = fs_nblk s1" "fs_dev s2 = fs_dev s1"
      "fs_icache s2 = (fs_icache s1)(i := (inode_of s1 i)\<lparr>i_di := (di_of s1 i)\<lparr>di_size := off + of_nat ?n\<rparr>\<rparr>)"
      using s1(2) by (simp_all add: s2_def upd_di_def)
    note uf = upd_size_file [OF s1(3) s2_def]
    have ino2: "inode_ok s2 i"
      using uf(1,2) h k1 pr1 mx o(1) max s2(3) by (simp add: inode_ok_def present_def s2(6))
    note iu = iupd_file [OF s2(1) ino2]
    have "keeps_others i s ?t"
      using iupd_others [OF s2(1) _ _ uf(1) ko s2(2-6)] ino2 k1 uf(4) by (simp add: inode_ok_def s2(6))
    moreover have "writei dv i src off s = Inr (Some ?n, ?t)"
      using run True o k1 iu(1) by (simp add: word_less_nat_alt s2_def)
    moreover have "contents ?t i = take (unat off) (contents s i) @ src @ drop (unat off + ?n) (contents s i)"
      unfolding iu(5) using contents_write [of s2 i "unat off" src s, OF _ io max h(4)] uf(3) s1(7) mx o(1)
      by (simp add: s2(6))
    moreover have w: "wset ?t i (unat off) ?n = wset s1 i (unat off) ?n"
    proof -
      have "fb ?t i (x div BSIZE) = fb s1 i (x div BSIZE)" if "unat off \<le> x \<and> x < unat off + ?n" for x
        using that pr1 mx uf(2) iu(4) [of "x div BSIZE"] by (auto simp: present_def)
      moreover have "ind_set ?t i = ind_set s1 i" using iu(4) uf(2) by (simp add: ind_set_def)
      ultimately show ?thesis unfolding wset_def by (auto) metis
    qed
    moreover have "logs (insert (unat (IBLOCK (i_inum (inode_of s i)) (fs_sb s))) (wset s1 i (unat off) ?n)) s ?t" (is "logs ?B _ _")
    proof -
      have "logs ?B s s1" using s1(8) by (rule logs_mono) auto
      then have "logs ?B s s2" by (simp add: s2_def)
      moreover have "logs ?B s2 ?t"
        unfolding iupd_state_def Let_def using k1 s2(3) by (intro logs_write) (simp add: s2(6))
      ultimately show ?thesis using logs_trans s2(3) k1 by (metis (no_types, lifting))
    qed
    moreover have "(inode_of s1 i)\<lparr>i_di := d\<rparr> = (inode_of s i)\<lparr>i_di := d\<rparr>" for d
      using s1(4) by (auto simp: fkeep_def)
    moreover have "card (free_blocks s) + no_ind ?t i \<le> card (free_blocks ?t) + nblocks (unat off) ?n + no_ind s i"
    proof -
      have "free_blocks ?t = free_blocks s1"
        using iupdate_ok(6) [OF s2(1), of i] ino2 s2(2,3) by (simp add: free_blocks_def used_def inode_ok_def file_ok_def)
      then show ?thesis using s1(9) iu(4) [OF order_refl] uf(2) by simp
    qed
    ultimately show ?thesis using iu(2,3) k1 in1(2) by (intro exI [of _ ?t]) (simp add: s2(6) w)
  qed
qed

lemma readi_ok:
  assumes ok: "fs_ok s" and f: "inode_ok s i" and ty: "di_type (di_of s i) \<noteq> T_DEV"
    and off: "off \<le> di_size (di_of s i)" and no: "unat off + unat n < 4294967296"
  shows "readi dv i off n s = Inr (Some (slice (contents s i) (unat off) (unat n)), s)"
proof -
  let ?size = "di_size (di_of s i)"
  have h: "file_ok s i" "i_dev (inode_of s i) = 1" "present s i 0 (unat ?size)" using f by (auto simp: inode_ok_def)
  have on: "unat (off + n) = unat off + unat n" using no by (rule unat_add_u32)
  let ?n = "if off + n > ?size then ?size - off else n"
  have un: "unat ?n = min (unat n) (unat ?size - unat off)"
    using off on by (auto simp: word_less_nat_alt word_le_nat_alt unat_sub)
  have io: "unat off \<le> unat ?size" using off by (simp add: word_le_nat_alt)
  have "present s i (unat off) (unat ?n)" using h(3) io unfolding un present_def by auto
  from readi_loop_ok [OF ok h(1,2) this] have "readi_loop i (unat off) (unat ?n) s =
      Inr (map (fbyte s i) [unat off..<unat off + unat ?n], s)" .
  moreover have "map (fbyte s i) [unat off..<unat off + unat ?n] = slice (contents s i) (unat off) (unat n)"
    unfolding un using io by (auto simp: slice_def contents_def take_map drop_map min_def)
  moreover have c: "\<not> off > ?size" "\<not> off + n < off" using off on by (simp_all add: not_less word_le_nat_alt)
  ultimately show ?thesis
    unfolding readi_def Let_def by (simp only: c ty if_False simp_thms andthen_simps prod.case)
qed

end
