(* ===== verification/Xv6_Inode.thy ===== *)
theory Xv6_Inode
  imports Xv6_Fs
begin

text \<open>
  Truncation, the inode cache and the claims on blocks, inodes and file contents: \<open>itrunc\<close> gives
  back exactly the blocks of a file, \<open>iget\<close>, \<open>ilock\<close> and \<open>iput\<close> keep the cache coherent with the
  disk, and \<open>readi\<close> and \<open>writei\<close> implement a file as a list of bytes.
\<close>

section \<open>Truncation\<close>

text \<open>The blocks \<open>X\<close> have been returned to the free map, nothing else has changed.\<close>

definition freed :: "nat set \<Rightarrow> 'd fsys \<Rightarrow> 'd fsys \<Rightarrow> bool" where
  "freed X s s' \<longleftrightarrow> fs_ok s' \<and> fs_sb s' = fs_sb s \<and> fs_nblk s' = fs_nblk s \<and> fs_dev s' = fs_dev s \<and>
     (\<forall>b<unat (sb_size (fs_sb s)). used s' b \<longleftrightarrow> used s b \<and> b \<notin> X) \<and>
     (\<forall>k. k < unat (sb_bmapstart (fs_sb s)) \<or> dstart (fs_sb s) \<le> k \<longrightarrow> fs_view s' k = fs_view s k)"

lemma freed_refl: "fs_ok s \<Longrightarrow> freed {} s s" by (simp add: freed_def)

lemma freed_trans: "freed X s s1 \<Longrightarrow> freed Y s1 s2 \<Longrightarrow> freed (X \<union> Y) s s2"
  by (auto simp: freed_def)

lemma freed_upd [simp]: "freed X s (upd_di i f s') = freed X s s'"
  by (simp add: freed_def upd_di_def)

lemma freed_free: "freed X s s' \<Longrightarrow> X \<subseteq> {b. b < unat (sb_size (fs_sb s))} \<Longrightarrow> free_blocks s' = free_blocks s \<union> X"
  by (auto simp: freed_def free_blocks_def)

definition data_used :: "'d fsys \<Rightarrow> u32 \<Rightarrow> bool" where
  "data_used s b \<longleftrightarrow> dstart (fs_sb s) \<le> unat b \<and> unat b < unat (sb_size (fs_sb s)) \<and> used s (unat b)"

lemma data_used_freed: "freed X s s' \<Longrightarrow> data_used s b \<Longrightarrow> unat b \<notin> X \<Longrightarrow> data_used s' b"
  by (auto simp: freed_def data_used_def)

lemma bfree_freed:
  assumes "fs_ok s" "data_used s b"
  shows "bfree 1 b s = Inr (free_state b s)" "freed {unat b} s (free_state b s)"
proof -
  have b: "dstart (fs_sb s) \<le> unat b" "unat b < unat (sb_size (fs_sb s))" "used s (unat b)"
    using assms(2) by (auto simp: data_used_def)
  show "bfree 1 b s = Inr (free_state b s)" using bfree_ok [OF assms(1) b(2,3)] by (simp add: free_state_def)
  show "freed {unat b} s (free_state b s)" using free_state_ok [OF assms(1) b(1,2)] by (auto simp: freed_def)
qed

definition addr_set :: "u32 list \<Rightarrow> nat set" where
  "addr_set as = unat ` (set as - {0})"

lemma addr_set_simps [simp]:
  "addr_set [] = {}" "addr_set (a # as) = (if a = 0 then addr_set as else insert (unat a) (addr_set as))"
  by (auto simp: addr_set_def)

lemma in_addr_set: "unat a \<in> addr_set as \<longleftrightarrow> a \<noteq> 0 \<and> a \<in> set as"
  by (auto simp: addr_set_def dest: unsigned_word_eqI)

lemma itrunc_indirect_ok:
  "fs_ok s \<Longrightarrow> \<forall>a\<in>set as. a \<noteq> 0 \<longrightarrow> data_used s a \<Longrightarrow> distinct (filter (\<lambda>a. a \<noteq> 0) as) \<Longrightarrow>
   \<exists>s'. itrunc_indirect 1 as s = Inr s' \<and> freed (addr_set as) s s' \<and> fs_icache s' = fs_icache s"
proof (induction as arbitrary: s)
  case Nil
  then show ?case by (simp add: freed_refl)
next
  case (Cons a as)
  show ?case
  proof (cases "a = 0")
    case True
    then show ?thesis using Cons by simp
  next
    case False
    let ?t = "free_state a s"
    have du: "data_used s a" using Cons.prems(2) False by simp
    note fr = bfree_freed [OF Cons.prems(1) du]
    have "\<forall>x\<in>set as. x \<noteq> 0 \<longrightarrow> data_used ?t x"
    proof (intro ballI impI)
      fix x assume x: "x \<in> set as" "x \<noteq> 0"
      then have "x \<noteq> a" using Cons.prems(3) False by auto
      then have "unat x \<notin> {unat a}" by (auto dest: unsigned_word_eqI)
      then show "data_used ?t x" using data_used_freed [OF fr(2)] Cons.prems(2) x by simp
    qed
    moreover have "fs_ok ?t" using fr(2) by (simp add: freed_def)
    ultimately obtain s' where s': "itrunc_indirect 1 as ?t = Inr s'" "freed (addr_set as) ?t s'" "fs_icache s' = fs_icache ?t"
      using Cons.IH [of ?t] Cons.prems(3) False by auto
    then show ?thesis using False fr(1) freed_trans [OF fr(2) s'(2)] by simp
  qed
qed

text \<open>The direct blocks are freed in order; entry \<open>j\<close> is cleared when its block is freed.\<close>

lemma itrunc_direct_ok:
  "fs_ok s \<Longrightarrow> i_dev (inode_of s i) = 1 \<Longrightarrow> length (di_addrs (di_of s i)) = NDIRECT + 1 \<Longrightarrow> m \<le> NDIRECT \<Longrightarrow>
   \<forall>a\<in>set (drop m (take NDIRECT (di_addrs (di_of s i)))). a \<noteq> 0 \<longrightarrow> data_used s a \<Longrightarrow>
   distinct (filter (\<lambda>a. a \<noteq> 0) (drop m (take NDIRECT (di_addrs (di_of s i))))) \<Longrightarrow>
   \<exists>s'. itrunc_direct i [m..<NDIRECT] s = Inr s' \<and>
     freed (addr_set (drop m (take NDIRECT (di_addrs (di_of s i))))) s s' \<and>
     fs_icache s' = (fs_icache s)(i := (inode_of s i)\<lparr>i_di := (di_of s i)\<lparr>di_addrs :=
       take m (di_addrs (di_of s i)) @ replicate (NDIRECT - m) 0 @ [di_addrs (di_of s i) ! NDIRECT]\<rparr>\<rparr>)"
proof (induction "NDIRECT - m" arbitrary: m s)
  case 0
  let ?A = "di_addrs (di_of s i)"
  have m: "m = NDIRECT" using 0 by simp
  have "take NDIRECT ?A @ [?A ! NDIRECT] = ?A" using 0(4) by (simp add: take_Suc_conv_app_nth [symmetric])
  then show ?case using 0(2) by (simp add: m freed_refl)
next
  case (Suc d)
  let ?A = "di_addrs (di_of s i)"
  have m: "m < NDIRECT" "m < length ?A" "[m..<NDIRECT] = m # [Suc m..<NDIRECT]" using Suc.hyps(2) Suc.prems(3) by (simp_all add: upt_conv_Cons)
  have dr: "drop m (take NDIRECT ?A) = ?A ! m # drop (Suc m) (take NDIRECT ?A)"
    using m(1,2) by (subst Cons_nth_drop_Suc [symmetric]) simp_all
  have tk: "take (Suc m) ?A = take m ?A @ [?A ! m]" using m(2) by (rule take_Suc_conv_app_nth)
  have d: "d = NDIRECT - Suc m" using Suc.hyps(2) by simp
  show ?case
  proof (cases "?A ! m = 0")
    case True
    have ih: "\<forall>a\<in>set (drop (Suc m) (take NDIRECT ?A)). a \<noteq> 0 \<longrightarrow> data_used s a"
      "distinct (filter (\<lambda>a. a \<noteq> 0) (drop (Suc m) (take NDIRECT ?A)))"
      using Suc.prems(5,6) True unfolding dr by auto
    have "replicate (NDIRECT - m) (0 :: u32) = 0 # replicate (NDIRECT - Suc m) 0"
      using m(1) by (simp add: Suc_diff_Suc [symmetric])
    then show ?thesis
      using Suc.hyps(1) [OF d Suc.prems(1-3) _ ih] m(1) True by (simp add: m(3) dr tk)
  next
    case False
    let ?t = "upd_di i (\<lambda>d. d\<lparr>di_addrs := (di_addrs d)[m := 0]\<rparr>) (free_state (?A ! m) s)"
    have du: "data_used s (?A ! m)" using Suc.prems(5) False unfolding dr by simp
    note fr = bfree_freed [OF Suc.prems(1) du]
    have fr': "freed {unat (?A ! m)} s ?t" using fr(2) by simp
    have At: "di_addrs (di_of ?t i) = ?A[m := 0]" "i_dev (inode_of ?t i) = 1" using Suc.prems(2) by (simp_all add: upd_di_def)
    have drt: "drop (Suc m) (take NDIRECT (?A[m := 0])) = drop (Suc m) (take NDIRECT ?A)"
      by (simp add: take_update_swap)
    have "data_used ?t x" if x: "x \<in> set (drop (Suc m) (take NDIRECT ?A))" "x \<noteq> 0" for x
    proof -
      have "x \<noteq> ?A ! m" using Suc.prems(6) False x unfolding dr by auto
      then have "unat x \<notin> {unat (?A ! m)}" by (auto dest: unsigned_word_eqI)
      then show ?thesis using data_used_freed [OF fr'] Suc.prems(5) x unfolding dr by simp
    qed
    then have ih: "\<forall>a\<in>set (drop (Suc m) (take NDIRECT (di_addrs (di_of ?t i)))). a \<noteq> 0 \<longrightarrow> data_used ?t a"
      "distinct (filter (\<lambda>a. a \<noteq> 0) (drop (Suc m) (take NDIRECT (di_addrs (di_of ?t i)))))"
      using Suc.prems(6) False unfolding At drt dr by auto
    have pre: "fs_ok ?t" "length (di_addrs (di_of ?t i)) = NDIRECT + 1" "Suc m \<le> NDIRECT"
      using fr' Suc.prems(3) m(1) At by (auto simp: freed_def)
    from Suc.hyps(1) [OF d pre(1) At(2) pre(2,3) ih] obtain s' where
      s': "itrunc_direct i [Suc m..<NDIRECT] ?t = Inr s'" "freed (addr_set (drop (Suc m) (take NDIRECT ?A))) ?t s'"
      "fs_icache s' = (fs_icache ?t)(i := (inode_of ?t i)\<lparr>i_di := (di_of ?t i)\<lparr>di_addrs :=
         take (Suc m) (?A[m := 0]) @ replicate (NDIRECT - Suc m) 0 @ [?A[m := 0] ! NDIRECT]\<rparr>\<rparr>)"
      unfolding At drt by blast
    have le: "take (Suc m) (?A[m := 0]) @ replicate (NDIRECT - Suc m) 0 @ [?A[m := 0] ! NDIRECT] =
        take m ?A @ replicate (NDIRECT - m) 0 @ [?A ! NDIRECT]"
      using m(1,2) by (simp add: take_Suc_conv_app_nth Suc_diff_Suc [symmetric])
    have "fs_icache s' = (fs_icache s)(i := (inode_of s i)\<lparr>i_di := (di_of s i)\<lparr>di_addrs :=
         take m ?A @ replicate (NDIRECT - m) 0 @ [?A ! NDIRECT]\<rparr>\<rparr>)"
      using s'(3) unfolding le by (simp add: upd_di_def)
    then show ?thesis
      using False fr(1) s'(1) freed_trans [OF fr' s'(2)] Suc.prems(2) by (simp add: m(3) dr)
  qed
qed

lemma max_facts [simp]: "NDIRECT < MAXFILE" "NDIRECT \<noteq> MAXFILE" "NDIRECT \<le> MAXFILE" "MAXFILE - NDIRECT = NINDIRECT"
  "\<not> MAXFILE < NDIRECT"
  by (simp_all add: xv6_consts)

lemma distinct_blocks:
  assumes "file_ok s i" "distinct ks" "set ks \<subseteq> {..MAXFILE}"
  shows "distinct (filter (\<lambda>a. a \<noteq> 0) (map (fb s i) ks))"
  using assms(2,3)
proof (induction ks)
  case (Cons k ks)
  have "fb s i k \<notin> fb s i ` set ks" if nz: "fb s i k \<noteq> 0"
  proof
    assume "fb s i k \<in> fb s i ` set ks"
    then obtain k' where "k' \<in> set ks" "fb s i k = fb s i k'" by blast
    then have "k = k'" using Cons.prems(2) nz by (intro file_ok_inj [OF assms(1)]) auto
    then show False using \<open>k' \<in> set ks\<close> Cons.prems(1) by simp
  qed
  then show ?case using Cons by simp
qed simp

lemma data_used_fb: "file_ok s i \<Longrightarrow> k \<le> MAXFILE \<Longrightarrow> fb s i k \<noteq> 0 \<Longrightarrow> data_used s (fb s i k)"
  using own_bounds [of s i "unat (fb s i k)"] fb_own [of k s i] by (simp add: data_used_def)

lemma direct_addrs: "file_ok s i \<Longrightarrow> take NDIRECT (di_addrs (di_of s i)) = map (fb s i) [0..<NDIRECT]"
  by (rule nth_equalityI) (auto simp: file_ok_def fb_def faddr_def)

lemma indirect_addrs:
  "fb s i MAXFILE \<noteq> 0 \<Longrightarrow> get32s (fs_view s (unat (fb s i MAXFILE))) 0 NINDIRECT = map (fb s i) [NDIRECT..<MAXFILE]"
proof (rule nth_equalityI)
  fix k
  assume nz: "fb s i MAXFILE \<noteq> 0" and "k < length (get32s (fs_view s (unat (fb s i MAXFILE))) 0 NINDIRECT)"
  then have k: "k < NINDIRECT" "NDIRECT + k < MAXFILE" by (simp_all add: MAXFILE_def)
  then show "get32s (fs_view s (unat (fb s i MAXFILE))) 0 NINDIRECT ! k = map (fb s i) [NDIRECT..<MAXFILE] ! k"
    using nz by (simp add: get32s_def fb_def faddr_def)
qed simp

lemma own_parts:
  assumes "file_ok s i"
  shows "own s i = addr_set (take NDIRECT (di_addrs (di_of s i))) \<union>
    (if fb s i MAXFILE = 0 then {} else addr_set (map (fb s i) [NDIRECT..<MAXFILE]) \<union> {unat (fb s i MAXFILE)})"
proof -
  have "own s i = addr_set (map (fb s i) ([0..<NDIRECT] @ [NDIRECT..<MAXFILE] @ [MAXFILE]))"
  proof -
    have "set ([0..<NDIRECT] @ [NDIRECT..<MAXFILE] @ [MAXFILE]) = {..MAXFILE}"
      using max_facts(1) by (auto simp del: max_facts)
    then have "set (map (fb s i) ([0..<NDIRECT] @ [NDIRECT..<MAXFILE] @ [MAXFILE])) = fb s i ` {..MAXFILE}" by (metis list.set_map)
    then show ?thesis by (auto simp: own_def addr_set_def)
  qed
  moreover have "fb s i k = 0" if "fb s i MAXFILE = 0" "NDIRECT \<le> k" "k < MAXFILE" for k
    using that by (auto simp: fb_def faddr_def)
  ultimately show ?thesis unfolding direct_addrs [OF assms] by (auto simp: addr_set_def)
qed

lemma freed_others:
  assumes ok: "fs_ok s" and f: "file_ok s i" and fr: "freed (own s i) s s'"
    and ic: "\<And>j. j \<noteq> i \<Longrightarrow> fs_icache s' j = fs_icache s j" and o: "own s' i = {}"
  shows "keeps_others i s s'"
proof -
  have sb: "sb_ok (fs_sb s)" "fs_sb s' = fs_sb s" using ok fr by (auto simp: fs_ok_def freed_def)
  have "disk_inode s' m = disk_inode s m" if "unat m < unat (sb_ninodes (fs_sb s))" for m
    using IBLOCK_unat(2) [OF sb(1) that] fr by (simp add: disk_inode_def freed_def)
  moreover have "inode_ok s' j \<and> contents s' j = contents s j" if j: "j \<noteq> i" "inode_ok s j" "own s i \<inter> own s j = {}" for j
  proof -
    have fj: "file_ok s j" using j(2) by (simp add: inode_ok_def)
    have "fs_view s' x = fs_view s x" if "x \<in> own s j" for x
      using fr own_bounds [OF fj that] by (simp add: freed_def)
    moreover have "used s' b" if "b < unat (sb_size (fs_sb s))" "b \<in> own s j" for b
      using fr own_bounds [OF fj that(2)] j(3) that by (auto simp: freed_def)
    ultimately show ?thesis using other_file [OF sb(2) ic [OF j(1)] j(2)] by blast
  qed
  ultimately show ?thesis using fr ic o by (auto simp: keeps_others_def freed_def)
qed

lemma empty_file:
  assumes "di_addrs (di_of s i) = replicate (NDIRECT + 1) 0"
  shows "fb s i k = 0 \<or> MAXFILE < k" "own s i = {}" "file_ok s i"
proof -
  have z: "fb s i k = 0" if "k \<le> MAXFILE" for k
    using that assms by (simp add: fb_def faddr_def del: replicate_Suc replicate.simps)
  then show "fb s i k = 0 \<or> MAXFILE < k" by (meson not_le)
  show o: "own s i = {}" using z by (auto simp: own_def)
  show "file_ok s i" using assms z o by (auto simp: file_ok_def)
qed

lemma itrunc_indirect_part:
  assumes ok: "fs_ok s1" and dev: "i_dev (inode_of s1 i) = 1" and f: "file_ok s i" and fr: "freed X s s1"
    and X: "X = addr_set (take NDIRECT (di_addrs (di_of s i)))"
    and A: "di_addrs (di_of s1 i) = replicate NDIRECT 0 @ [fb s i MAXFILE]"
  shows "\<exists>s2. (let ind = di_addrs (di_of s1 i) ! NDIRECT
                  in if ind \<noteq> 0
                     then andthen (fs_bread 1 ind s1) (\<lambda>bp.
                          andthen (itrunc_indirect 1 (get32s bp 0 NINDIRECT) s1) (\<lambda>s.
                          andthen (bfree 1 ind s) (\<lambda>s.
                            Inr (upd_di i (\<lambda>d. d\<lparr>di_addrs := (di_addrs d)[NDIRECT := 0]\<rparr>) s))))
                     else Inr s1) = Inr s2 \<and> freed (own s i) s s2 \<and>
    fs_icache s2 = (fs_icache s1)(i := (inode_of s1 i)\<lparr>i_di := (di_of s1 i)\<lparr>di_addrs := replicate (NDIRECT + 1) 0\<rparr>\<rparr>)"
proof -
  let ?ind = "fb s i MAXFILE" let ?es = "map (fb s i) [NDIRECT..<MAXFILE]"
  have Ai: "di_addrs (di_of s1 i) ! NDIRECT = ?ind" by (simp add: A nth_append)
  have rp: "replicate NDIRECT 0 @ [0 :: u32] = replicate (NDIRECT + 1) 0" by (simp add: replicate_append_same)
  show ?thesis
  proof (cases "?ind = 0")
    case True
    have "fs_icache s1 = (fs_icache s1)(i := (inode_of s1 i)\<lparr>i_di := (di_of s1 i)\<lparr>di_addrs := replicate (NDIRECT + 1) 0\<rparr>\<rparr>)"
      using A True rp by (metis (no_types, lifting) dinode.surjective dinode.update_convs(6) fun_upd_triv inode.surjective inode.update_convs(6))
    then show ?thesis using True Ai fr own_parts [OF f] X by (auto simp: Let_def)
  next
    case False
    have ind: "data_used s ?ind" by (rule data_used_fb [OF f order_refl False])
    have disj: "unat (fb s i k) \<notin> X" if "NDIRECT \<le> k" "k \<le> MAXFILE" "fb s i k \<noteq> 0" for k
      unfolding X direct_addrs [OF f] in_addr_set
      using file_ok_inj [OF f that(2) _ that(3)] that(1,3) max_facts(1)
      by (auto simp del: max_facts) (metis le_trans less_imp_le not_le)
    have ib: "unat ?ind < fs_nblk s1" "fs_view s1 (unat ?ind) = fs_view s (unat ?ind)"
      using ind fr fs_okD(2) [OF ok] by (auto simp: data_used_def freed_def)
    have ent: "get32s (fs_view s1 (unat ?ind)) 0 NINDIRECT = ?es" unfolding ib(2) by (rule indirect_addrs [OF False])
    have "\<forall>a\<in>set ?es. a \<noteq> 0 \<longrightarrow> data_used s1 a"
      using data_used_freed [OF fr data_used_fb [OF f]] disj by auto
    moreover have "distinct (filter (\<lambda>a. a \<noteq> 0) ?es)" by (rule distinct_blocks [OF f]) auto
    ultimately obtain s2 where s2: "itrunc_indirect 1 ?es s1 = Inr s2" "freed (addr_set ?es) s1 s2" "fs_icache s2 = fs_icache s1"
      using itrunc_indirect_ok [OF ok] by blast
    note fr2 = freed_trans [OF fr s2(2)]
    have "?ind \<noteq> fb s i k" if "k < MAXFILE" for k
      using file_ok_inj [OF f order_refl _ False, of k] that by (metis less_imp_le nat_neq_iff)
    then have "?ind \<notin> set ?es" by (metis (no_types, lifting) atLeastLessThan_iff imageE list.set_map set_upt)
    then have "unat ?ind \<notin> addr_set ?es" unfolding in_addr_set by blast
    then have "data_used s2 ?ind" using data_used_freed [OF fr2 ind] disj [of MAXFILE] False by simp
    moreover have "fs_ok s2" using s2(2) by (simp add: freed_def)
    ultimately have b: "bfree 1 ?ind s2 = Inr (free_state ?ind s2)" "freed {unat ?ind} s2 (free_state ?ind s2)"
      using bfree_freed by blast+
    let ?t = "upd_di i (\<lambda>d. d\<lparr>di_addrs := (di_addrs d)[NDIRECT := 0]\<rparr>) (free_state ?ind s2)"
    have "freed (own s i) s ?t"
      using freed_trans [OF fr2 b(2)] False unfolding own_parts [OF f] X by (simp add: Un_assoc)
    moreover have "(di_addrs (di_of s1 i))[NDIRECT := 0] = replicate (NDIRECT + 1) 0"
      unfolding A rp [symmetric] by (simp add: list_update_append)
    then have "fs_icache ?t = (fs_icache s1)(i := (inode_of s1 i)\<lparr>i_di := (di_of s1 i)\<lparr>di_addrs := replicate (NDIRECT + 1) 0\<rparr>\<rparr>)"
      by (simp add: upd_di_def s2(3))
    ultimately show ?thesis using False Ai ib(1) ent s2(1) b(1) by (intro exI [of _ ?t]) (simp add: Let_def)
  qed
qed

lemma itrunc_ok:
  assumes ok: "fs_ok s" and f: "file_ok s i" and dev: "i_dev (inode_of s i) = 1"
    and n: "unat (i_inum (inode_of s i)) < unat (sb_ninodes (fs_sb s))"
  shows "\<exists>s'. itrunc i s = Inr s' \<and> fs_ok s' \<and> inode_ok s' i \<and> own s' i = {} \<and>
    free_blocks s' = free_blocks s \<union> own s i \<and> keeps_others i s s' \<and>
    inode_of s' i = (inode_of s i)\<lparr>i_di := (di_of s i)\<lparr>di_addrs := replicate (NDIRECT + 1) 0, di_size := 0\<rparr>\<rparr> \<and>
    disk_inode s' (i_inum (inode_of s i)) = di_of s' i"
proof -
  let ?A = "di_addrs (di_of s i)" let ?Z = "replicate (NDIRECT + 1) (0 :: u32)"
  have l: "length ?A = NDIRECT + 1" using f by (simp add: file_ok_def)
  have Ai: "?A ! NDIRECT = fb s i MAXFILE" by (simp add: fb_def faddr_def)
  have "\<forall>a\<in>set (take NDIRECT ?A). a \<noteq> 0 \<longrightarrow> data_used s a"
    unfolding direct_addrs [OF f] using data_used_fb [OF f] max_facts(1) by (auto simp del: max_facts)
  moreover have "distinct (filter (\<lambda>a. a \<noteq> 0) (take NDIRECT ?A))"
    unfolding direct_addrs [OF f] using max_facts(1) by (intro distinct_blocks [OF f]) (auto simp del: max_facts)
  ultimately obtain s1 where s1: "itrunc_direct i [0..<NDIRECT] s = Inr s1" "freed (addr_set (take NDIRECT ?A)) s s1"
    "fs_icache s1 = (fs_icache s)(i := (inode_of s i)\<lparr>i_di := (di_of s i)\<lparr>di_addrs := replicate NDIRECT 0 @ [fb s i MAXFILE]\<rparr>\<rparr>)"
    using itrunc_direct_ok [OF ok dev l, of 0] Ai by auto
  have ok1: "fs_ok s1" "i_dev (inode_of s1 i) = 1" "di_addrs (di_of s1 i) = replicate NDIRECT 0 @ [fb s i MAXFILE]"
    using s1(2) dev by (simp_all add: freed_def s1(3))
  from itrunc_indirect_part [OF ok1(1,2) f s1(2) refl ok1(3)] obtain s2 where
    s2: "(let ind = di_addrs (di_of s1 i) ! NDIRECT
                  in if ind \<noteq> 0
                     then andthen (fs_bread 1 ind s1) (\<lambda>bp.
                          andthen (itrunc_indirect 1 (get32s bp 0 NINDIRECT) s1) (\<lambda>s.
                          andthen (bfree 1 ind s) (\<lambda>s.
                            Inr (upd_di i (\<lambda>d. d\<lparr>di_addrs := (di_addrs d)[NDIRECT := 0]\<rparr>) s))))
                     else Inr s1) = Inr s2" "freed (own s i) s s2"
    "fs_icache s2 = (fs_icache s)(i := (inode_of s i)\<lparr>i_di := (di_of s i)\<lparr>di_addrs := ?Z\<rparr>\<rparr>)"
    by (auto simp: s1(3))
  define s3 where "s3 = upd_di i (\<lambda>d. d\<lparr>di_size := 0\<rparr>) s2"
  have s3: "fs_view s3 = fs_view s2" "fs_sb s3 = fs_sb s2" "fs_nblk s3 = fs_nblk s2" "fs_dev s3 = fs_dev s2" "fs_ok s3"
    "fs_icache s3 = (fs_icache s2)(i := (inode_of s i)\<lparr>i_di := (di_of s i)\<lparr>di_addrs := ?Z, di_size := 0\<rparr>\<rparr>)"
    "free_blocks s3 = free_blocks s2"
    using s2(2) by (simp_all add: s3_def upd_di_def s2(3) freed_def)
  have sb: "fs_sb s2 = fs_sb s" using s2(2) by (simp add: freed_def)
  have e2: "own s2 i = {}" by (rule empty_file(2)) (simp add: s2(3))
  have e3: "own s3 i = {}" "file_ok s3 i" using empty_file(2,3) [of s3 i] by (simp_all add: s3(6))
  have ino: "inode_ok s3 i" using e3 dev n sb by (simp add: inode_ok_def present_def s3(2,6))
  note iu = iupd_file [OF s3(5) ino]
  have "keeps_others i s s2" using freed_others [OF ok f s2(2) _ e2] by (simp add: s2(3))
  then have "keeps_others i s (iupd_state i s3)"
    using iupd_others [OF s3(5) _ _ e3(2) _ s3(1-4,6)] e3(1) dev n sb by (simp add: s3(2,6))
  moreover have "itrunc i s = Inr (iupd_state i s3)"
    using s1(1) s2(1) iu(1) dev unfolding itrunc_def by (simp add: Let_def s3_def)
  moreover have "free_blocks (iupd_state i s3) = free_blocks s \<union> own s i"
  proof -
    have "free_blocks (iupd_state i s3) = free_blocks s3"
      using iupdate_ok(6) [OF s3(5), of i] ino by (simp add: free_blocks_def inode_ok_def file_ok_def)
    also have "\<dots> = free_blocks s \<union> own s i" unfolding s3(7) using own_bounds [OF f] by (intro freed_free [OF s2(2)]) auto
    finally show ?thesis .
  qed
  ultimately show ?thesis using iu e3 by (intro exI [of _ "iupd_state i s3"]) (simp add: s3(6))
qed

section \<open>A file as a list of bytes\<close>

text \<open>
  The interface of file contents: writing a range at or before the end replaces or extends the
  bytes, reading returns a range of them. \<open>room\<close> is a number of free blocks.
\<close>

locale byte_file =
  fixes inv :: "'s \<Rightarrow> bool" and bytes :: "'s \<Rightarrow> u8 list" and room :: "'s \<Rightarrow> nat"
    and wr :: "u32 \<Rightarrow> u8 list \<Rightarrow> 's \<Rightarrow> (nat option \<times> 's) result"
    and rd :: "u32 \<Rightarrow> u32 \<Rightarrow> 's \<Rightarrow> (u8 list option \<times> 's) result"
  assumes wr_ok: "inv s \<Longrightarrow> unat off \<le> length (bytes s) \<Longrightarrow> unat off + length src \<le> MAXFILE * BSIZE \<Longrightarrow>
      nblocks (unat off) (length src) \<le> room s \<Longrightarrow>
      \<exists>s'. wr off src s = Inr (Some (length src), s') \<and> inv s' \<and>
        bytes s' = take (unat off) (bytes s) @ src @ drop (unat off + length src) (bytes s) \<and>
        room s \<le> room s' + nblocks (unat off) (length src)"
    and rd_ok: "inv s \<Longrightarrow> unat off \<le> length (bytes s) \<Longrightarrow> unat off + unat n < 4294967296 \<Longrightarrow>
      rd off n s = Inr (Some (slice (bytes s) (unat off) (unat n)), s)"
begin

text \<open>Writing one piece after the other.\<close>

fun wr_all :: "u32 \<Rightarrow> u8 list list \<Rightarrow> 's \<Rightarrow> 's result" where
  "wr_all off [] s = Inr s"
| "wr_all off (p # ps) s = andthen (wr off p s) (\<lambda>(_, s). wr_all (off + of_nat (length p)) ps s)"

lemma wr_all_ok:
  "inv s \<Longrightarrow> unat off \<le> length (bytes s) \<Longrightarrow> unat off + length (concat ps) \<le> MAXFILE * BSIZE \<Longrightarrow>
   (\<Sum>p\<leftarrow>ps. length p + 1) \<le> room s \<Longrightarrow>
   \<exists>s'. wr_all off ps s = Inr s' \<and> inv s' \<and>
     bytes s' = take (unat off) (bytes s) @ concat ps @ drop (unat off + length (concat ps)) (bytes s)"
proof (induction ps arbitrary: s off)
  case (Cons p ps)
  have nb: "nblocks (unat off) (length p) \<le> length p + 1"
  proof (cases "length p = 0")
    case False
    have "(unat off + length p - 1) div BSIZE \<le> unat off div BSIZE + length p"
      using div_le_mono [of "unat off + length p - 1" "unat off + length p * BSIZE" BSIZE] by (simp add: BSIZE_def)
    then show ?thesis using False by (simp add: nblocks_def)
  qed (simp add: nblocks_def)
  have p: "unat off + length p \<le> MAXFILE * BSIZE" using Cons.prems(3) by simp
  obtain s1 where s1: "wr off p s = Inr (Some (length p), s1)" "inv s1"
    "bytes s1 = take (unat off) (bytes s) @ p @ drop (unat off + length p) (bytes s)"
    "room s \<le> room s1 + nblocks (unat off) (length p)"
    using wr_ok [OF Cons.prems(1,2) p] nb Cons.prems(4) by auto
  note o = unat_size_max(1) [OF p]
  have "unat (off + of_nat (length p)) \<le> length (bytes s1)" using o s1(3) Cons.prems(2) by simp
  then obtain s' where s': "wr_all (off + of_nat (length p)) ps s1 = Inr s'" "inv s'"
    "bytes s' = take (unat off + length p) (bytes s1) @ concat ps @ drop (unat off + length p + length (concat ps)) (bytes s1)"
    using Cons.IH [OF s1(2), of "off + of_nat (length p)"] o Cons.prems(3,4) s1(4) nb by auto
  have "take (unat off + length p) (bytes s1) = take (unat off) (bytes s) @ p" using s1(3) Cons.prems(2) by simp
  moreover have "drop (unat off + length p + length (concat ps)) (bytes s1) = drop (unat off + length (concat (p # ps))) (bytes s)"
    using s1(3) Cons.prems(2) by (simp add: add.commute add.left_commute)
  ultimately show ?case using s1(1) s' by simp
qed simp

end

definition plain_file :: "nat \<Rightarrow> 'd fsys \<Rightarrow> bool" where
  "plain_file i s \<longleftrightarrow> fs_ok s \<and> inode_ok s i \<and> di_type (di_of s i) \<noteq> T_DEV"

definition file_room :: "nat \<Rightarrow> 'd fsys \<Rightarrow> nat" where
  "file_room i s = card (free_blocks s) - no_ind s i"

lemma length_contents [simp]: "length (contents s i) = unat (di_size (di_of s i))"
  by (simp add: contents_def)

lemma writei_plain:
  assumes "plain_file i s" "unat off \<le> length (contents s i)" "unat off + length src \<le> MAXFILE * BSIZE"
    "nblocks (unat off) (length src) \<le> file_room i s"
  shows "\<exists>s'. writei dv i src off s = Inr (Some (length src), s') \<and> plain_file i s' \<and> keeps_others i s s' \<and>
    contents s' i = take (unat off) (contents s i) @ src @ drop (unat off + length src) (contents s i) \<and>
    file_room i s \<le> file_room i s' + nblocks (unat off) (length src)"
proof (cases "src = []")
  case True
  have h: "fs_ok s" "inode_ok s i" "di_type (di_of s i) \<noteq> T_DEV" "\<not> di_size (di_of s i) < off"
    using assms(1,2) by (simp_all add: plain_file_def word_less_nat_alt)
  have "writei dv i [] off s = Inr (Some 0, s)"
    using h assms(3) True by (simp add: writei_def Let_def writei_loop.simps)
  moreover have "keeps_others i s s" using h(2) by (intro fkeep_others [OF h(1)]) (simp_all add: inode_ok_def)
  ultimately show ?thesis using True assms(1) by simp
next
  case False
  then have "0 < nblocks (unat off) (length src)" by (simp add: nblocks_def)
  then have "nblocks (unat off) (length src) + no_ind s i \<le> card (free_blocks s)"
    using assms(4) unfolding file_room_def by linarith
  moreover have "fs_ok s" "inode_ok s i" "di_type (di_of s i) \<noteq> T_DEV" "off \<le> di_size (di_of s i)"
    using assms(1,2) by (simp_all add: plain_file_def word_le_nat_alt)
  ultimately obtain s' where s': "writei dv i src off s = Inr (Some (length src), s')" "fs_ok s'" "inode_ok s' i"
    "keeps_others i s s'" "contents s' i = take (unat off) (contents s i) @ src @ drop (unat off + length src) (contents s i)"
    "di_type (di_of s' i) = di_type (di_of s i)"
    "card (free_blocks s) + no_ind s' i \<le> card (free_blocks s') + nblocks (unat off) (length src) + no_ind s i"
    using writei_ok [of s i off src dv] assms(3) by blast
  have "file_room i s \<le> file_room i s' + nblocks (unat off) (length src)"
    using s'(7) unfolding file_room_def by linarith
  moreover have "plain_file i s'" using s' assms(1) by (simp add: plain_file_def)
  ultimately show ?thesis using s' by blast
qed

interpretation inode_file: byte_file "plain_file i" "\<lambda>s. contents s i" "file_room i"
  "\<lambda>off src. writei dv i src off" "readi dv i" for i dv
proof unfold_locales
  fix s :: "'a fsys" and off :: u32 and src :: "u8 list"
  assume "plain_file i s" "unat off \<le> length (contents s i)" "unat off + length src \<le> MAXFILE * BSIZE"
    "nblocks (unat off) (length src) \<le> file_room i s"
  from writei_plain [OF this, of dv]
  show "\<exists>s'. writei dv i src off s = Inr (Some (length src), s') \<and> plain_file i s' \<and>
      contents s' i = take (unat off) (contents s i) @ src @ drop (unat off + length src) (contents s i) \<and>
      file_room i s \<le> file_room i s' + nblocks (unat off) (length src)" by blast
next
  fix s :: "'a fsys" and off n :: u32
  assume "plain_file i s" "unat off \<le> length (contents s i)" "unat off + unat n < 4294967296"
  then show "readi dv i off n s = Inr (Some (slice (contents s i) (unat off) (unat n)), s)"
    by (intro readi_ok) (auto simp: plain_file_def word_le_nat_alt)
qed

section \<open>The inode cache\<close>

text \<open>No inode has two entries in use.\<close>

definition icache_uniq :: "'d fsys \<Rightarrow> bool" where
  "icache_uniq s \<longleftrightarrow> (\<forall>i<NINODE. \<forall>j<NINODE. 0 < i_ref (inode_of s i) \<longrightarrow> 0 < i_ref (inode_of s j) \<longrightarrow>
     i_dev (inode_of s i) = i_dev (inode_of s j) \<longrightarrow> i_inum (inode_of s i) = i_inum (inode_of s j) \<longrightarrow> i = j) \<and>
     (\<forall>i<NINODE. 0 \<le> i_ref (inode_of s i))"

text \<open>A valid entry in use is a copy of the inode on disk.\<close>

definition icache_coherent :: "'d fsys \<Rightarrow> bool" where
  "icache_coherent s \<longleftrightarrow> (\<forall>i<NINODE. 0 < i_ref (inode_of s i) \<longrightarrow> i_valid (inode_of s i) \<longrightarrow>
     di_of s i = disk_inode s (i_inum (inode_of s i)))"

lemma iget_cases:
  assumes "iget dev inum s = Inr (i, s')"
  shows "i < NINODE \<and>
    ((0 < i_ref (inode_of s i) \<and> i_dev (inode_of s i) = dev \<and> i_inum (inode_of s i) = inum \<and>
       s' = upd_inode i (\<lambda>ip. ip\<lparr>i_ref := i_ref ip + 1\<rparr>) s) \<or>
     (i_ref (inode_of s i) = 0 \<and>
       (\<forall>j<NINODE. \<not> (0 < i_ref (inode_of s j) \<and> i_dev (inode_of s j) = dev \<and> i_inum (inode_of s j) = inum)) \<and>
       s' = upd_inode i (\<lambda>ip. ip\<lparr>i_dev := dev, i_inum := inum, i_ref := 1, i_valid := False\<rparr>) s))"
  using assms unfolding iget_def
  by (auto simp: find_upt_None find_upt_Some split: option.splits)

lemma iget_total:
  "(\<exists>i<NINODE. i_ref (inode_of s i) = 0) \<Longrightarrow> \<exists>i s'. iget dev inum s = Inr (i, s')"
  by (auto simp: iget_def find_upt_None split: option.splits)

lemma iget_uniq:
  assumes u: "icache_uniq s" and g: "iget dev inum s = Inr (i, s')"
  shows "icache_uniq s'"
proof -
  have "i < NINODE" using iget_cases [OF g] by blast
  from iget_cases [OF g] consider
      "0 < i_ref (inode_of s i)" "s' = upd_inode i (\<lambda>ip. ip\<lparr>i_ref := i_ref ip + 1\<rparr>) s"
    | "\<forall>j<NINODE. \<not> (0 < i_ref (inode_of s j) \<and> i_dev (inode_of s j) = dev \<and> i_inum (inode_of s j) = inum)"
      "s' = upd_inode i (\<lambda>ip. ip\<lparr>i_dev := dev, i_inum := inum, i_ref := 1, i_valid := False\<rparr>) s"
    by blast
  then show ?thesis
  proof cases
    case 1
    then have e: "0 < i_ref (inode_of s' k) \<longleftrightarrow> 0 < i_ref (inode_of s k)" "i_dev (inode_of s' k) = i_dev (inode_of s k)"
      "i_inum (inode_of s' k) = i_inum (inode_of s k)" "0 \<le> i_ref (inode_of s k) \<Longrightarrow> 0 \<le> i_ref (inode_of s' k)" for k
      by auto
    show ?thesis using u by (simp add: icache_uniq_def e)
  next
    case 2
    then show ?thesis using u unfolding icache_uniq_def by (auto simp: upd_inode_def)
  qed
qed

lemma disk_inode_upd_inode [simp]: "disk_inode (upd_inode i f s) m = disk_inode s m"
  by (simp add: disk_inode_def)

lemma iget_coherent:
  assumes "icache_coherent s" and g: "iget dev inum s = Inr (i, s')"
  shows "icache_coherent s'"
  using assms(1) iget_cases [OF g] unfolding icache_coherent_def by auto

lemma ilock_coherent:
  assumes ok: "fs_ok s" and co: "icache_coherent s" and i: "i < NINODE" "0 < i_ref (inode_of s i)"
    and dev: "i_dev (inode_of s i) = 1" and n: "unat (i_inum (inode_of s i)) < unat (sb_ninodes (fs_sb s))"
    and lk: "\<not> sl_locked (i_lock (inode_of s i))"
    and ty: "di_type (disk_inode s (i_inum (inode_of s i))) \<noteq> 0"
  shows "\<exists>s'. ilock pid i s = Inr s' \<and> di_of s' i = disk_inode s (i_inum (inode_of s i)) \<and> i_valid (inode_of s' i) \<and>
    holdingsleep pid (i_lock (inode_of s' i)) \<and> icache_coherent s' \<and> fs_view s' = fs_view s \<and>
    (\<forall>j. j \<noteq> i \<longrightarrow> inode_of s' j = inode_of s j)"
proof -
  let ?m = "i_inum (inode_of s i)"
  have sb: "sb_ok (fs_sb s)" using ok by (simp add: fs_ok_def)
  have k: "unat (IBLOCK ?m (fs_sb s)) < fs_nblk s"
    using IBLOCK_unat(2) [OF sb n] fs_okD(1,2) [OF ok] by (simp add: dstart_def)
  show ?thesis
  proof (cases "i_valid (inode_of s i)")
    case True
    then have "di_of s i = disk_inode s ?m" using co i by (simp add: icache_coherent_def)
    then show ?thesis
      using True i lk co by (auto simp: ilock_def acquiresleep_def holdingsleep_def icache_coherent_def)
  next
    case False
    then show ?thesis
      using i lk co ty k dev
      by (auto simp: ilock_def acquiresleep_def holdingsleep_def icache_coherent_def disk_inode_def Let_def)
  qed
qed

section \<open>Claims\<close>

text \<open>
  A small file system: 64 blocks, inodes in blocks 3 and 4, the free map in block 5 with the
  metadata marked in use, data from block 6 on. Entry 0 of the inode cache is an empty file.
\<close>

definition demo_fs :: "unit fsys" where
  "demo_fs =
     \<lparr>fs_view = (\<lambda>_. zero_block)(5 := 0x3F # replicate 511 0), fs_wlog = [], fs_nblk = 64,
      fs_sb = \<lparr>sb_size = 64, sb_nblocks = 58, sb_ninodes = 8, sb_nlog = 1, sb_logstart = 2,
        sb_inodestart = 3, sb_bmapstart = 5\<rparr>,
      fs_icache = (\<lambda>_. \<lparr>i_dev = 0, i_inum = 0, i_ref = 0, i_lock = initsleeplock, i_valid = False, i_di = zero_dinode\<rparr>)
        (0 := \<lparr>i_dev = 1, i_inum = 1, i_ref = 1, i_lock = initsleeplock, i_valid = True,
               i_di = zero_dinode\<lparr>di_type := T_FILE\<rparr>\<rparr>),
      fs_dev = ()\<rparr>"

definition no_dev :: "'d devsw" where
  "no_dev = \<lparr>dv_read = (\<lambda>_. None), dv_write = (\<lambda>_. None)\<rparr>"

lemma demo_used: "b < 64 \<Longrightarrow> used demo_fs b \<longleftrightarrow> b < 6"
proof -
  assume b: "b < 64"
  then have u: "used demo_fs b \<longleftrightarrow> bit ((0x3F # replicate 511 0 :: u8 list) ! (b div 8)) (b mod 8)"
    by (simp add: used_def bm_used_bit bm_block_def demo_fs_def xv6_consts)
  show ?thesis
  proof (cases "b < 8")
    case True
    then have "b \<in> {0, 1, 2, 3, 4, 5, 6, 7}" by auto
    then show ?thesis unfolding u by auto
  next
    case False
    then obtain k where "b div 8 = Suc k" by (cases "b div 8") auto
    moreover from this have "k < 511" using b by auto
    ultimately show ?thesis unfolding u using False by simp
  qed
qed

lemma demo_fs_simps:
  "fs_nblk demo_fs = 64" "unat (sb_size (fs_sb demo_fs)) = 64" "unat (sb_ninodes (fs_sb demo_fs)) = 8"
  "dstart (fs_sb demo_fs) = 6" "inode_of demo_fs 0 = \<lparr>i_dev = 1, i_inum = 1, i_ref = 1, i_lock = initsleeplock, i_valid = True,
               i_di = zero_dinode\<lparr>di_type := T_FILE\<rparr>\<rparr>"
  by (simp_all add: demo_fs_def dstart_def nbitmap_def xv6_consts)

lemma demo_fs_ok: "fs_ok demo_fs"
proof -
  have "length (fs_view demo_fs k) = BSIZE" for k by (simp add: demo_fs_def zero_block_def BSIZE_def)
  moreover have "sb_ok (fs_sb demo_fs)" by (simp add: sb_ok_def demo_fs_def dstart_def nbitmap_def xv6_consts)
  ultimately show ?thesis using demo_used by (simp add: fs_ok_def demo_fs_simps)
qed

lemma demo_file: "plain_file 0 demo_fs" "own demo_fs 0 = {}" "file_room 0 demo_fs = 57"
proof -
  have z: "di_addrs (di_of demo_fs 0) = replicate (NDIRECT + 1) 0" by (simp add: demo_fs_simps zero_dinode_def)
  note e = empty_file [OF z]
  show "own demo_fs 0 = {}" by (rule e(2))
  show "plain_file 0 demo_fs"
    using demo_fs_ok e(3) by (simp add: plain_file_def inode_ok_def present_def demo_fs_simps zero_dinode_def T_DEV_def T_FILE_def)
  have "free_blocks demo_fs = {6..<64}" using demo_used by (auto simp: free_blocks_def demo_fs_simps)
  then show "file_room 0 demo_fs = 57" using e(1) [of MAXFILE] by (simp add: file_room_def)
qed



text \<open>
  C27. \<open>balloc\<close> hands out the lowest block the free map has free, zeroed and marked in use, and
  panics only when none is free; \<open>bfree\<close> of that block gives it back, so that the free blocks are
  those before; freeing it once more panics.
\<close>

theorem balloc_bfree:
  assumes "fs_ok s" and "free_blocks s \<noteq> {}"
  shows "\<exists>b s1 s2. balloc 1 s = Inr (of_nat b, s1) \<and> b = Min (free_blocks s) \<and> fs_view s1 b = zero_block \<and>
    free_blocks s1 = free_blocks s - {b} \<and>
    bfree 1 (of_nat b) s1 = Inr s2 \<and> free_blocks s2 = free_blocks s \<and> fs_ok s2 \<and>
    bfree 1 (of_nat b) s2 = Inl (Panic ''freeing free block'')"
proof -
  obtain b where b: "balloc 1 s = Inr (of_nat b, alloc_state b s)" "b \<in> free_blocks s" "\<forall>b'<b. used s b'"
    using balloc_ok [OF assms] by blast
  note al = alloc_state_ok [OF assms(1) b(2)]
  have ub: "unat (of_nat b :: u32) = b" by (rule unat_of_block [OF assms(1) al(7)])
  have "b = Min (free_blocks s)"
    using b(2,3) by (intro Min_eqI [symmetric]) (auto simp: free_blocks_def not_less [symmetric])
  have du: "data_used (alloc_state b s) (of_nat b)" using al by (simp add: data_used_def ub)
  note fr = bfree_freed [OF al(1) du]
  let ?s2 = "free_state (of_nat b) (alloc_state b s)"
  have f2: "free_blocks ?s2 = free_blocks s" using freed_free [OF fr(2)] al(3,7) b(2) by (auto simp: ub)
  have ok2: "fs_ok ?s2" "\<not> used ?s2 b" using fr(2) al(7) by (auto simp: freed_def ub)
  have "bfree 1 (of_nat b) ?s2 = Inl (Panic ''freeing free block'')"
    using bfree_used_panics [OF ok2(1), of "of_nat b"] ok2(2) al(7) by (simp add: ub)
  then show ?thesis using b(1) \<open>b = Min (free_blocks s)\<close> al(3,4) fr(1) f2 ok2(1) by blast
qed

lemma balloc_bfree_witness:
  "\<exists>s1 s2. balloc 1 demo_fs = Inr (6, s1) \<and> fs_view s1 6 = zero_block \<and> bfree 1 6 s1 = Inr s2 \<and>
     bfree 1 6 s2 = Inl (Panic ''freeing free block'')"
proof -
  have "free_blocks demo_fs = {6..<64}" using demo_used by (auto simp: free_blocks_def demo_fs_simps)
  moreover from this have "Min (free_blocks demo_fs) = 6" by (intro Min_eqI) auto
  ultimately show ?thesis using balloc_bfree [OF demo_fs_ok] by auto
qed

text \<open>
  C9. When the last reference to an inode without links is dropped, \<open>iput\<close> returns exactly the
  blocks of the file to the free map, marks the inode free on disk, leaves every other inode on
  disk and the bytes of every other file alone, and the cache entry is unused.
\<close>

theorem iput_frees:
  assumes "fs_ok s" "inode_ok s i" "i_valid (inode_of s i)" "di_nlink (di_of s i) = 0" "i_ref (inode_of s i) = 1"
    "\<not> sl_locked (i_lock (inode_of s i))"
  shows "\<exists>s'. iput pid i s = Inr s' \<and> free_blocks s' = free_blocks s \<union> own s i \<and>
    di_type (disk_inode s' (i_inum (inode_of s i))) = 0 \<and> i_ref (inode_of s' i) = 0 \<and>
    (\<forall>m. unat m < unat (sb_ninodes (fs_sb s)) \<and> m \<noteq> i_inum (inode_of s i) \<longrightarrow> disk_inode s' m = disk_inode s m) \<and>
    (\<forall>j. j \<noteq> i \<and> inode_ok s j \<and> own s i \<inter> own s j = {} \<longrightarrow> contents s' j = contents s j)"
proof -
  define t where "t = upd_inode i (\<lambda>ip. ip\<lparr>i_lock := (i_lock (inode_of s i))\<lparr>sl_locked := True, sl_pid := pid\<rparr>\<rparr>) s"
  have fbt: "fb t j k = fb s j k" for j k by (auto simp: t_def fb_def)
  have ownt: "own t j = own s j" for j by (simp add: own_def fbt)
  have ft: "file_ok t j \<longleftrightarrow> file_ok s j" for j by (auto simp: file_ok_def fbt ownt) (auto simp: t_def split: if_splits)
  have it: "inode_ok t j \<longleftrightarrow> inode_ok s j" "contents t j = contents s j" for j
    unfolding inode_ok_def present_def contents_def fbyte_def fdata_def fbt ft by (auto simp: t_def)
  have t: "fs_ok t" "file_ok t i" "i_dev (inode_of t i) = 1" "unat (i_inum (inode_of t i)) < unat (sb_ninodes (fs_sb t))"
    "di_nlink (di_of t i) = 0" "i_valid (inode_of t i)" "i_ref (inode_of t i) = 1" "i_inum (inode_of t i) = i_inum (inode_of s i)"
    using assms ft by (auto simp: t_def inode_ok_def)
  obtain s1 where s1: "itrunc i t = Inr s1" "fs_ok s1" "inode_ok s1 i" "own s1 i = {}"
    "free_blocks s1 = free_blocks t \<union> own t i" "keeps_others i t s1"
    "inode_of s1 i = (inode_of t i)\<lparr>i_di := (di_of t i)\<lparr>di_addrs := replicate (NDIRECT + 1) 0, di_size := 0\<rparr>\<rparr>"
    using itrunc_ok [OF t(1-4)] by blast
  define s2 where "s2 = upd_di i (\<lambda>d. d\<lparr>di_type := 0\<rparr>) s1"
  have s2: "fs_ok s2" "fs_view s2 = fs_view s1" "fs_sb s2 = fs_sb s1" "fs_nblk s2 = fs_nblk s1" "fs_dev s2 = fs_dev s1"
    "fs_icache s2 = (fs_icache s1)(i := (inode_of s1 i)\<lparr>i_di := (di_of s1 i)\<lparr>di_type := 0\<rparr>\<rparr>)"
    "free_blocks s2 = free_blocks s1"
    using s1(2) by (simp_all add: s2_def upd_di_def)
  have e2: "own s2 i = {}" "file_ok s2 i" using empty_file(2,3) [of s2 i] by (simp_all add: s2(6) s1(7))
  have sb: "fs_sb s1 = fs_sb t" using s1(6) by (simp add: keeps_others_def)
  have i2: "i_dev (inode_of s2 i) = 1" "unat (i_inum (inode_of s2 i)) < unat (sb_ninodes (fs_sb s2))"
    "i_inum (inode_of s2 i) = i_inum (inode_of t i)" "length (di_addrs (di_of s2 i)) = NDIRECT + 1"
    "di_type (di_of s2 i) = 0"
    using t(3,4) sb by (simp_all add: s2(3,6) s1(7))
  note iu = iupdate_ok [OF s2(1) i2(1,2,4)]
  have k2: "keeps_others i t (iupd_state i s2)"
    using iupd_others [OF s2(1) i2(1,2) e2(2) s1(6) s2(2-6) i2(3)] e2(1) by simp
  let ?u = "iupd_state i s2"
  let ?f = "upd_inode i (\<lambda>ip. ip\<lparr>i_lock := releasesleep (i_lock ip), i_ref := i_ref ip - 1\<rparr>)
    (upd_inode i (\<lambda>ip. ip\<lparr>i_valid := False\<rparr>) ?u)"
  have run: "iput pid i s = Inr ?f"
    using assms(6) t(5,6,7) s1(1) iu(1) by (simp add: iput_def acquiresleep_def t_def s2_def Let_def)
  have "contents ?f j = contents s j" if j: "j \<noteq> i" "inode_ok s j" "own s i \<inter> own s j = {}" for j
  proof -
    have "contents ?f j = contents ?u j" using j(1) by (simp add: contents_def fbyte_def fdata_def fb_def)
    also have "\<dots> = contents t j" using k2 j it(1) ownt by (auto simp: keeps_others_def)
    finally show ?thesis using it(2) by simp
  qed
  moreover have "disk_inode ?f m = disk_inode s m"
    if "unat m < unat (sb_ninodes (fs_sb s))" "m \<noteq> i_inum (inode_of s i)" for m
    using k2 that t(8) by (simp add: keeps_others_def t_def)
  moreover have "free_blocks ?f = free_blocks s \<union> own s i"
  proof -
    have "free_blocks ?f = free_blocks s1" using iu(6) s2(7) by (simp add: free_blocks_def)
    then show ?thesis using s1(5) ownt by (simp add: t_def)
  qed
  moreover have "di_type (disk_inode ?f (i_inum (inode_of s i))) = 0"
    using iu(3) i2(3,5) t(8) by simp
  moreover have "i_ref (inode_of ?f i) = 0" using t(7) by (simp add: s2(6) s1(7))
  ultimately show ?thesis using run by blast
qed

lemma iput_frees_witness:
  "\<exists>s'. iput 3 0 demo_fs = Inr s' \<and> di_type (disk_inode s' 1) = 0 \<and> i_ref (inode_of s' 0) = 0"
  using iput_frees [of demo_fs 0 3] demo_fs_ok demo_file(1)
  by (auto simp: plain_file_def demo_fs_simps zero_dinode_def initsleeplock_def)

text \<open>
  C26. The inode cache holds at most one entry per inode and its valid entries agree with the disk:
  \<open>iget\<close> keeps both properties, returns the entry of the inode it was asked for with one more
  reference, and fails only when every entry is in use; \<open>ilock\<close> then gives the caller the inode as
  it is on disk.
\<close>

theorem iget_ilock_coherent:
  assumes "fs_ok s" "icache_uniq s" "icache_coherent s" "iget 1 inum s = Inr (i, s1)"
    "unat inum < unat (sb_ninodes (fs_sb s))" "di_type (disk_inode s inum) \<noteq> 0" "\<not> sl_locked (i_lock (inode_of s i))"
  shows "icache_uniq s1 \<and> icache_coherent s1 \<and> i < NINODE \<and> i_inum (inode_of s1 i) = inum \<and>
    i_ref (inode_of s1 i) = i_ref (inode_of s i) + 1 \<and>
    (\<exists>s2. ilock pid i s1 = Inr s2 \<and> di_of s2 i = disk_inode s inum \<and> icache_coherent s2 \<and>
      holdingsleep pid (i_lock (inode_of s2 i)))"
proof -
  note g = iget_cases [OF assms(4)]
  have u: "icache_uniq s1" by (rule iget_uniq [OF assms(2,4)])
  have c: "icache_coherent s1" by (rule iget_coherent [OF assms(3,4)])
  have e: "i < NINODE" "i_dev (inode_of s1 i) = 1" "i_inum (inode_of s1 i) = inum" "0 < i_ref (inode_of s1 i)"
    "i_ref (inode_of s1 i) = i_ref (inode_of s i) + 1" "\<not> sl_locked (i_lock (inode_of s1 i))"
    "fs_ok s1" "fs_sb s1 = fs_sb s" "disk_inode s1 inum = disk_inode s inum"
    using g assms(1,7) by auto
  have "unat (i_inum (inode_of s1 i)) < unat (sb_ninodes (fs_sb s1))"
    "di_type (disk_inode s1 (i_inum (inode_of s1 i))) \<noteq> 0" using assms(5,6) e by simp_all
  from ilock_coherent [OF e(7) c e(1,4,2) this(1) e(6) this(2), of pid] show ?thesis using u c e by auto
qed

lemma iget_ilock_coherent_witness:
  "\<exists>i s1 s2. iget 1 1 (demo_fs\<lparr>fs_view := (fs_view demo_fs)(3 := put_dinode (zero_dinode\<lparr>di_type := T_FILE\<rparr>) zero_block 64)\<rparr>) =
     Inr (i, s1) \<and> ilock 5 i s1 = Inr s2 \<and> di_type (di_of s2 i) = T_FILE"
proof -
  let ?b = "put_dinode (zero_dinode\<lparr>di_type := T_FILE\<rparr>) zero_block 64"
  let ?s = "demo_fs\<lparr>fs_view := (fs_view demo_fs)(3 := ?b)\<rparr>"
  have l: "length (di_addrs (zero_dinode\<lparr>di_type := T_FILE\<rparr>)) = NDIRECT + 1" by (simp add: zero_dinode_def)
  have z: "64 + 64 \<le> length zero_block" by (simp add: zero_block_def BSIZE_def)
  note gp = get_put_dinode [OF z l]
  have us: "used ?s b = used demo_fs b" if "b < 64" for b
    using that by (simp add: used_def bm_block_def demo_fs_def xv6_consts)
  have "length (fs_view ?s k) = BSIZE" for k using gp(2) by (simp add: demo_fs_def zero_block_def BSIZE_def)
  then have ok: "fs_ok ?s" using demo_fs_ok us by (auto simp: fs_ok_def demo_fs_simps)
  have di: "disk_inode ?s 1 = zero_dinode\<lparr>di_type := T_FILE\<rparr>"
    using gp(1) by (simp add: disk_inode_def IBLOCK_def ino_off_def demo_fs_def xv6_consts)
  have c: "icache_coherent ?s" using di by (auto simp: icache_coherent_def demo_fs_def split: if_splits)
  have u: "icache_uniq ?s" by (auto simp: icache_uniq_def demo_fs_def split: if_splits)
  have f0: "find (\<lambda>i. i_ref (inode_of ?s i) > 0 \<and> i_dev (inode_of ?s i) = 1 \<and> i_inum (inode_of ?s i) = 1) [0..<NINODE] = Some 0"
    unfolding find_upt_Some by (simp add: demo_fs_def NINODE_def)
  then obtain s1 where g: "iget 1 1 ?s = Inr (0, s1)" unfolding iget_def by simp
  have "di_type (disk_inode ?s 1) \<noteq> 0" "\<not> sl_locked (i_lock (inode_of ?s 0))" "unat (1 :: u32) < unat (sb_ninodes (fs_sb ?s))"
    using di by (simp_all add: T_FILE_def demo_fs_simps initsleeplock_def)
  from iget_ilock_coherent [OF ok u c g this(3,1,2), of 5] obtain s2 where
    "ilock 5 0 s1 = Inr s2" "di_of s2 0 = disk_inode ?s 1" by blast
  with g di show ?thesis by auto
qed

end
