(* ===== verification/Xv6_Dir.thy ===== *)
theory Xv6_Dir
  imports Xv6_Inode
begin

text \<open>
  Directories and path names (\<open>fs.c\<close> from \<open>namecmp\<close> on). A C string is the list of its bytes
  before the terminating NUL; a name buffer of \<open>DIRSIZ\<close> bytes is read up to its NUL or its end.
\<close>

section \<open>Definitions\<close>

definition hd0 :: "u8 list \<Rightarrow> u8" where
  "hd0 s = (case s of [] \<Rightarrow> 0 | c # _ \<Rightarrow> c)"

text \<open>\<open>strncmp\<close> and \<open>strncpy\<close> on strings that are lists, a NUL past the end.\<close>

fun strncmp_list :: "nat \<Rightarrow> u8 list \<Rightarrow> u8 list \<Rightarrow> int" where
  "strncmp_list 0 p q = 0"
| "strncmp_list (Suc n) p q =
     (if hd0 p \<noteq> 0 \<and> hd0 p = hd0 q then strncmp_list n (tl p) (tl q) else uint (hd0 p) - uint (hd0 q))"

fun strncpy_list :: "nat \<Rightarrow> u8 list \<Rightarrow> u8 list" where
  "strncpy_list 0 t = []"
| "strncpy_list (Suc n) t = (if hd0 t \<noteq> 0 then hd0 t # strncpy_list n (tl t) else replicate (Suc n) 0)"

definition namecmp :: "u8 list \<Rightarrow> u8 list \<Rightarrow> int" where
  "namecmp s t = strncmp_list DIRSIZ s t"

text \<open>\<open>struct dirent\<close>: a \<open>ushort\<close> and \<open>DIRSIZ\<close> bytes.\<close>

definition sizeof_dirent :: nat where "sizeof_dirent = 2 + DIRSIZ"
definition de_inum :: "u8 list \<Rightarrow> u16" where "de_inum de = get16 de 0"
definition de_name :: "u8 list \<Rightarrow> u8 list" where "de_name de = slice de 2 DIRSIZ"

definition dir_offs :: "u32 \<Rightarrow> nat list" where
  "dir_offs sz = map (\<lambda>i. i * sizeof_dirent) [0..<(unat sz + sizeof_dirent - 1) div sizeof_dirent]"

text \<open>The inode found and the offset of its entry.\<close>

fun dirlookup_loop :: "'d devsw \<Rightarrow> nat \<Rightarrow> u8 list \<Rightarrow> nat list \<Rightarrow> 'd fsys \<Rightarrow> ((nat \<times> nat) option \<times> 'd fsys) result" where
  "dirlookup_loop dv dp name [] s = Inr (None, s)"
| "dirlookup_loop dv dp name (off # offs) s =
     andthen (readi dv dp (of_nat off) (of_nat sizeof_dirent) s) (\<lambda>(r, s).
       case r of
         None \<Rightarrow> Inl (Panic ''dirlookup read'')
       | Some de \<Rightarrow>
           if length de \<noteq> sizeof_dirent then Inl (Panic ''dirlookup read'')
           else if de_inum de = 0 then dirlookup_loop dv dp name offs s
           else if namecmp name (de_name de) = 0
                then andthen (iget (i_dev (inode_of s dp)) (ucast (de_inum de)) s) (\<lambda>(i, s). Inr (Some (i, off), s))
           else dirlookup_loop dv dp name offs s)"

definition dirlookup :: "'d devsw \<Rightarrow> nat \<Rightarrow> u8 list \<Rightarrow> 'd fsys \<Rightarrow> ((nat \<times> nat) option \<times> 'd fsys) result" where
  "dirlookup dv dp name s =
     (if di_type (di_of s dp) \<noteq> T_DIR then Inl (Panic ''dirlookup not DIR'')
      else dirlookup_loop dv dp name (dir_offs (di_size (di_of s dp))) s)"

text \<open>The offset of the first empty entry, the end of the directory when there is none.\<close>

fun dirlink_slot :: "'d devsw \<Rightarrow> nat \<Rightarrow> nat \<Rightarrow> nat list \<Rightarrow> 'd fsys \<Rightarrow> (nat \<times> 'd fsys) result" where
  "dirlink_slot dv dp lim [] s = Inr (lim, s)"
| "dirlink_slot dv dp lim (off # offs) s =
     andthen (readi dv dp (of_nat off) (of_nat sizeof_dirent) s) (\<lambda>(r, s).
       case r of
         None \<Rightarrow> Inl (Panic ''dirlink read'')
       | Some de \<Rightarrow>
           if length de \<noteq> sizeof_dirent then Inl (Panic ''dirlink read'')
           else if de_inum de = 0 then Inr (off, s)
           else dirlink_slot dv dp lim offs s)"

definition dirlink :: "int \<Rightarrow> 'd devsw \<Rightarrow> nat \<Rightarrow> u8 list \<Rightarrow> u32 \<Rightarrow> 'd fsys \<Rightarrow> (int \<times> 'd fsys) result" where
  "dirlink pid dv dp name inum s =
     andthen (dirlookup dv dp name s) (\<lambda>(r, s).
       case r of
         Some (i, _) \<Rightarrow> andthen (iput pid i s) (\<lambda>s. Inr (-1, s))
       | None \<Rightarrow>
           let offs = dir_offs (di_size (di_of s dp))
           in andthen (dirlink_slot dv dp (length offs * sizeof_dirent) offs s) (\<lambda>(off, s).
              andthen (writei dv dp (enc16 (ucast inum) @ strncpy_list DIRSIZ name) (of_nat off) s) (\<lambda>(w, s).
                if w \<noteq> Some sizeof_dirent then Inl (Panic ''dirlink'') else Inr (0, s))))"

section \<open>Path names\<close>

definition slash :: u8 where "slash = 47"

definition skipelem :: "u8 list \<Rightarrow> (u8 list \<times> u8 list) option" where
  "skipelem path =
     (let path = dropWhile (\<lambda>c. c = slash) path
      in if path = [] then None
         else let s = takeWhile (\<lambda>c. c \<noteq> slash) path;
                  rest = dropWhile (\<lambda>c. c \<noteq> slash) path;
                  name = (if length s \<ge> DIRSIZ then take DIRSIZ s else s)
              in Some (name, dropWhile (\<lambda>c. c = slash) rest))"

lemma skipelem_shorter: "skipelem path = Some (name, rest) \<Longrightarrow> length rest < length path"
proof -
  assume h: "skipelem path = Some (name, rest)"
  let ?p = "dropWhile (\<lambda>c. c = slash) path"
  have ne: "?p \<noteq> []" and r: "rest = dropWhile (\<lambda>c. c = slash) (dropWhile (\<lambda>c. c \<noteq> slash) ?p)"
    using h by (auto simp: skipelem_def Let_def split: if_splits)
  have "hd ?p \<noteq> slash" using hd_dropWhile [OF ne] by simp
  then have "length (dropWhile (\<lambda>c. c \<noteq> slash) ?p) < length ?p"
    using ne by (cases ?p) (auto intro: le_imp_less_Suc length_dropWhile_le)
  moreover have "length rest \<le> length (dropWhile (\<lambda>c. c \<noteq> slash) ?p)" unfolding r by (rule length_dropWhile_le)
  ultimately show ?thesis using length_dropWhile_le [of "\<lambda>c. c = slash" path] by linarith
qed

text \<open>The inode, and the last element for \<open>nameiparent\<close>.\<close>

function namex_loop :: "int \<Rightarrow> 'd devsw \<Rightarrow> bool \<Rightarrow> nat \<Rightarrow> u8 list \<Rightarrow> 'd fsys \<Rightarrow> ((nat \<times> u8 list) option \<times> 'd fsys) result" where
  "namex_loop pid dv parent ip path s =
     (case skipelem path of
        None \<Rightarrow> if parent then andthen (iput pid ip s) (\<lambda>s. Inr (None, s)) else Inr (Some (ip, []), s)
      | Some (name, rest) \<Rightarrow>
          andthen (ilock pid ip s) (\<lambda>s.
            if di_type (di_of s ip) \<noteq> T_DIR then andthen (iunlockput pid ip s) (\<lambda>s. Inr (None, s))
            else if parent \<and> rest = [] then andthen (iunlock pid ip s) (\<lambda>s. Inr (Some (ip, name), s))
            else andthen (dirlookup dv ip name s) (\<lambda>(r, s).
                   case r of
                     None \<Rightarrow> andthen (iunlockput pid ip s) (\<lambda>s. Inr (None, s))
                   | Some (next, _) \<Rightarrow> andthen (iunlockput pid ip s) (\<lambda>s. namex_loop pid dv parent next rest s))))"
  by pat_completeness auto
termination
  by (relation "measure (\<lambda>(pid, dv, parent, ip, path, s). length path)") (auto dest: skipelem_shorter)

declare namex_loop.simps [simp del]

definition namex :: "int \<Rightarrow> nat \<Rightarrow> 'd devsw \<Rightarrow> u8 list \<Rightarrow> bool \<Rightarrow> 'd fsys \<Rightarrow> ((nat \<times> u8 list) option \<times> 'd fsys) result" where
  "namex pid cwd dv path parent s =
     (if hd0 path = slash
      then andthen (iget ROOTDEV ROOTINO s) (\<lambda>(ip, s). namex_loop pid dv parent ip path s)
      else case idup cwd s of (ip, s) \<Rightarrow> namex_loop pid dv parent ip path s)"

definition namei :: "int \<Rightarrow> nat \<Rightarrow> 'd devsw \<Rightarrow> u8 list \<Rightarrow> 'd fsys \<Rightarrow> (nat option \<times> 'd fsys) result" where
  "namei pid cwd dv path s = andthen (namex pid cwd dv path False s) (\<lambda>(r, s). Inr (map_option fst r, s))"

definition nameiparent :: "int \<Rightarrow> nat \<Rightarrow> 'd devsw \<Rightarrow> u8 list \<Rightarrow> 'd fsys \<Rightarrow> ((nat \<times> u8 list) option \<times> 'd fsys) result" where
  "nameiparent pid cwd dv path s = namex pid cwd dv path True s"

section \<open>Names\<close>

text \<open>The list routines agree with those of \<open>string.c\<close> on memory.\<close>

lemma cstr_hd: "hd0 (cstr m p (Suc n)) = m p"
  by (simp add: hd0_def)

lemma strncmp_list_cstr: "strncmp_list n (cstr m p n) (cstr m q n) = strncmp m p q n"
proof (induction n arbitrary: p q)
  case (Suc n)
  then show ?case by (auto simp: hd0_def)
qed simp

abbreviation name_of :: "u8 list \<Rightarrow> u8 list" where
  "name_of s \<equiv> take DIRSIZ (takeWhile (\<lambda>c. c \<noteq> 0) s)"

lemma strncmp_list_eq:
  "strncmp_list n p q = 0 \<longleftrightarrow> take n (takeWhile (\<lambda>c. c \<noteq> 0) p) = take n (takeWhile (\<lambda>c. c \<noteq> 0) q)"
proof (induction n arbitrary: p q)
  case (Suc n)
  show ?case by (cases p; cases q) (auto simp: hd0_def Suc uint_0_iff dest: word_uint_eqI)
qed simp

lemma namecmp_eq: "namecmp s t = 0 \<longleftrightarrow> name_of s = name_of t"
  by (simp add: namecmp_def strncmp_list_eq)

lemma length_strncpy_list [simp]: "length (strncpy_list n t) = n"
  by (induction n t rule: strncpy_list.induct) auto

lemma strncpy_list_name: "take n (takeWhile (\<lambda>c. c \<noteq> 0) (strncpy_list n t)) = take n (takeWhile (\<lambda>c. c \<noteq> 0) t)"
proof (induction n t rule: strncpy_list.induct)
  case (2 n t)
  then show ?case by (cases t) (auto simp: hd0_def)
qed simp

section \<open>Directories\<close>

text \<open>A directory as the list of its entries.\<close>

definition dents :: "u8 list \<Rightarrow> u8 list list" where
  "dents c = map (\<lambda>k. slice c (k * sizeof_dirent) sizeof_dirent) [0..<length c div sizeof_dirent]"

definition de_match :: "u8 list \<Rightarrow> u8 list \<Rightarrow> bool" where
  "de_match name de \<longleftrightarrow> de_inum de \<noteq> 0 \<and> name_of name = name_of (de_name de)"

definition dir_find :: "u8 list \<Rightarrow> u8 list list \<Rightarrow> nat option" where
  "dir_find name des = find (\<lambda>k. de_match name (des ! k)) [0..<length des]"

definition dir_ok :: "'d fsys \<Rightarrow> nat \<Rightarrow> bool" where
  "dir_ok s dp \<longleftrightarrow> fs_ok s \<and> inode_ok s dp \<and> di_type (di_of s dp) = T_DIR \<and>
     unat (di_size (di_of s dp)) mod sizeof_dirent = 0"

lemma sizeof_dirent_16: "sizeof_dirent = 16" by (simp add: sizeof_dirent_def DIRSIZ_def)

lemma dir_plain: "dir_ok s dp \<Longrightarrow> plain_file dp s"
  by (simp add: dir_ok_def plain_file_def T_DIR_def T_DEV_def)

lemma length_dents: "length (dents c) = length c div sizeof_dirent"
  by (simp add: dents_def)

lemma dir_offs_dents:
  assumes "dir_ok s dp"
  shows "dir_offs (di_size (di_of s dp)) = map (\<lambda>k. k * sizeof_dirent) [0..<length (dents (contents s dp))]"
proof -
  have "(n + sizeof_dirent - 1) div sizeof_dirent = n div sizeof_dirent" if m: "n mod sizeof_dirent = 0" for n
  proof -
    obtain q where "n = 16 * q" using m unfolding sizeof_dirent_16 by (metis mod_0_imp_dvd dvdE)
    then show ?thesis using div_mult_self4 [of 16 q "15 :: nat"] by (simp add: sizeof_dirent_16)
  qed
  then show ?thesis using assms by (simp add: dir_offs_def length_dents dir_ok_def)
qed

lemma dents_nth: "k < length (dents c) \<Longrightarrow> dents c ! k = slice c (k * sizeof_dirent) sizeof_dirent"
  by (simp add: dents_def)

lemma dent_range: "k < length (dents c) \<Longrightarrow> k * sizeof_dirent + sizeof_dirent \<le> length c"
proof -
  assume "k < length (dents c)"
  then have "(k + 1) * sizeof_dirent \<le> length c div sizeof_dirent * sizeof_dirent"
    by (intro mult_le_mono1) (simp add: length_dents)
  also have "\<dots> \<le> length c" by (rule div_times_less_eq_dividend)
  finally show ?thesis by simp
qed

lemma length_dent [simp]: "k < length (dents c) \<Longrightarrow> length (dents c ! k) = sizeof_dirent"
  using dent_range [of k c] by (simp add: dents_nth)

lemma read_dent:
  assumes d: "dir_ok s dp" and k: "k < length (dents (contents s dp))"
  shows "readi dv dp (of_nat (k * sizeof_dirent)) (of_nat sizeof_dirent) s = Inr (Some (dents (contents s dp) ! k), s)"
proof -
  have r: "k * sizeof_dirent + sizeof_dirent \<le> length (contents s dp)" by (rule dent_range [OF k])
  have m: "length (contents s dp) < 4294967296" using unat_u32_lt by simp
  have u: "unat (of_nat (k * sizeof_dirent) :: u32) = k * sizeof_dirent" "unat (of_nat sizeof_dirent :: u32) = sizeof_dirent"
    using r m by (intro unat_of_nat_u32, linarith, simp add: sizeof_dirent_16)
  show ?thesis
    using inode_file.rd_ok [OF dir_plain [OF d], of "of_nat (k * sizeof_dirent)" "of_nat sizeof_dirent" dv] r m k
    unfolding u by (simp add: dents_nth)
qed

lemma dirlookup_loop_ok:
  assumes d: "dir_ok s dp"
  shows "set ks \<subseteq> {..<length (dents (contents s dp))} \<Longrightarrow>
    dirlookup_loop dv dp name (map (\<lambda>k. k * sizeof_dirent) ks) s =
      (case find (\<lambda>k. de_match name (dents (contents s dp) ! k)) ks of
         None \<Rightarrow> Inr (None, s)
       | Some k \<Rightarrow> andthen (iget 1 (ucast (de_inum (dents (contents s dp) ! k))) s) (\<lambda>(i, s). Inr (Some (i, k * sizeof_dirent), s)))"
proof (induction ks)
  case (Cons k ks)
  have k: "k < length (dents (contents s dp))" and ks: "set ks \<subseteq> {..<length (dents (contents s dp))}" using Cons.prems by auto
  have dev: "i_dev (inode_of s dp) = 1" using d by (simp add: dir_ok_def inode_ok_def)
  show ?case
    using Cons.IH [OF ks] k dev by (simp add: read_dent [OF d k] de_match_def namecmp_eq del: of_nat_mult)
qed simp

lemma dirlookup_ok:
  assumes d: "dir_ok s dp"
  shows "dirlookup dv dp name s =
    (case dir_find name (dents (contents s dp)) of
       None \<Rightarrow> Inr (None, s)
     | Some k \<Rightarrow> andthen (iget 1 (ucast (de_inum (dents (contents s dp) ! k))) s) (\<lambda>(i, s). Inr (Some (i, k * sizeof_dirent), s)))"
  using d dirlookup_loop_ok [OF d, of "[0..<length (dents (contents s dp))]" dv name]
  by (simp add: dirlookup_def dir_offs_dents [OF d] dir_find_def dir_ok_def atLeast0LessThan)

text \<open>The entry \<open>dirlink\<close> fills: the first one with inode number 0, a new one when there is none.\<close>

definition dir_slot :: "u8 list list \<Rightarrow> nat" where
  "dir_slot des = (case find (\<lambda>k. de_inum (des ! k) = 0) [0..<length des] of Some k \<Rightarrow> k | None \<Rightarrow> length des)"

lemma dir_slot_le: "dir_slot des \<le> length des"
  by (auto simp: dir_slot_def find_upt_Some split: option.splits)

lemma dirlink_slot_ok:
  assumes d: "dir_ok s dp"
  shows "set ks \<subseteq> {..<length (dents (contents s dp))} \<Longrightarrow>
    dirlink_slot dv dp lim (map (\<lambda>k. k * sizeof_dirent) ks) s =
      Inr (case find (\<lambda>k. de_inum (dents (contents s dp) ! k) = 0) ks of Some k \<Rightarrow> k * sizeof_dirent | None \<Rightarrow> lim, s)"
proof (induction ks)
  case (Cons k ks)
  have k: "k < length (dents (contents s dp))" and ks: "set ks \<subseteq> {..<length (dents (contents s dp))}" using Cons.prems by auto
  show ?case using Cons.IH [OF ks] k by (simp add: read_dent [OF d k] del: of_nat_mult)
qed simp

lemma dirlink_slot_dir:
  assumes d: "dir_ok s dp"
  shows "dirlink_slot dv dp (length (dir_offs (di_size (di_of s dp))) * sizeof_dirent) (dir_offs (di_size (di_of s dp))) s =
    Inr (dir_slot (dents (contents s dp)) * sizeof_dirent, s)"
  unfolding dir_offs_dents [OF d] using dirlink_slot_ok [OF d, of "[0..<length (dents (contents s dp))]" dv]
  by (auto simp: dir_slot_def atLeast0LessThan split: option.splits)

lemma slice_append_left: "p + n \<le> length xs \<Longrightarrow> slice (xs @ ys) p n = slice xs p n"
  by (simp add: slice_def)

lemma slice_take: "p + n \<le> m \<Longrightarrow> slice (take m xs) p n = slice xs p n"
  by (simp add: slice_def drop_take min_def)

text \<open>Writing one entry changes one entry.\<close>

lemma dents_splice:
  assumes l: "length c mod sizeof_dirent = 0" and e: "length e = sizeof_dirent" and k: "k \<le> length (dents c)"
  shows "dents (take (k * sizeof_dirent) c @ e @ drop (k * sizeof_dirent + length e) c) =
    (if k < length (dents c) then (dents c)[k := e] else dents c @ [e])" (is "dents ?c' = ?r")
    and "length (take (k * sizeof_dirent) c @ e @ drop (k * sizeof_dirent + length e) c) mod sizeof_dirent = 0"
proof -
  define n where "n = length (dents c)"
  have lc: "length c = n * sizeof_dirent" using l by (auto simp: n_def length_dents)
  have kn: "k \<le> n" using k n_def by simp
  then have km: "k * sizeof_dirent \<le> n * sizeof_dirent" by simp
  have lc': "length ?c' = (if k < n then n else n + 1) * sizeof_dirent"
  proof (cases "k < n")
    case True
    then have "(k + 1) * sizeof_dirent \<le> n * sizeof_dirent" by (intro mult_le_mono1) simp
    then show ?thesis using True lc km e by (simp add: min_def)
  next
    case False
    then have "k = n" using kn by simp
    then show ?thesis using lc e by simp
  qed
  then show "length ?c' mod sizeof_dirent = 0" by simp
  show "dents ?c' = ?r"
  proof (rule nth_equalityI)
    have "length (dents ?c') = (if k < n then n else n + 1)" using lc' by (simp add: length_dents sizeof_dirent_16)
    then show ln: "length (dents ?c') = length ?r" by (simp add: n_def)
    fix j assume j: "j < length (dents ?c')"
    have dj: "dents ?c' ! j = slice ?c' (j * sizeof_dirent) sizeof_dirent" using j by (rule dents_nth)
    consider "j = k" | "j < k" | "k < j" by linarith
    then show "dents ?c' ! j = ?r ! j"
    proof cases
      case 1
      then have "dents ?c' ! j = e" unfolding dj using lc km e by (simp add: slice_def)
      then show ?thesis using 1 kn by (auto simp: n_def nth_append)
    next
      case 2
      then have jk: "j * sizeof_dirent + sizeof_dirent \<le> k * sizeof_dirent" using mult_le_mono1 [of "j + 1" k sizeof_dirent] by simp
      have "slice ?c' (j * sizeof_dirent) sizeof_dirent = slice c (j * sizeof_dirent) sizeof_dirent"
        using jk km lc by (simp add: slice_append_left slice_take)
      moreover have "j < n" using 2 kn by simp
      ultimately show ?thesis unfolding dj using 2 by (auto simp: n_def dents_nth nth_append)
    next
      case 3
      then have kn': "k < n" "j < n" using j ln kn by (auto simp: n_def split: if_splits)
      have jk: "k * sizeof_dirent + sizeof_dirent \<le> j * sizeof_dirent" using 3 mult_le_mono1 [of "k + 1" j sizeof_dirent] by simp
      have z: "k * sizeof_dirent - j * sizeof_dirent = 0" using jk by linarith
      have "slice ?c' (j * sizeof_dirent) sizeof_dirent = slice c (j * sizeof_dirent) sizeof_dirent"
        using jk km lc e by (simp add: slice_def drop_take z)
      then show ?thesis unfolding dj using 3 kn' by (simp add: n_def dents_nth)
    qed
  qed
qed

lemma dirent_fields:
  "de_inum (enc16 w @ strncpy_list DIRSIZ name) = w"
    "name_of (de_name (enc16 w @ strncpy_list DIRSIZ name)) = name_of name"
    "length (enc16 w @ strncpy_list DIRSIZ name) = sizeof_dirent"
  by (simp_all add: de_inum_def de_name_def get16_def slice_def strncpy_list_name sizeof_dirent_def)

lemma writei_dir:
  assumes "plain_file i s" "unat off \<le> length (contents s i)" "unat off + length src \<le> MAXFILE * BSIZE"
    "nblocks (unat off) (length src) \<le> file_room i s" "src \<noteq> []"
  shows "\<exists>s'. writei dv i src off s = Inr (Some (length src), s') \<and> plain_file i s' \<and> keeps_others i s s' \<and>
    contents s' i = take (unat off) (contents s i) @ src @ drop (unat off + length src) (contents s i) \<and>
    di_type (di_of s' i) = di_type (di_of s i)"
proof -
  have "0 < nblocks (unat off) (length src)" using assms(5) by (simp add: nblocks_def)
  then have "nblocks (unat off) (length src) + no_ind s i \<le> card (free_blocks s)"
    using assms(4) unfolding file_room_def by linarith
  moreover have "fs_ok s" "inode_ok s i" "di_type (di_of s i) \<noteq> T_DEV" "off \<le> di_size (di_of s i)"
    using assms(1,2) by (simp_all add: plain_file_def word_le_nat_alt)
  ultimately obtain s' where s': "writei dv i src off s = Inr (Some (length src), s')" "fs_ok s'" "inode_ok s' i"
    "keeps_others i s s'" "contents s' i = take (unat off) (contents s i) @ src @ drop (unat off + length src) (contents s i)"
    "di_type (di_of s' i) = di_type (di_of s i)"
    using writei_ok [of s i off src dv] assms(3) by blast
  then show ?thesis using assms(1) by (auto simp: plain_file_def)
qed

lemma dirlink_ok:
  assumes d: "dir_ok s dp" and none: "dir_find name (dents (contents s dp)) = None"
    and room: "2 \<le> file_room dp s" and max: "length (contents s dp) + sizeof_dirent \<le> MAXFILE * BSIZE"
    and des_def: "des = dents (contents s dp)" and e_def: "e = enc16 (ucast inum) @ strncpy_list DIRSIZ name"
  shows "\<exists>s'. dirlink pid dv dp name inum s = Inr (0, s') \<and> dir_ok s' dp \<and> keeps_others dp s s' \<and>
    dents (contents s' dp) = (if dir_slot des < length des then des[dir_slot des := e] else des @ [e])"
proof -
  let ?k = "dir_slot des" let ?off = "?k * sizeof_dirent"
  have le: "length e = sizeof_dirent" by (simp add: e_def sizeof_dirent_def)
  have ne: "e \<noteq> []" using le by (auto simp: sizeof_dirent_16)
  have md: "length (contents s dp) mod sizeof_dirent = 0" using d by (simp add: dir_ok_def)
  have k: "?k \<le> length des" by (rule dir_slot_le)
  have off: "?off \<le> length (contents s dp)"
    using mult_le_mono1 [OF k, of sizeof_dirent] div_times_less_eq_dividend [of "length (contents s dp)" sizeof_dirent]
    unfolding des_def length_dents by linarith
  have u: "unat (of_nat ?off :: u32) = ?off"
    using off unat_u32_lt [of "di_size (di_of s dp)"] by (intro unat_of_nat_u32) simp
  have mx: "?off + length e \<le> MAXFILE * BSIZE" using off max le by linarith
  have nb: "nblocks ?off (length e) \<le> 2"
    unfolding le sizeof_dirent_16 nblocks_def BSIZE_def by simp
  obtain s' where s': "writei dv dp e (of_nat ?off) s = Inr (Some (length e), s')" "plain_file dp s'" "keeps_others dp s s'"
    "contents s' dp = take ?off (contents s dp) @ e @ drop (?off + length e) (contents s dp)"
    "di_type (di_of s' dp) = di_type (di_of s dp)"
    using writei_dir [OF dir_plain [OF d], of "of_nat ?off" e dv] unfolding u using off mx nb room ne by auto
  have ds: "dents (contents s' dp) = (if ?k < length des then des[?k := e] else des @ [e])"
      "length (contents s' dp) mod sizeof_dirent = 0"
    using dents_splice [OF md le, of ?k] k unfolding s'(4) des_def by auto
  have "dirlink pid dv dp name inum s = Inr (0, s')"
    using dirlookup_ok [OF d, of dv name] none dirlink_slot_dir [OF d, of dv] s'(1)
    by (simp add: dirlink_def Let_def e_def des_def sizeof_dirent_def del: of_nat_mult)
  moreover have "dir_ok s' dp" using s'(2,5) ds(2) d by (simp add: dir_ok_def plain_file_def)
  ultimately show ?thesis using s'(3) ds(1) by blast
qed

text \<open>Filling a free slot with a new name makes that name and no other one appear.\<close>

lemma dir_find_link:
  assumes none: "dir_find name des = None" and e: "de_inum e \<noteq> 0" "name_of (de_name e) = name_of name"
  defines "des' \<equiv> (if dir_slot des < length des then des[dir_slot des := e] else des @ [e])"
  shows "dir_find name des' = Some (dir_slot des)" "des' ! dir_slot des = e"
    "name_of m \<noteq> name_of name \<Longrightarrow> dir_find m des' = dir_find m des"
    "name_of m \<noteq> name_of name \<Longrightarrow> dir_find m des = Some k \<Longrightarrow> des' ! k = des ! k"
proof -
  let ?k = "dir_slot des"
  have k: "?k \<le> length des" by (rule dir_slot_le)
  have zero: "?k < length des \<Longrightarrow> de_inum (des ! ?k) = 0"
  proof (cases "find (\<lambda>k. de_inum (des ! k) = 0) [0..<length des]")
    case (Some j)
    then have "?k = j" by (simp add: dir_slot_def)
    then show ?thesis using Some [unfolded find_upt_Some] by simp
  qed (simp add: dir_slot_def)
  have l: "length des' = (if ?k < length des then length des else Suc (length des))" by (simp add: des'_def)
  show at: "des' ! ?k = e" using k by (auto simp: des'_def nth_append)
  have other: "des' ! j = des ! j" if "j \<noteq> ?k" "j < length des'" for j
    using that k l by (auto simp: des'_def nth_append)
  have me: "de_match m e \<longleftrightarrow> name_of m = name_of name" for m using e by (auto simp: de_match_def)
  have nk: "\<not> de_match m (des ! ?k)" if "?k < length des" for m using zero [OF that] by (simp add: de_match_def)
  show "dir_find name des' = Some ?k"
    unfolding dir_find_def find_upt_Some
    using none k l at me [of name] other by (auto simp: dir_find_def find_upt_None)
  have m: "de_match m (des' ! j) \<longleftrightarrow> j < length des \<and> de_match m (des ! j)"
    if "name_of m \<noteq> name_of name" "j < length des'" for j
  proof (cases "j = ?k")
    case True
    then show ?thesis using at me nk that by auto
  next
    case False
    then show ?thesis using other [OF False that(2)] that(2) l k by (auto split: if_splits)
  qed
  show fm: "dir_find m des' = dir_find m des" if "name_of m \<noteq> name_of name"
  proof (cases "dir_find m des")
    case None
    then have "dir_find m des' = None"
      unfolding dir_find_def find_upt_None using m [OF that] by auto
    then show ?thesis using None by simp
  next
    case (Some j)
    then have "dir_find m des' = Some j"
      unfolding dir_find_def find_upt_Some using m [OF that] l by (auto split: if_splits)
    then show ?thesis using Some by simp
  qed
  show "des' ! k = des ! k" if "name_of m \<noteq> name_of name" "dir_find m des = Some k"
    using that(2) nk [of m] other [of k] l by (auto simp: dir_find_def find_upt_Some split: if_splits)
qed

section \<open>Path elements\<close>

text \<open>The elements \<open>namex\<close> walks through, and a reference definition: the non-empty parts between slashes.\<close>

function path_elems :: "u8 list \<Rightarrow> u8 list list" where
  "path_elems path = (case skipelem path of None \<Rightarrow> [] | Some (name, rest) \<Rightarrow> name # path_elems rest)"
  by pat_completeness auto
termination
  by (relation "measure length") (auto dest: skipelem_shorter)

declare path_elems.simps [simp del]

fun split_slash :: "u8 list \<Rightarrow> u8 list list" where
  "split_slash [] = [[]]"
| "split_slash (c # cs) =
     (if c = slash then [] # split_slash cs
      else case split_slash cs of w # ws \<Rightarrow> (c # w) # ws)"

lemma split_slash_ne [simp]: "split_slash p \<noteq> []"
  by (induction p) (auto split: list.splits)

lemma split_slash_word:
  "split_slash p = takeWhile (\<lambda>c. c \<noteq> slash) p #
     (case dropWhile (\<lambda>c. c \<noteq> slash) p of [] \<Rightarrow> [] | _ # r \<Rightarrow> split_slash r)"
  by (induction p) (auto split: list.splits)

abbreviation parts :: "u8 list \<Rightarrow> u8 list list" where
  "parts p \<equiv> filter (\<lambda>w. w \<noteq> []) (split_slash p)"

lemma parts_drop: "parts (dropWhile (\<lambda>c. c = slash) p) = parts p"
  by (induction p) auto

lemma parts_word:
  assumes "takeWhile (\<lambda>c. c \<noteq> slash) q \<noteq> []"
  shows "parts q = takeWhile (\<lambda>c. c \<noteq> slash) q # parts (dropWhile (\<lambda>c. c \<noteq> slash) q)"
proof (cases "dropWhile (\<lambda>c. c \<noteq> slash) q")
  case Nil
  show ?thesis unfolding split_slash_word [of q] Nil using assms by simp
next
  case (Cons c r)
  have "c = slash" using hd_dropWhile [of "\<lambda>c. c \<noteq> slash" q] Cons by simp
  then show ?thesis unfolding split_slash_word [of q] Cons using assms by simp
qed

lemma path_elems_parts: "path_elems p = map (take DIRSIZ) (parts p)"
proof (induction "length p" arbitrary: p rule: less_induct)
  case less
  let ?q = "dropWhile (\<lambda>c. c = slash) p"
  show ?case
  proof (cases "?q = []")
    case True
    have "parts p = []" using parts_drop [of p] unfolding True by simp
    then show ?thesis using True by (simp add: path_elems.simps skipelem_def)
  next
    case False
    let ?s = "takeWhile (\<lambda>c. c \<noteq> slash) ?q" let ?r = "dropWhile (\<lambda>c. c \<noteq> slash) ?q"
    let ?rest = "dropWhile (\<lambda>c. c = slash) ?r"
    have "hd ?q \<noteq> slash" using hd_dropWhile [OF False] by simp
    then have s: "?s \<noteq> []" using False by (cases ?q) auto
    have tk: "(if length ?s \<ge> DIRSIZ then take DIRSIZ ?s else ?s) = take DIRSIZ ?s" by simp
    have sk: "skipelem p = Some (take DIRSIZ ?s, ?rest)" using False by (simp add: skipelem_def Let_def tk del: not_le)
    have "parts p = ?s # parts ?rest"
    proof -
      have "parts ?q = ?s # parts ?r" by (rule parts_word [OF s])
      then show ?thesis unfolding parts_drop .
    qed
    moreover have "path_elems p = take DIRSIZ ?s # path_elems ?rest" using sk by (subst path_elems.simps) simp
    ultimately show ?thesis using less [OF skipelem_shorter [OF sk]] by simp
  qed
qed

section \<open>Claims\<close>

text \<open>
  C15. Path parsing: calling \<open>skipelem\<close> until it returns 0, as \<open>namex\<close> does, terminates and yields
  exactly the non-empty parts of the path between slashes, in order, each cut to \<open>DIRSIZ\<close> bytes.
\<close>

theorem skipelem_elements:
  "path_elems p = map (take DIRSIZ) (filter (\<lambda>w. w \<noteq> []) (split_slash p))"
  by (rule path_elems_parts)

text \<open>What a directory says about a name: the inode number of the entry that is found.\<close>

definition dir_entry :: "'d fsys \<Rightarrow> nat \<Rightarrow> u8 list \<Rightarrow> u16 option" where
  "dir_entry s dp name = map_option (\<lambda>k. de_inum (dents (contents s dp) ! k)) (dir_find name (dents (contents s dp)))"


definition demo_dir :: "unit fsys" where
  "demo_dir = upd_di 0 (\<lambda>d. d\<lparr>di_type := T_DIR\<rparr>) demo_fs"

lemma demo_dir_ok: "dir_ok demo_dir 0" "contents demo_dir 0 = []" "file_room 0 demo_dir = 57"
proof -
  have fb: "fb demo_dir 0 k = fb demo_fs 0 k" for k by (simp add: fb_def demo_dir_def upd_di_def)
  have own: "own demo_dir 0 = own demo_fs 0" by (simp add: own_def fb)
  have d: "fs_ok demo_dir" "used demo_dir = used demo_fs" "fs_sb demo_dir = fs_sb demo_fs" "free_blocks demo_dir = free_blocks demo_fs"
    "inode_of demo_dir 0 = (inode_of demo_fs 0)\<lparr>i_di := (di_of demo_fs 0)\<lparr>di_type := T_DIR\<rparr>\<rparr>"
    using demo_fs_ok by (simp_all add: demo_dir_def upd_di_def)
  have "file_ok demo_dir 0 = file_ok demo_fs 0" by (simp add: file_ok_def own fb d)
  then have "inode_ok demo_dir 0 = inode_ok demo_fs 0" by (simp add: inode_ok_def present_def fb d)
  then show "dir_ok demo_dir 0"
    using demo_file(1) d by (simp add: dir_ok_def plain_file_def demo_fs_simps zero_dinode_def)
  show "contents demo_dir 0 = []" by (simp add: contents_def d demo_fs_simps zero_dinode_def)
  show "file_room 0 demo_dir = 57" using demo_file(3) by (simp add: file_room_def d fb)
qed


end
