(* ===== verification/Xv6_Pipe.thy ===== *)
theory Xv6_Pipe
  imports Xv6_Block
begin

text \<open>
  Pipes (\<open>pipe.c\<close> but \<open>pipealloc\<close>, which is in \<open>Xv6_File\<close>). A routine runs, with the pipe's lock
  held, until it returns or sleeps; a sleeping writer keeps the bytes it has not stored yet and
  goes on with them when it is woken. The counters are 32-bit words that wrap.
\<close>

section \<open>Definitions\<close>

definition PIPESIZE :: nat where "PIPESIZE = 512"

record pipe =
  p_data :: "u8 list"
  p_nread :: u32
  p_nwrite :: u32
  p_readopen :: bool
  p_writeopen :: bool

definition new_pipe :: "u8 list \<Rightarrow> pipe" where
  "new_pipe junk = \<lparr>p_data = junk, p_nread = 0, p_nwrite = 0, p_readopen = True, p_writeopen = True\<rparr>"

text \<open>Returned (\<open>None\<close> is -1), or asleep with the bytes that are left.\<close>

datatype 'a blocking = Returns "'a option" | Blocks "u8 list"

definition pipe_full :: "pipe \<Rightarrow> bool" where
  "pipe_full p \<longleftrightarrow> p_nwrite p = p_nread p + of_nat PIPESIZE"

definition pipe_put :: "u8 \<Rightarrow> pipe \<Rightarrow> pipe" where
  "pipe_put c p = p\<lparr>p_data := (p_data p)[unat (p_nwrite p) mod PIPESIZE := c], p_nwrite := p_nwrite p + 1\<rparr>"

fun pipewrite_loop :: "bool \<Rightarrow> nat \<Rightarrow> u8 list \<Rightarrow> pipe \<Rightarrow> nat blocking \<times> pipe" where
  "pipewrite_loop killed n [] p = (Returns (Some n), p)"
| "pipewrite_loop killed n (c # cs) p =
     (if pipe_full p
      then if \<not> p_readopen p \<or> killed then (Returns None, p) else (Blocks (c # cs), p)
      else pipewrite_loop killed n cs (pipe_put c p))"

definition pipewrite :: "bool \<Rightarrow> u8 list \<Rightarrow> pipe \<Rightarrow> nat blocking \<times> pipe" where
  "pipewrite killed addr p = pipewrite_loop killed (length addr) addr p"

fun piperead_loop :: "nat \<Rightarrow> pipe \<Rightarrow> u8 list \<times> pipe" where
  "piperead_loop 0 p = ([], p)"
| "piperead_loop (Suc n) p =
     (if p_nread p = p_nwrite p then ([], p)
      else let c = p_data p ! (unat (p_nread p) mod PIPESIZE);
               (cs, p) = piperead_loop n (p\<lparr>p_nread := p_nread p + 1\<rparr>)
           in (c # cs, p))"

definition piperead :: "bool \<Rightarrow> nat \<Rightarrow> pipe \<Rightarrow> u8 list blocking \<times> pipe" where
  "piperead killed n p =
     (if p_nread p = p_nwrite p \<and> p_writeopen p
      then if killed then (Returns None, p) else (Blocks [], p)
      else case piperead_loop n p of (cs, p) \<Rightarrow> (Returns (Some cs), p))"

text \<open>The pipe after one end is closed, and whether its page is to be freed.\<close>

definition pipeclose :: "bool \<Rightarrow> pipe \<Rightarrow> pipe \<times> bool" where
  "pipeclose writable p =
     (let p = (if writable then p\<lparr>p_writeopen := False\<rparr> else p\<lparr>p_readopen := False\<rparr>)
      in (p, \<not> p_readopen p \<and> \<not> p_writeopen p))"

section \<open>The queue a pipe holds\<close>

definition pipe_len :: "pipe \<Rightarrow> nat" where
  "pipe_len p = unat (p_nwrite p - p_nread p)"

definition pipe_ok :: "pipe \<Rightarrow> bool" where
  "pipe_ok p \<longleftrightarrow> length (p_data p) = PIPESIZE \<and> pipe_len p \<le> PIPESIZE"

definition pipe_q :: "pipe \<Rightarrow> u8 list" where
  "pipe_q p = map (\<lambda>i. p_data p ! (unat (p_nread p + of_nat i) mod PIPESIZE)) [0..<pipe_len p]"

lemma length_pipe_q [simp]: "length (pipe_q p) = pipe_len p" by (simp add: pipe_q_def)

text \<open>The size of the buffer divides the range of the counters, so that indexes survive a wrap.\<close>

lemma unat_add_mod: "unat (a + of_nat i :: u32) mod PIPESIZE = (unat a + i) mod PIPESIZE"
proof -
  have "unat (a + of_nat i) = (unat a + i) mod 4294967296"
    by (simp add: unat_word_ariths unat_of_nat mod_simps)
  also have "\<dots> mod PIPESIZE = (unat a + i) mod PIPESIZE"
    by (rule mod_mod_cancel) (simp add: PIPESIZE_def)
  finally show ?thesis .
qed

lemma slot_inj_le:
  assumes "i \<le> j" "j < PIPESIZE" "(a + j) mod PIPESIZE = (a + i) mod PIPESIZE"
  shows "i = j"
proof -
  have "PIPESIZE dvd (a + j) - (a + i)" using assms(1,3) mod_eq_dvd_iff_nat [of "a + i" "a + j" PIPESIZE] by simp
  then have "PIPESIZE dvd j - i" by simp
  then have "j - i = 0" using assms(2) by (metis dvd_imp_le less_imp_diff_less not_le neq0_conv)
  then show ?thesis using assms(1) by simp
qed

lemma slot_inj: "i < PIPESIZE \<Longrightarrow> j < PIPESIZE \<Longrightarrow> (a + i) mod PIPESIZE = (a + j) mod PIPESIZE \<Longrightarrow> i = j"
  using slot_inj_le [of i j a] slot_inj_le [of j i a] by (metis nat_le_linear)

lemma PIPESIZE_pos [simp]: "0 < PIPESIZE" by (simp add: PIPESIZE_def)

lemma pipe_full_iff: "pipe_ok p \<Longrightarrow> pipe_full p \<longleftrightarrow> pipe_len p = PIPESIZE"
proof -
  have e: "p_nwrite p = p_nread p + of_nat PIPESIZE \<longleftrightarrow> p_nwrite p - p_nread p = of_nat PIPESIZE" by (auto simp: algebra_simps)
  have u: "unat (of_nat PIPESIZE :: u32) = PIPESIZE" by (simp add: PIPESIZE_def)
  show "pipe_full p \<longleftrightarrow> pipe_len p = PIPESIZE" unfolding pipe_full_def pipe_len_def e by (metis u unsigned_word_eqI)
qed

lemma pipe_empty_iff: "p_nread p = p_nwrite p \<longleftrightarrow> pipe_len p = 0"
  by (auto simp: pipe_len_def unat_eq_0)

lemma unat_Suc_u32: "unat (d :: u32) < 4294967295 \<Longrightarrow> unat (d + 1) = unat d + 1"
  using unat_add_u32 [of d 1] by simp

lemma pipe_put_ok:
  assumes ok: "pipe_ok p" and nf: "pipe_len p < PIPESIZE"
  shows "pipe_ok (pipe_put c p)" "pipe_q (pipe_put c p) = pipe_q p @ [c]" "pipe_len (pipe_put c p) = pipe_len p + 1"
    "p_readopen (pipe_put c p) = p_readopen p" "p_writeopen (pipe_put c p) = p_writeopen p"
proof -
  have l: "pipe_len p < 512" using nf by (simp add: PIPESIZE_def)
  have e: "p_nwrite p + 1 - p_nread p = (p_nwrite p - p_nread p) + 1" by simp
  show ln: "pipe_len (pipe_put c p) = pipe_len p + 1"
    unfolding pipe_len_def pipe_put_def using l by (simp add: e unat_Suc_u32 pipe_len_def)
  show "pipe_ok (pipe_put c p)" using ok nf ln by (simp add: pipe_ok_def) (simp add: pipe_put_def)
  show "p_readopen (pipe_put c p) = p_readopen p" "p_writeopen (pipe_put c p) = p_writeopen p" by (simp_all add: pipe_put_def)
  have w: "unat (p_nwrite p) mod PIPESIZE = (unat (p_nread p) + pipe_len p) mod PIPESIZE"
    using unat_add_mod [of "p_nread p" "pipe_len p"] by (simp add: pipe_len_def)
  show "pipe_q (pipe_put c p) = pipe_q p @ [c]"
  proof (rule nth_equalityI)
    show "length (pipe_q (pipe_put c p)) = length (pipe_q p @ [c])" using ln by simp
    fix i assume "i < length (pipe_q (pipe_put c p))"
    then have i: "i \<le> pipe_len p" using ln by simp
    have a: "pipe_q (pipe_put c p) ! i = (p_data p)[unat (p_nwrite p) mod PIPESIZE := c] ! ((unat (p_nread p) + i) mod PIPESIZE)"
      using i ln unat_add_mod [of "p_nread p" i] by (simp add: pipe_q_def pipe_put_def del: upt_Suc)
    have ld: "length (p_data p) = PIPESIZE" using ok by (simp add: pipe_ok_def)
    show "pipe_q (pipe_put c p) ! i = (pipe_q p @ [c]) ! i"
    proof (cases "i = pipe_len p")
      case True
      then show ?thesis unfolding a w using ld by (simp add: nth_append)
    next
      case False
      then have lt: "i < pipe_len p" using i by simp
      then have "(unat (p_nread p) + pipe_len p) mod PIPESIZE \<noteq> (unat (p_nread p) + i) mod PIPESIZE"
        using slot_inj [of "pipe_len p" i] nf by fastforce
      then show ?thesis unfolding a w using lt unat_add_mod [of "p_nread p" i] by (simp add: nth_append pipe_q_def)
    qed
  qed
qed

lemma pipe_get_ok:
  assumes ok: "pipe_ok p" and ne: "pipe_len p \<noteq> 0"
  shows "pipe_ok (p\<lparr>p_nread := p_nread p + 1\<rparr>)"
    "pipe_q p = p_data p ! (unat (p_nread p) mod PIPESIZE) # pipe_q (p\<lparr>p_nread := p_nread p + 1\<rparr>)"
    "pipe_len (p\<lparr>p_nread := p_nread p + 1\<rparr>) = pipe_len p - 1"
proof -
  show ln: "pipe_len (p\<lparr>p_nread := p_nread p + 1\<rparr>) = pipe_len p - 1"
    using ne unat_pred [of "p_nwrite p - p_nread p"] by (simp add: pipe_len_def unat_eq_0 diff_diff_eq)
  then show "pipe_ok (p\<lparr>p_nread := p_nread p + 1\<rparr>)" using ok by (auto simp: pipe_ok_def)
  obtain n where n: "pipe_len p = Suc n" using ne by (cases "pipe_len p") auto
  have "[0..<Suc n] = 0 # map Suc [0..<n]" by (simp add: map_Suc_upt upt_conv_Cons)
  then show "pipe_q p = p_data p ! (unat (p_nread p) mod PIPESIZE) # pipe_q (p\<lparr>p_nread := p_nread p + 1\<rparr>)"
    using ln n by (simp add: pipe_q_def algebra_simps)
qed

lemma piperead_loop_ok:
  "pipe_ok p \<Longrightarrow> piperead_loop n p = (cs, p') \<Longrightarrow>
    cs = take n (pipe_q p) \<and> pipe_q p' = drop n (pipe_q p) \<and> pipe_ok p' \<and>
    p_readopen p' = p_readopen p \<and> p_writeopen p' = p_writeopen p"
proof (induction n arbitrary: p cs p')
  case (Suc n)
  show ?case
  proof (cases "pipe_len p = 0")
    case True
    then show ?thesis using Suc.prems by (auto simp: pipe_empty_iff pipe_q_def)
  next
    case False
    note g = pipe_get_ok [OF Suc.prems(1) False]
    obtain cs' p1 where r: "piperead_loop n (p\<lparr>p_nread := p_nread p + 1\<rparr>) = (cs', p1)" by force
    then have "cs = p_data p ! (unat (p_nread p) mod PIPESIZE) # cs'" "p' = p1"
      using Suc.prems(2) False by (auto simp: pipe_empty_iff Let_def)
    then show ?thesis using Suc.IH [OF g(1) r] g(2) by simp
  qed
qed simp

lemma pipewrite_loop_ok:
  "pipe_ok p \<Longrightarrow> pipewrite_loop killed n cs p = (r, p') \<Longrightarrow>
    \<exists>k\<le>length cs. pipe_q p' = pipe_q p @ take k cs \<and> pipe_ok p' \<and> p_readopen p' = p_readopen p \<and>
      p_writeopen p' = p_writeopen p \<and>
      (if k = length cs then r = Returns (Some n)
       else pipe_len p' = PIPESIZE \<and> r = (if \<not> p_readopen p \<or> killed then Returns None else Blocks (drop k cs)))"
proof (induction cs arbitrary: p)
  case (Cons c cs)
  show ?case
  proof (cases "pipe_full p")
    case True
    then have "pipe_len p = PIPESIZE" using pipe_full_iff [OF Cons.prems(1)] by simp
    then show ?thesis using Cons.prems True by (intro exI [of _ 0]) (auto split: if_splits)
  next
    case False
    then have "pipe_len p < PIPESIZE" using Cons.prems(1) pipe_full_iff [OF Cons.prems(1)] by (simp add: pipe_ok_def)
    note put = pipe_put_ok [OF Cons.prems(1) this, of c]
    from Cons.IH [OF put(1)] Cons.prems(2) False obtain k where k: "k \<le> length cs"
      "pipe_q p' = pipe_q (pipe_put c p) @ take k cs" "pipe_ok p'" "p_readopen p' = p_readopen p" "p_writeopen p' = p_writeopen p"
      "if k = length cs then r = Returns (Some n)
       else pipe_len p' = PIPESIZE \<and> r = (if \<not> p_readopen p \<or> killed then Returns None else Blocks (drop k cs))"
      using put(4,5) by auto
    then show ?thesis using put(2) by (intro exI [of _ "Suc k"]) auto
  qed
qed simp

section \<open>A writer and a reader\<close>

text \<open>
  One process writes a string, another one reads; the writer stores bytes until it is done or the
  pipe is full, the reader takes up to \<open>n\<close> bytes. Both are run by the scheduler in any order.
\<close>

record pstream =
  ps_todo :: "u8 list"
  ps_pipe :: pipe
  ps_got :: "u8 list"

datatype pipe_ev = WriterRuns | ReaderRuns nat

fun pipe_ev_step :: "pipe_ev \<Rightarrow> pstream \<Rightarrow> pstream" where
  "pipe_ev_step WriterRuns s =
     (case pipewrite False (ps_todo s) (ps_pipe s) of
        (Blocks rest, p) \<Rightarrow> s\<lparr>ps_todo := rest, ps_pipe := p\<rparr>
      | (Returns _, p) \<Rightarrow> s\<lparr>ps_todo := [], ps_pipe := p\<rparr>)"
| "pipe_ev_step (ReaderRuns n) s =
     (case piperead False n (ps_pipe s) of
        (Returns (Some cs), p) \<Rightarrow> s\<lparr>ps_pipe := p, ps_got := ps_got s @ cs\<rparr>
      | (_, p) \<Rightarrow> s\<lparr>ps_pipe := p\<rparr>)"

definition stream_inv :: "u8 list \<Rightarrow> pstream \<Rightarrow> bool" where
  "stream_inv bs s \<longleftrightarrow> pipe_ok (ps_pipe s) \<and> p_readopen (ps_pipe s) \<and> p_writeopen (ps_pipe s) \<and>
     ps_got s @ pipe_q (ps_pipe s) @ ps_todo s = bs"

lemma writer_step:
  assumes inv: "stream_inv bs s"
  shows "stream_inv bs (pipe_ev_step WriterRuns s)"
    "ps_got (pipe_ev_step WriterRuns s) = ps_got s"
    "ps_todo (pipe_ev_step WriterRuns s) = [] \<or> pipe_q (ps_pipe (pipe_ev_step WriterRuns s)) \<noteq> []"
proof -
  obtain r p where r: "pipewrite_loop False (length (ps_todo s)) (ps_todo s) (ps_pipe s) = (r, p)" by force
  have h: "pipe_ok (ps_pipe s)" "p_readopen (ps_pipe s)" "p_writeopen (ps_pipe s)" using inv by (auto simp: stream_inv_def)
  obtain k where k: "k \<le> length (ps_todo s)" "pipe_q p = pipe_q (ps_pipe s) @ take k (ps_todo s)" "pipe_ok p"
      "p_readopen p" "p_writeopen p"
      "if k = length (ps_todo s) then r = Returns (Some (length (ps_todo s)))
       else pipe_len p = PIPESIZE \<and> r = Blocks (drop k (ps_todo s))"
    using pipewrite_loop_ok [OF h(1) r] h(2,3) by auto
  have s': "pipe_ev_step WriterRuns s = s\<lparr>ps_todo := drop k (ps_todo s), ps_pipe := p\<rparr>"
    using k(1,6) r by (cases "k = length (ps_todo s)") (simp_all add: pipewrite_def)
  show "stream_inv bs (pipe_ev_step WriterRuns s)" using inv k(2-5) unfolding s' by (simp add: stream_inv_def)
  show "ps_got (pipe_ev_step WriterRuns s) = ps_got s" unfolding s' by simp
  have "pipe_q p \<noteq> []" if "k \<noteq> length (ps_todo s)" using k(6) that by (auto simp: pipe_q_def PIPESIZE_def)
  then show "ps_todo (pipe_ev_step WriterRuns s) = [] \<or> pipe_q (ps_pipe (pipe_ev_step WriterRuns s)) \<noteq> []"
    unfolding s' by auto
qed

lemma take_drop_append: "take n q @ drop n q @ t = q @ t"
  by (metis append_assoc append_take_drop_id)

lemma reader_step:
  assumes inv: "stream_inv bs s"
  shows "stream_inv bs (pipe_ev_step (ReaderRuns n) s)"
    "ps_got (pipe_ev_step (ReaderRuns n) s) = ps_got s @ take n (pipe_q (ps_pipe s))"
proof -
  have h: "pipe_ok (ps_pipe s)" "p_readopen (ps_pipe s)" "p_writeopen (ps_pipe s)" using inv by (auto simp: stream_inv_def)
  have "stream_inv bs (pipe_ev_step (ReaderRuns n) s) \<and>
    ps_got (pipe_ev_step (ReaderRuns n) s) = ps_got s @ take n (pipe_q (ps_pipe s))"
  proof (cases "pipe_len (ps_pipe s) = 0")
    case True
    then have "piperead False n (ps_pipe s) = (Blocks [], ps_pipe s)" "pipe_q (ps_pipe s) = []"
      using h(3) by (simp_all add: piperead_def pipe_empty_iff pipe_q_def)
    then show ?thesis using inv by (simp add: stream_inv_def)
  next
    case False
    obtain cs p where r: "piperead_loop n (ps_pipe s) = (cs, p)" by force
    then have "piperead False n (ps_pipe s) = (Returns (Some cs), p)" using False by (simp add: piperead_def pipe_empty_iff)
    moreover note piperead_loop_ok [OF h(1) r]
    ultimately show ?thesis using inv by (simp add: stream_inv_def take_drop_append)
  qed
  then show "stream_inv bs (pipe_ev_step (ReaderRuns n) s)"
    "ps_got (pipe_ev_step (ReaderRuns n) s) = ps_got s @ take n (pipe_q (ps_pipe s))" by blast+
qed

lemma stream_run:
  "stream_inv bs s \<Longrightarrow> stream_inv bs (fold pipe_ev_step es s)"
proof (induction es arbitrary: s)
  case (Cons e es)
  have "stream_inv bs (pipe_ev_step e s)" using writer_step(1) [OF Cons.prems] reader_step(1) [OF Cons.prems] by (cases e) auto
  then show ?case using Cons.IH by simp
qed simp

text \<open>One turn of each delivers a byte, as long as there is one.\<close>

lemma stream_round:
  assumes inv: "stream_inv bs s" and n: "0 < n"
  defines "s' \<equiv> pipe_ev_step (ReaderRuns n) (pipe_ev_step WriterRuns s)"
  shows "stream_inv bs s'" "ps_got s \<noteq> bs \<Longrightarrow> length (ps_got s) < length (ps_got s')"
    "length (ps_got s) \<le> length (ps_got s')"
proof -
  let ?t = "pipe_ev_step WriterRuns s"
  have t: "stream_inv bs ?t" "ps_got ?t = ps_got s" "ps_todo ?t = [] \<or> pipe_q (ps_pipe ?t) \<noteq> []"
    using writer_step [OF inv] by blast+
  show "stream_inv bs s'" unfolding s'_def by (rule reader_step(1) [OF t(1)])
  have g: "ps_got s' = ps_got s @ take n (pipe_q (ps_pipe ?t))" using reader_step(2) [OF t(1), of n] t(2) by (simp add: s'_def)
  then show "length (ps_got s) \<le> length (ps_got s')" by simp
  show "length (ps_got s) < length (ps_got s')" if "ps_got s \<noteq> bs"
  proof -
    have "pipe_q (ps_pipe ?t) \<noteq> []" using t that by (auto simp: stream_inv_def)
    then show ?thesis using g n by (cases "pipe_q (ps_pipe ?t)"; cases n) auto
  qed
qed

definition pipe_rounds :: "nat \<Rightarrow> nat \<Rightarrow> pipe_ev list" where
  "pipe_rounds k n = concat (replicate k [WriterRuns, ReaderRuns n])"

lemma got_full: "stream_inv bs s \<Longrightarrow> length bs \<le> length (ps_got s) \<Longrightarrow> ps_got s = bs"
  by (auto simp: stream_inv_def pipe_q_def)

lemma rounds_deliver:
  "stream_inv bs s \<Longrightarrow> 0 < n \<Longrightarrow> stream_inv bs (fold pipe_ev_step (pipe_rounds k n) s) \<and>
    (ps_got (fold pipe_ev_step (pipe_rounds k n) s) = bs \<or>
     length (ps_got s) + k \<le> length (ps_got (fold pipe_ev_step (pipe_rounds k n) s)))"
proof (induction k arbitrary: s)
  case (Suc k)
  let ?s = "pipe_ev_step (ReaderRuns n) (pipe_ev_step WriterRuns s)"
  note r = stream_round [OF Suc.prems]
  have f: "fold pipe_ev_step (pipe_rounds (Suc k) n) s = fold pipe_ev_step (pipe_rounds k n) ?s" by (simp add: pipe_rounds_def)
  note ih = Suc.IH [OF r(1) Suc.prems(2)]
  show ?case
  proof (cases "ps_got s = bs")
    case True
    then have "length bs \<le> length (ps_got ?s)" using r(3) by simp
    then show ?thesis using ih got_full [of bs "fold pipe_ev_step (pipe_rounds k n) ?s"] unfolding f by auto
  next
    case False
    then show ?thesis using ih r(2) unfolding f by auto
  qed
qed (simp add: pipe_rounds_def)

section \<open>Claims\<close>

definition pipe_start :: "u32 \<Rightarrow> u8 list \<Rightarrow> u8 list \<Rightarrow> pstream" where
  "pipe_start c junk bs = \<lparr>ps_todo = bs, ps_pipe = (new_pipe junk)\<lparr>p_nread := c, p_nwrite := c\<rparr>, ps_got = []\<rparr>"

lemma stream_start: "length junk = PIPESIZE \<Longrightarrow> stream_inv bs (pipe_start c junk bs)"
  by (simp add: stream_inv_def pipe_start_def new_pipe_def pipe_ok_def pipe_q_def pipe_len_def)

text \<open>
  C13. A pipe is a bounded first-in first-out channel: however the writer and the reader are
  interleaved, and wherever the 32-bit counters stand when they start, what the reader has
  received is a prefix of what was written, the rest being in the pipe, at most \<open>PIPESIZE\<close> bytes of
  it, or still with the writer.
\<close>

theorem pipe_stream:
  assumes "length junk = PIPESIZE"
  shows "let s = fold pipe_ev_step es (pipe_start c junk bs)
    in ps_got s @ pipe_q (ps_pipe s) @ ps_todo s = bs \<and> length (pipe_q (ps_pipe s)) \<le> PIPESIZE"
  using stream_run [OF stream_start [OF assms], of bs es c] by (simp add: stream_inv_def pipe_ok_def Let_def)

lemma pipe_stream_witness:
  "ps_got (fold pipe_ev_step [WriterRuns, ReaderRuns 2] (pipe_start 0xFFFFFFFF (replicate PIPESIZE 0) [1, 2, 3])) @
   pipe_q (ps_pipe (fold pipe_ev_step [WriterRuns, ReaderRuns 2] (pipe_start 0xFFFFFFFF (replicate PIPESIZE 0) [1, 2, 3]))) @
   ps_todo (fold pipe_ev_step [WriterRuns, ReaderRuns 2] (pipe_start 0xFFFFFFFF (replicate PIPESIZE 0) [1, 2, 3])) = [1, 2, 3]"
  using pipe_stream [where junk = "replicate PIPESIZE 0" and es = "[WriterRuns, ReaderRuns 2]" and c = "0xFFFFFFFF" and bs = "[1, 2, 3]"] unfolding Let_def by simp



end
