(* ===== verification/Xv6_File.thy ===== *)
theory Xv6_File
  imports Xv6_Dir Xv6_Pipe Xv6_Kalloc
begin

text \<open>
  The table of open files (\<open>file.c\<close>), \<open>pipealloc\<close> of \<open>pipe.c\<close>, and file-system operations as log
  transactions: \<open>in_op\<close> runs a piece of file-system code between \<open>begin_op\<close> and \<open>end_op\<close> and hands
  its \<open>log_write\<close> calls to the log. A routine that would sleep is a \<open>Sleeps\<close> fault; what a
  sleeping pipe writer does when it goes on is in \<open>Xv6_Pipe\<close>.
\<close>

section \<open>Definitions\<close>

datatype ftype = FD_NONE | FD_PIPE | FD_INODE

record file_st =
  f_type :: ftype
  f_ref :: int
  f_readable :: bool
  f_writable :: bool
  f_pipe :: u32
  f_ip :: nat
  f_off :: u32

record 'd kst =
  k_fs :: "'d fsys"
  k_log :: log
  k_files :: "nat \<Rightarrow> file_st"
  k_pipes :: "u32 \<Rightarrow> pipe"
  k_kmem :: kmem

text \<open>The \<open>log_write\<close> calls of an operation, in order.\<close>

fun log_writes :: "(u32 \<times> block) list \<Rightarrow> log \<Rightarrow> log result" where
  "log_writes [] l = Inr l"
| "log_writes (w # ws) l = andthen (log_write (fst w) (snd w) l) (log_writes ws)"

definition k_begin :: "'d kst \<Rightarrow> 'd kst result" where
  "k_begin k = andthen (begin_op (k_log k)) (\<lambda>l. Inr (k\<lparr>k_log := l\<rparr>))"

definition k_end :: "'d kst \<Rightarrow> 'd kst result" where
  "k_end k = andthen (end_op (k_log k)) (\<lambda>l. Inr (k\<lparr>k_log := l\<rparr>))"

text \<open>A piece of file-system code, whose \<open>log_write\<close> calls go to the log.\<close>

definition fs_do :: "('d fsys \<Rightarrow> ('a \<times> 'd fsys) result) \<Rightarrow> 'd kst \<Rightarrow> ('a \<times> 'd kst) result" where
  "fs_do f k =
     andthen (f ((k_fs k)\<lparr>fs_wlog := []\<rparr>)) (\<lambda>(r, s).
     andthen (log_writes (fs_wlog s) (k_log k)) (\<lambda>l. Inr (r, k\<lparr>k_fs := s, k_log := l\<rparr>)))"

definition fs_run :: "('d fsys \<Rightarrow> 'd fsys result) \<Rightarrow> 'd kst \<Rightarrow> 'd kst result" where
  "fs_run f k = andthen (fs_do (\<lambda>s. andthen (f s) (\<lambda>s. Inr ((), s))) k) (\<lambda>(_, k). Inr k)"

definition in_op :: "('d fsys \<Rightarrow> ('a \<times> 'd fsys) result) \<Rightarrow> 'd kst \<Rightarrow> ('a \<times> 'd kst) result" where
  "in_op f k = andthen (k_begin k) (\<lambda>k. andthen (fs_do f k) (\<lambda>(r, k). andthen (k_end k) (\<lambda>k. Inr (r, k))))"

definition upd_file :: "nat \<Rightarrow> (file_st \<Rightarrow> file_st) \<Rightarrow> 'd kst \<Rightarrow> 'd kst" where
  "upd_file f g k = k\<lparr>k_files := (k_files k)(f := g (k_files k f))\<rparr>"

definition filealloc :: "'d kst \<Rightarrow> nat option \<times> 'd kst" where
  "filealloc k =
     (case find (\<lambda>f. f_ref (k_files k f) = 0) [0..<NFILE] of
        Some f \<Rightarrow> (Some f, upd_file f (\<lambda>x. x\<lparr>f_ref := 1\<rparr>) k)
      | None \<Rightarrow> (None, k))"

definition filedup :: "nat \<Rightarrow> 'd kst \<Rightarrow> 'd kst result" where
  "filedup f k =
     (if f_ref (k_files k f) < 1 then Inl (Panic ''filedup'')
      else Inr (upd_file f (\<lambda>x. x\<lparr>f_ref := f_ref x + 1\<rparr>) k))"

text \<open>\<open>pipeclose\<close> of the pipe at a page, which is freed when both ends are closed.\<close>

definition pipeclose_at :: "u32 \<Rightarrow> u32 \<Rightarrow> bool \<Rightarrow> 'd kst \<Rightarrow> 'd kst result" where
  "pipeclose_at kend pg writable k =
     (case pipeclose writable (k_pipes k pg) of (p, free) \<Rightarrow>
        let k = k\<lparr>k_pipes := (k_pipes k)(pg := p)\<rparr>
        in if free then andthen (kfree kend pg (k_kmem k)) (\<lambda>m. Inr (k\<lparr>k_kmem := m\<rparr>)) else Inr k)"

definition fileclose :: "int \<Rightarrow> u32 \<Rightarrow> nat \<Rightarrow> 'd kst \<Rightarrow> 'd kst result" where
  "fileclose pid kend f k =
     (if f_ref (k_files k f) < 1 then Inl (Panic ''fileclose'')
      else let k = upd_file f (\<lambda>x. x\<lparr>f_ref := f_ref x - 1\<rparr>) k
           in if f_ref (k_files k f) > 0 then Inr k
              else let ff = k_files k f; k = upd_file f (\<lambda>x. x\<lparr>f_ref := 0, f_type := FD_NONE\<rparr>) k
                   in (case f_type ff of
                         FD_PIPE \<Rightarrow> pipeclose_at kend (f_pipe ff) (f_writable ff) k
                       | FD_INODE \<Rightarrow>
                           andthen (k_begin k) (\<lambda>k. andthen (fs_run (iput pid (f_ip ff)) k) k_end)
                       | FD_NONE \<Rightarrow> Inr k))"

definition filestat :: "int \<Rightarrow> nat \<Rightarrow> 'd kst \<Rightarrow> (stat option \<times> 'd kst) result" where
  "filestat pid f k =
     (if f_type (k_files k f) = FD_INODE
      then let ip = f_ip (k_files k f)
           in andthen (ilock pid ip (k_fs k)) (\<lambda>s.
              let st = stati ip s
              in andthen (iunlock pid ip s) (\<lambda>s. Inr (Some st, k\<lparr>k_fs := s\<rparr>)))
      else Inr (None, k))"

text \<open>The bytes read, \<open>None\<close> for -1. The count \<open>n\<close> is an \<open>int\<close>.\<close>

definition fileread :: "int \<Rightarrow> bool \<Rightarrow> 'd devsw \<Rightarrow> nat \<Rightarrow> u32 \<Rightarrow> 'd kst \<Rightarrow> (u8 list option \<times> 'd kst) result" where
  "fileread pid killed dv f n k =
     (let ff = k_files k f
      in if \<not> f_readable ff then Inr (None, k)
         else case f_type ff of
           FD_PIPE \<Rightarrow>
             (case piperead killed (nat (sint n)) (k_pipes k (f_pipe ff)) of
                (Returns r, p) \<Rightarrow> Inr (r, k\<lparr>k_pipes := (k_pipes k)(f_pipe ff := p)\<rparr>)
              | (Blocks _, p) \<Rightarrow> Inl (Sleeps ''pipe''))
         | FD_INODE \<Rightarrow>
             andthen (ilock pid (f_ip ff) (k_fs k)) (\<lambda>s.
             andthen (readi dv (f_ip ff) (f_off ff) n s) (\<lambda>(r, s).
             andthen (iunlock pid (f_ip ff) s) (\<lambda>s.
               let k = k\<lparr>k_fs := s\<rparr>
               in Inr (r, case r of Some bs \<Rightarrow> upd_file f (\<lambda>x. x\<lparr>f_off := f_off x + of_nat (length bs)\<rparr>) k | None \<Rightarrow> k))))
         | FD_NONE \<Rightarrow> Inl (Panic ''fileread''))"

text \<open>At most three blocks per transaction.\<close>

definition filewrite_max :: nat where
  "filewrite_max = ((MAXOPBLOCKS - 1 - 1 - 2) div 2) * 512"

definition filewrite_chunk :: "int \<Rightarrow> 'd devsw \<Rightarrow> nat \<Rightarrow> u8 list \<Rightarrow> 'd kst \<Rightarrow> (nat option \<times> 'd kst) result" where
  "filewrite_chunk pid dv f src k =
     (let ip = f_ip (k_files k f); off = f_off (k_files k f)
      in andthen (in_op (\<lambda>s.
           andthen (ilock pid ip s) (\<lambda>s.
           andthen (writei dv ip src off s) (\<lambda>(r, s).
           andthen (iunlock pid ip s) (\<lambda>s. Inr (r, s))))) k) (\<lambda>(r, k).
         Inr (r, case r of Some m \<Rightarrow> upd_file f (\<lambda>x. x\<lparr>f_off := f_off x + of_nat m\<rparr>) k | None \<Rightarrow> k)))"

function filewrite_loop :: "int \<Rightarrow> 'd devsw \<Rightarrow> nat \<Rightarrow> u8 list \<Rightarrow> 'd kst \<Rightarrow> (bool \<times> 'd kst) result" where
  "filewrite_loop pid dv f src k =
     (if src = [] then Inr (True, k)
      else let n1 = min (length src) filewrite_max
           in andthen (filewrite_chunk pid dv f (take n1 src) k) (\<lambda>(r, k).
                case r of
                  None \<Rightarrow> Inr (False, k)
                | Some m \<Rightarrow>
                    if m \<noteq> n1 then Inl (Panic ''short filewrite'') else filewrite_loop pid dv f (drop n1 src) k))"
  by pat_completeness auto
termination
  by (relation "measure (\<lambda>(pid, dv, f, src, k). length src)") (auto simp: filewrite_max_def MAXOPBLOCKS_def)

declare filewrite_loop.simps [simp del]

definition filewrite :: "int \<Rightarrow> bool \<Rightarrow> 'd devsw \<Rightarrow> nat \<Rightarrow> u8 list \<Rightarrow> 'd kst \<Rightarrow> (nat option \<times> 'd kst) result" where
  "filewrite pid killed dv f src k =
     (let ff = k_files k f
      in if \<not> f_writable ff then Inr (None, k)
         else case f_type ff of
           FD_PIPE \<Rightarrow>
             (case pipewrite killed src (k_pipes k (f_pipe ff)) of
                (Returns r, p) \<Rightarrow> Inr (r, k\<lparr>k_pipes := (k_pipes k)(f_pipe ff := p)\<rparr>)
              | (Blocks _, p) \<Rightarrow> Inl (Sleeps ''pipe''))
         | FD_INODE \<Rightarrow>
             andthen (filewrite_loop pid dv f src k) (\<lambda>(ok, k).
               Inr (if ok then Some (length src) else None, k))
         | FD_NONE \<Rightarrow> Inl (Panic ''filewrite''))"

text \<open>The two files of a new pipe; \<open>junk\<close> is what the page held.\<close>

definition pipealloc :: "int \<Rightarrow> u32 \<Rightarrow> u8 list \<Rightarrow> 'd kst \<Rightarrow> ((nat \<times> nat) option \<times> 'd kst) result" where
  "pipealloc pid kend junk k =
     (case filealloc k of
        (None, k) \<Rightarrow> Inr (None, k)
      | (Some f0, k) \<Rightarrow>
          (case filealloc k of
             (None, k) \<Rightarrow> andthen (fileclose pid kend f0 k) (\<lambda>k. Inr (None, k))
           | (Some f1, k) \<Rightarrow>
               (case kalloc (k_kmem k) of (pg, m) \<Rightarrow>
                  let k = k\<lparr>k_kmem := m\<rparr>
                  in if pg = 0
                     then andthen (fileclose pid kend f0 k) (\<lambda>k. andthen (fileclose pid kend f1 k) (\<lambda>k. Inr (None, k)))
                     else let k = k\<lparr>k_pipes := (k_pipes k)(pg := new_pipe junk)\<rparr>;
                              k = upd_file f0 (\<lambda>x. x\<lparr>f_type := FD_PIPE, f_readable := True, f_writable := False, f_pipe := pg\<rparr>) k;
                              k = upd_file f1 (\<lambda>x. x\<lparr>f_type := FD_PIPE, f_readable := False, f_writable := True, f_pipe := pg\<rparr>) k
                          in Inr (Some (f0, f1), k))))"

end
