(* ===== verification/Xv6_Vm.thy ===== *)
theory Xv6_Vm
  imports Xv6_Kalloc Xv6_Inode Xv6_Ptable
begin

text \<open>
  Page tables and user memory (\<open>vm.c\<close>). Page directories, page tables and user pages are pages
  of the allocator and live in the same byte memory as its free list; a page table entry is the
  word at its address. \<open>kend\<close> and \<open>kdata\<close> are the linker symbols \<open>end\<close> and \<open>data\<close>. A null
  pointer is the address 0.
\<close>

unbundle bit_operations_syntax

section \<open>Definitions\<close>

definition KERNLINK :: u32 where "KERNLINK = KERNBASE + EXTMEM"
definition NPDENTRIES :: nat where "NPDENTRIES = 1024"
definition NPTENTRIES :: nat where "NPTENTRIES = 1024"
definition PTE_P :: u32 where "PTE_P = 1"
definition PTE_W :: u32 where "PTE_W = 2"
definition PTE_U :: u32 where "PTE_U = 4"

definition PDX :: "u32 \<Rightarrow> u32" where "PDX va = drop_bit 22 va AND 0x3FF"
definition PTX :: "u32 \<Rightarrow> u32" where "PTX va = drop_bit 12 va AND 0x3FF"
definition PGADDR :: "u32 \<Rightarrow> u32 \<Rightarrow> u32 \<Rightarrow> u32" where
  "PGADDR d t o' = push_bit 22 d OR push_bit 12 t OR o'"
definition PTE_ADDR :: "u32 \<Rightarrow> u32" where "PTE_ADDR pte = pte AND NOT 0xFFF"
definition PTE_FLAGS :: "u32 \<Rightarrow> u32" where "PTE_FLAGS pte = pte AND 0xFFF"

abbreviation set_mem :: "mem \<Rightarrow> kmem \<Rightarrow> kmem" where
  "set_mem m s \<equiv> s\<lparr>km_mem := m\<rparr>"

definition walkpgdir :: "u32 \<Rightarrow> u32 \<Rightarrow> bool \<Rightarrow> kmem \<Rightarrow> u32 \<times> kmem" where
  "walkpgdir pgdir va alloc s =
     (let pde = pgdir + 4 * PDX va; e = ld32 (km_mem s) pde
      in if e AND PTE_P \<noteq> 0 then (P2V (PTE_ADDR e) + 4 * PTX va, s)
         else if \<not> alloc then (0, s)
         else case kalloc s of (pgtab, s) \<Rightarrow>
           if pgtab = 0 then (0, s)
           else let m = memset (km_mem s) pgtab 0 PGSIZE;
                    m = st32 m pde (V2P pgtab OR PTE_P OR PTE_W OR PTE_U)
                in (pgtab + 4 * PTX va, set_mem m s))"

text \<open>
  The loop of \<open>mappages\<close> with the number of pages left: \<open>a\<close> and \<open>last\<close> are page addresses, so
  \<open>a\<close> meets \<open>last\<close> after \<open>(last - a) / PGSIZE\<close> steps. The result is whether all were mapped.
\<close>

fun mappages_loop :: "u32 \<Rightarrow> u32 \<Rightarrow> nat \<Rightarrow> u32 \<Rightarrow> u32 \<Rightarrow> kmem \<Rightarrow> (bool \<times> kmem) result" where
  "mappages_loop pgdir a 0 pa perm s = Inr (True, s)"
| "mappages_loop pgdir a (Suc n) pa perm s =
     (case walkpgdir pgdir a True s of (pte, s) \<Rightarrow>
        if pte = 0 then Inr (False, s)
        else if ld32 (km_mem s) pte AND PTE_P \<noteq> 0 then Inl (Panic ''remap'')
        else mappages_loop pgdir (a + PGSIZE) n (pa + PGSIZE) perm
               (set_mem (st32 (km_mem s) pte (pa OR perm OR PTE_P)) s))"

definition mappages :: "u32 \<Rightarrow> u32 \<Rightarrow> u32 \<Rightarrow> u32 \<Rightarrow> u32 \<Rightarrow> kmem \<Rightarrow> (bool \<times> kmem) result" where
  "mappages pgdir va sz pa perm s =
     (let a = PGROUNDDOWN va; last = PGROUNDDOWN (va + sz - 1)
      in mappages_loop pgdir a (Suc (unat ((last - a) div PGSIZE))) pa perm s)"

text \<open>
  The loop of \<open>deallocuvm\<close>. When \<open>a\<close> wraps around it starts over at address 0, finds nothing
  left to free and never ends.
\<close>

definition dealloc_next :: "u32 \<Rightarrow> u32 \<Rightarrow> u32" where
  "dealloc_next pte a = (if pte = 0 then PGADDR (PDX a + 1) 0 0 - PGSIZE else a) + PGSIZE"

definition dealloc_page :: "u32 \<Rightarrow> u32 \<Rightarrow> kmem \<Rightarrow> kmem result" where
  "dealloc_page kend pte s =
     (if pte \<noteq> 0 \<and> ld32 (km_mem s) pte AND PTE_P \<noteq> 0
      then let pa = PTE_ADDR (ld32 (km_mem s) pte)
           in if pa = 0 then Inl (Panic ''kfree'')
              else andthen (kfree kend (P2V pa) s) (\<lambda>s. Inr (set_mem (st32 (km_mem s) pte 0) s))
      else Inr s)"

function deallocuvm_loop :: "u32 \<Rightarrow> u32 \<Rightarrow> u32 \<Rightarrow> u32 \<Rightarrow> kmem \<Rightarrow> kmem result" where
  "deallocuvm_loop kend pgdir a oldsz s =
     (if a < oldsz
      then let pte = fst (walkpgdir pgdir a False s)
           in andthen (dealloc_page kend pte s) (\<lambda>s.
                if dealloc_next pte a \<le> a then Inl Spins
                else deallocuvm_loop kend pgdir (dealloc_next pte a) oldsz s)
      else Inr s)"
  by pat_completeness auto
termination
proof (relation "measure (\<lambda>(kend, pgdir, a, oldsz, s). 0x100000000 - unat a)")
  fix kend pgdir a oldsz :: u32 and s x :: kmem and pte
  assume "\<not> dealloc_next pte a \<le> a"
  then have "a < dealloc_next pte a" by simp
  then have "unat a < unat (dealloc_next pte a)" by (rule unat_mono)
  then show "((kend, pgdir, dealloc_next pte a, oldsz, x), kend, pgdir, a, oldsz, s)
      \<in> measure (\<lambda>(kend, pgdir, a, oldsz, s). 0x100000000 - unat a)"
    using unat_u32_lt [of "dealloc_next pte a"] by simp
qed simp

declare deallocuvm_loop.simps [simp del]

definition deallocuvm :: "u32 \<Rightarrow> u32 \<Rightarrow> u32 \<Rightarrow> u32 \<Rightarrow> kmem \<Rightarrow> (u32 \<times> kmem) result" where
  "deallocuvm kend pgdir oldsz newsz s =
     (if newsz \<ge> oldsz then Inr (oldsz, s)
      else andthen (deallocuvm_loop kend pgdir (PGROUNDUP newsz) oldsz s) (\<lambda>s. Inr (newsz, s)))"

fun freevm_loop :: "u32 \<Rightarrow> u32 \<Rightarrow> nat list \<Rightarrow> kmem \<Rightarrow> kmem result" where
  "freevm_loop kend pgdir [] s = Inr s"
| "freevm_loop kend pgdir (i # is) s =
     (let e = ld32 (km_mem s) (pgdir + 4 * of_nat i)
      in if e AND PTE_P \<noteq> 0
         then andthen (kfree kend (P2V (PTE_ADDR e)) s) (freevm_loop kend pgdir is)
         else freevm_loop kend pgdir is s)"

definition freevm :: "u32 \<Rightarrow> u32 \<Rightarrow> kmem \<Rightarrow> kmem result" where
  "freevm kend pgdir s =
     (if pgdir = 0 then Inl (Panic ''freevm: no pgdir'')
      else andthen (deallocuvm kend pgdir KERNBASE 0 s) (\<lambda>(_, s).
           andthen (freevm_loop kend pgdir [0..<NPDENTRIES] s) (kfree kend pgdir)))"

record kmap_entry =
  km_virt :: u32
  km_phys_start :: u32
  km_phys_end :: u32
  km_perm :: u32

definition kmap :: "u32 \<Rightarrow> kmap_entry list" where
  "kmap kdata =
     [\<lparr>km_virt = KERNBASE, km_phys_start = 0, km_phys_end = EXTMEM, km_perm = PTE_W\<rparr>,
      \<lparr>km_virt = KERNLINK, km_phys_start = V2P KERNLINK, km_phys_end = V2P kdata, km_perm = 0\<rparr>,
      \<lparr>km_virt = kdata, km_phys_start = V2P kdata, km_phys_end = PHYSTOP, km_perm = PTE_W\<rparr>,
      \<lparr>km_virt = DEVSPACE, km_phys_start = DEVSPACE, km_phys_end = 0, km_perm = PTE_W\<rparr>]"

fun setupkvm_loop :: "u32 \<Rightarrow> u32 \<Rightarrow> kmap_entry list \<Rightarrow> kmem \<Rightarrow> (u32 \<times> kmem) result" where
  "setupkvm_loop kend pgdir [] s = Inr (pgdir, s)"
| "setupkvm_loop kend pgdir (k # ks) s =
     andthen (mappages pgdir (km_virt k) (km_phys_end k - km_phys_start k) (km_phys_start k) (km_perm k) s) (\<lambda>(ok, s).
       if \<not> ok then andthen (freevm kend pgdir s) (\<lambda>s. Inr (0, s))
       else setupkvm_loop kend pgdir ks s)"

definition setupkvm :: "u32 \<Rightarrow> u32 \<Rightarrow> kmem \<Rightarrow> (u32 \<times> kmem) result" where
  "setupkvm kend kdata s =
     (case kalloc s of (pgdir, s) \<Rightarrow>
        if pgdir = 0 then Inr (0, s)
        else let s = set_mem (memset (km_mem s) pgdir 0 PGSIZE) s
             in if P2V PHYSTOP > DEVSPACE then Inl (Panic ''PHYSTOP too high'')
                else setupkvm_loop kend pgdir (kmap kdata) s)"

text \<open>\<open>inituvm\<close> uses the page without looking whether there is one.\<close>

definition inituvm :: "u32 \<Rightarrow> u8 list \<Rightarrow> kmem \<Rightarrow> kmem result" where
  "inituvm pgdir init s =
     (if length init \<ge> unat PGSIZE then Inl (Panic ''inituvm: more than a page'')
      else case kalloc s of (page, s) \<Rightarrow>
        if page = 0 then Inl (Undefined ''inituvm: null page'')
        else let s = set_mem (memset (km_mem s) page 0 PGSIZE) s
             in andthen (mappages pgdir 0 PGSIZE (V2P page) (PTE_W OR PTE_U) s) (\<lambda>(_, s).
                  Inr (set_mem (store_bytes (km_mem s) page init) s)))"

text \<open>The values of the counter of a loop from \<open>a\<close> below \<open>lim\<close> in steps of a page.\<close>

definition pages_below :: "u32 \<Rightarrow> u32 \<Rightarrow> u32 list" where
  "pages_below a lim = map (\<lambda>i. a + of_nat i * PGSIZE) [0..<(unat lim - unat a + 4095) div 4096]"

fun loaduvm_loop ::
    "u32 \<Rightarrow> u32 \<Rightarrow> 'd devsw \<Rightarrow> nat \<Rightarrow> u32 \<Rightarrow> u32 \<Rightarrow> u32 list \<Rightarrow> 'd fsys \<Rightarrow> kmem \<Rightarrow> (bool \<times> 'd fsys \<times> kmem) result" where
  "loaduvm_loop pgdir addr dv ip offset sz [] fs s = Inr (True, fs, s)"
| "loaduvm_loop pgdir addr dv ip offset sz (i # is) fs s =
     (let pte = fst (walkpgdir pgdir (addr + i) False s)
      in if pte = 0 then Inl (Panic ''loaduvm: address should exist'')
         else let pa = PTE_ADDR (ld32 (km_mem s) pte);
                  n = (if sz - i < PGSIZE then sz - i else PGSIZE)
              in andthen (readi dv ip (offset + i) n fs) (\<lambda>(r, fs).
                   case r of
                     None \<Rightarrow> Inr (False, fs, s)
                   | Some bs \<Rightarrow>
                       let s = set_mem (store_bytes (km_mem s) (P2V pa) bs) s
                       in if length bs \<noteq> unat n then Inr (False, fs, s)
                          else loaduvm_loop pgdir addr dv ip offset sz is fs s))"

definition loaduvm ::
    "u32 \<Rightarrow> u32 \<Rightarrow> 'd devsw \<Rightarrow> nat \<Rightarrow> u32 \<Rightarrow> u32 \<Rightarrow> 'd fsys \<Rightarrow> kmem \<Rightarrow> (bool \<times> 'd fsys \<times> kmem) result" where
  "loaduvm pgdir addr dv ip offset sz fs s =
     (if addr mod PGSIZE \<noteq> 0 then Inl (Panic ''loaduvm: addr must be page aligned'')
      else loaduvm_loop pgdir addr dv ip offset sz (pages_below 0 sz) fs s)"

fun allocuvm_loop :: "u32 \<Rightarrow> u32 \<Rightarrow> u32 \<Rightarrow> u32 \<Rightarrow> u32 list \<Rightarrow> kmem \<Rightarrow> (u32 \<times> kmem) result" where
  "allocuvm_loop kend pgdir oldsz newsz [] s = Inr (newsz, s)"
| "allocuvm_loop kend pgdir oldsz newsz (a # as) s =
     (case kalloc s of (page, s) \<Rightarrow>
        if page = 0 then andthen (deallocuvm kend pgdir newsz oldsz s) (\<lambda>(_, s). Inr (0, s))
        else andthen (mappages pgdir a PGSIZE (V2P page) (PTE_W OR PTE_U)
                       (set_mem (memset (km_mem s) page 0 PGSIZE) s)) (\<lambda>(ok, s).
          if \<not> ok
          then andthen (deallocuvm kend pgdir newsz oldsz s) (\<lambda>(_, s).
               andthen (kfree kend page s) (\<lambda>s. Inr (0, s)))
          else allocuvm_loop kend pgdir oldsz newsz as s))"

definition allocuvm :: "u32 \<Rightarrow> u32 \<Rightarrow> u32 \<Rightarrow> u32 \<Rightarrow> kmem \<Rightarrow> (u32 \<times> kmem) result" where
  "allocuvm kend pgdir oldsz newsz s =
     (if newsz \<ge> KERNBASE then Inr (0, s)
      else if newsz < oldsz then Inr (oldsz, s)
      else allocuvm_loop kend pgdir oldsz newsz (pages_below (PGROUNDUP oldsz) newsz) s)"

definition clearpteu :: "u32 \<Rightarrow> u32 \<Rightarrow> kmem \<Rightarrow> kmem result" where
  "clearpteu pgdir uva s =
     (let pte = fst (walkpgdir pgdir uva False s)
      in if pte = 0 then Inl (Panic ''clearpteu'')
         else Inr (set_mem (st32 (km_mem s) pte (ld32 (km_mem s) pte AND NOT PTE_U)) s))"

fun copyuvm_loop :: "u32 \<Rightarrow> u32 \<Rightarrow> u32 \<Rightarrow> u32 list \<Rightarrow> kmem \<Rightarrow> (u32 \<times> kmem) result" where
  "copyuvm_loop kend pgdir d [] s = Inr (d, s)"
| "copyuvm_loop kend pgdir d (i # is) s =
     (let pte = fst (walkpgdir pgdir i False s); e = ld32 (km_mem s) pte
      in if pte = 0 then Inl (Panic ''copyuvm: pte should exist'')
         else if e AND PTE_P = 0 then Inl (Panic ''copyuvm: page not present'')
         else case kalloc s of (page, s) \<Rightarrow>
           if page = 0 then andthen (freevm kend d s) (\<lambda>s. Inr (0, s))
           else andthen (mappages d i PGSIZE (V2P page) (PTE_FLAGS e)
                          (set_mem (memmove (km_mem s) page (P2V (PTE_ADDR e)) PGSIZE) s)) (\<lambda>(ok, s).
             if \<not> ok
             then andthen (kfree kend page s) (\<lambda>s. andthen (freevm kend d s) (\<lambda>s. Inr (0, s)))
             else copyuvm_loop kend pgdir d is s))"

definition copyuvm :: "u32 \<Rightarrow> u32 \<Rightarrow> u32 \<Rightarrow> u32 \<Rightarrow> kmem \<Rightarrow> (u32 \<times> kmem) result" where
  "copyuvm kend kdata pgdir sz s =
     andthen (setupkvm kend kdata s) (\<lambda>(d, s).
       if d = 0 then Inr (0, s) else copyuvm_loop kend pgdir d (pages_below 0 sz) s)"

text \<open>\<open>uva2ka\<close> reads through the result of \<open>walkpgdir\<close> without looking whether it is null.\<close>

definition uva2ka :: "u32 \<Rightarrow> u32 \<Rightarrow> kmem \<Rightarrow> u32 result" where
  "uva2ka pgdir uva s =
     (let pte = fst (walkpgdir pgdir uva False s); e = ld32 (km_mem s) pte
      in if pte = 0 then Inl (Undefined ''uva2ka: null pte'')
         else if e AND PTE_P = 0 then Inr 0
         else if e AND PTE_U = 0 then Inr 0
         else Inr (P2V (PTE_ADDR e)))"

lemma page_offset: "va - PGROUNDDOWN va = va AND 0xFFF"
proof -
  have "(va AND NOT 0xFFF) + (va AND 0xFFF) = (va AND NOT 0xFFF) OR (va AND 0xFFF)"
    by (rule disjunctive_add) (auto simp: bit_simps)
  moreover have "(va AND NOT 0xFFF) OR (va AND 0xFFF) = va"
    by (metis and.right_neutral bit.conj_disj_distrib bit.disj_cancel_left)
  ultimately have "va = (va AND NOT 0xFFF) + (va AND 0xFFF)" by simp
  then show ?thesis by (simp add: PGROUNDDOWN_def PGSIZE_def algebra_simps)
qed

lemma page_offset_less: "unat (va - PGROUNDDOWN va) < 4096"
proof -
  have "va AND 0xFFF \<le> 0xFFF" by (rule word_and_le1)
  then show ?thesis unfolding page_offset by (simp add: word_le_nat_alt)
qed

text \<open>The number of bytes in one round of \<open>copyout\<close>.\<close>

definition copyout_n :: "u32 \<Rightarrow> u8 list \<Rightarrow> nat" where
  "copyout_n va buf = min (unat (PGSIZE - (va - PGROUNDDOWN va))) (length buf)"

lemma copyout_n_pos: "buf \<noteq> [] \<Longrightarrow> 0 < copyout_n va buf"
proof -
  have "unat (PGSIZE - (va - PGROUNDDOWN va)) = 4096 - unat (va - PGROUNDDOWN va)"
    using page_offset_less [of va] by (subst unat_sub) (simp_all add: word_le_nat_alt PGSIZE_def)
  then show "buf \<noteq> [] \<Longrightarrow> 0 < copyout_n va buf" using page_offset_less [of va] by (simp add: copyout_n_def)
qed

function copyout :: "u32 \<Rightarrow> u32 \<Rightarrow> u8 list \<Rightarrow> kmem \<Rightarrow> (bool \<times> kmem) result" where
  "copyout pgdir va buf s =
     (if buf = [] then Inr (True, s)
      else let va0 = PGROUNDDOWN va
           in andthen (uva2ka pgdir va0 s) (\<lambda>pa0.
                if pa0 = 0 then Inr (False, s)
                else let n = copyout_n va buf
                     in copyout pgdir (va0 + PGSIZE) (drop n buf)
                          (set_mem (store_bytes (km_mem s) (pa0 + (va - va0)) (take n buf)) s)))"
  by pat_completeness auto
termination
  by (relation "measure (\<lambda>(pgdir, va, buf, s). length buf)") (auto simp: copyout_n_pos)

declare copyout.simps [simp del]

end
