(* ===== verification/Xv6_Vspace.thy ===== *)
theory Xv6_Vspace
  imports Xv6_Vm
begin

text \<open>
  What the page tables of \<open>Xv6_Vm\<close> mean. \<open>pgdir_at\<close> reads a page directory in memory as a
  partial map \<open>T\<close> from directory entries to page-table pages and a map \<open>V\<close> from page numbers to
  page-table entries. The routines of \<open>vm.c\<close> are shown to change \<open>V\<close> exactly as intended, with all
  pages taken from the free list.
\<close>

unbundle bit_operations_syntax

section \<open>Entries\<close>

lemma and_FFF: "(x :: u32) AND 0xFFF = x mod 4096"
proof -
  have "x AND mask 12 = x mod 2 ^ 12" by (simp only: take_bit_eq_mask [symmetric] take_bit_eq_mod)
  then show ?thesis by (simp add: mask_eq_exp_minus_1)
qed

lemma and_not_FFF: "(x :: u32) AND NOT 0xFFF = x - x mod 4096"
  using page_offset [of x] by (simp add: PGROUNDDOWN_def PGSIZE_def and_FFF algebra_simps)

lemma unat_PDX: "unat (PDX va) = unat va div 4194304"
proof -
  have "PDX va = drop_bit 22 va AND mask 10" by (simp add: PDX_def mask_eq_exp_minus_1)
  also have "\<dots> = drop_bit 22 va"
    by (rule bit_word_eqI) (auto simp: bit_simps dest: bit_imp_le_length)
  finally show ?thesis by (simp add: drop_bit_eq_div unat_div)
qed

lemma unat_PTX: "unat (PTX va) = unat va div 4096 mod 1024"
proof -
  have "PTX va = drop_bit 12 va AND mask 10" by (simp add: PTX_def mask_eq_exp_minus_1)
  also have "\<dots> = drop_bit 12 va mod 1024"
    by (simp add: take_bit_eq_mask [symmetric] take_bit_eq_mod)
  finally show ?thesis by (simp add: drop_bit_eq_div unat_div unat_mod)
qed

lemma aligned_bits: "(x :: u32) mod 4096 = 0 \<Longrightarrow> bit x n \<Longrightarrow> 12 \<le> n"
proof (rule ccontr)
  assume "x mod 4096 = 0" "bit x n" "\<not> 12 \<le> n"
  then have "bit (x AND mask 12) n" by (simp add: bit_simps)
  moreover have "x AND mask 12 = 0" using \<open>x mod 4096 = 0\<close> and_FFF [of x] by (simp add: mask_eq_exp_minus_1)
  ultimately show False by simp
qed

lemma small_bits: "(x :: u32) < 4096 \<Longrightarrow> bit x n \<Longrightarrow> n < 12"
proof -
  assume "x < 4096" "bit x n"
  then have "x mod 4096 = x" by (simp add: mod_word_less)
  then have "x AND mask 12 = x" using and_FFF [of x] by (simp add: mask_eq_exp_minus_1)
  then have "bit (x AND mask 12) n" using \<open>bit x n\<close> by simp
  then show "n < 12" by (simp add: bit_simps)
qed

lemma PTE_ADDR_or: "pa mod 4096 = 0 \<Longrightarrow> f < 4096 \<Longrightarrow> PTE_ADDR (pa OR f) = pa"
proof -
  assume h: "pa mod 4096 = 0" "f < 4096"
  have "PTE_ADDR (pa OR f) = (pa OR f) AND NOT (mask 12)" by (simp add: PTE_ADDR_def mask_eq_exp_minus_1)
  also have "\<dots> = pa"
    by (rule bit_word_eqI) (use aligned_bits [OF h(1)] small_bits [OF h(2)] in \<open>fastforce simp: bit_simps\<close>)
  finally show ?thesis .
qed

lemma PTE_FLAGS_or: "pa mod 4096 = 0 \<Longrightarrow> f < 4096 \<Longrightarrow> PTE_FLAGS (pa OR f) = f"
proof -
  assume h: "pa mod 4096 = 0" "f < 4096"
  have "PTE_FLAGS (pa OR f) = (pa OR f) AND mask 12" by (simp add: PTE_FLAGS_def mask_eq_exp_minus_1)
  also have "\<dots> = f"
    by (rule bit_word_eqI) (use aligned_bits [OF h(1)] small_bits [OF h(2)] in \<open>fastforce simp: bit_simps\<close>)
  finally show ?thesis .
qed

definition present :: "u32 \<Rightarrow> bool" where "present e \<longleftrightarrow> e AND PTE_P \<noteq> 0"

lemma present_bit: "present e \<longleftrightarrow> bit e 0"
  by (simp add: present_def PTE_P_def and_one_eq odd_iff_mod_2_eq_one bit_0)

lemma present_or [simp]: "present (e OR PTE_P)" "present (PTE_P OR e)" "\<not> present 0"
  by (simp_all add: present_bit PTE_P_def bit_simps)

lemma small_or: "(f :: u32) < 4096 \<Longrightarrow> g < 4096 \<Longrightarrow> f OR g < 4096"
proof -
  assume h: "f < 4096" "g < 4096"
  have "take_bit 12 (f OR g) = f OR g"
    by (rule bit_word_eqI) (use small_bits [OF h(1)] small_bits [OF h(2)] in \<open>auto simp: bit_simps\<close>)
  then have "f OR g = (f OR g) mod 4096" by (simp add: take_bit_eq_mod)
  moreover have "(f OR g) mod 4096 < 4096" by (rule word_mod_less_divisor) simp
  ultimately show ?thesis by metis
qed

lemma aligned_dvd: "(x :: u32) mod 4096 = 0 \<longleftrightarrow> 4096 dvd unat x"
proof -
  have "unat (x mod 4096) = unat x mod 4096" by (simp add: unat_mod)
  then show ?thesis by (metis dvd_eq_mod_eq_0 unat_eq_zero)
qed

lemma aligned_add: "(x :: u32) mod 4096 = 0 \<Longrightarrow> y mod 4096 = 0 \<Longrightarrow> (x + y) mod 4096 = 0"
  unfolding aligned_dvd unat_word_ariths by (intro dvd_mod dvd_add) simp_all

lemma page_ok_aligned: "page_ok kend p \<Longrightarrow> p mod 4096 = 0"
  by (simp add: page_ok_def PGSIZE_def)

lemma V2P_aligned: "page_ok kend p \<Longrightarrow> V2P p mod 4096 = 0"
proof -
  assume "page_ok kend p"
  then have "(p + 0x80000000) mod 4096 = 0" by (intro aligned_add) (simp_all add: page_ok_aligned)
  moreover have "p - 0x80000000 = p + 0x80000000" by (simp add: diff_eq_eq add.assoc)
  ultimately show ?thesis by (simp only: V2P_def KERNBASE_def)
qed

lemma P2V_V2P [simp]: "P2V (V2P p) = p" "V2P (P2V p) = p"
  by (simp_all add: P2V_def V2P_def)

text \<open>The page an entry refers to, as the kernel addresses it.\<close>

definition epage :: "u32 \<Rightarrow> u32" where "epage e = P2V (PTE_ADDR e)"

lemma epage_entry: "page_ok kend p \<Longrightarrow> f < 4096 \<Longrightarrow> epage (V2P p OR f) = p"
  by (simp add: epage_def PTE_ADDR_or V2P_aligned)

section \<open>Page directories in memory\<close>

definition agree :: "mem \<Rightarrow> mem \<Rightarrow> u32 set \<Rightarrow> bool" where
  "agree m m' P \<longleftrightarrow> (\<forall>p\<in>P. \<forall>a. in_page p a \<longrightarrow> m' a = m a)"

definition entry :: "mem \<Rightarrow> u32 \<Rightarrow> nat \<Rightarrow> u32" where
  "entry m p i = ld32 m (p + of_nat (4 * i))"

lemma entry_agree: "agree m m' P \<Longrightarrow> p \<in> P \<Longrightarrow> i < 1024 \<Longrightarrow> entry m' p i = entry m p i"
proof -
  assume h: "agree m m' P" "p \<in> P" "i < 1024"
  show ?thesis
    unfolding entry_def
  proof (rule ld32_cong)
    fix k :: nat
    assume "k < 4"
    then have "in_page p (p + of_nat (4 * i + k))" using h(3) by (intro in_page_word) simp
    then show "m' (p + of_nat (4 * i) + of_nat k) = m (p + of_nat (4 * i) + of_nat k)"
      using h(1,2) by (simp add: agree_def add.assoc)
  qed
qed

lemma entry_st32:
  assumes "i < 1024" "j < 1024"
  shows "entry (st32 m (p + of_nat (4 * i)) w) p j = (if j = i then w else entry m p j)"
proof (cases "j = i")
  case False
  have d: "unat (p + of_nat (4 * x) - (p + of_nat (4 * y)) :: u32) \<ge> 4" if "x \<noteq> y" "x < 1024" "y < 1024" for x y
  proof (cases "y < x")
    case True
    then have e: "p + of_nat (4 * x) - (p + of_nat (4 * y)) = (of_nat (4 * (x - y)) :: u32)"
      by (simp add: of_nat_diff algebra_simps)
    show ?thesis unfolding e using True that by (subst unat_of_nat_u32) auto
  next
    case False
    then have e: "p + of_nat (4 * x) - (p + of_nat (4 * y)) = - (of_nat (4 * (y - x)) :: u32)"
      using that by (simp add: of_nat_diff algebra_simps)
    have "unat (of_nat (4 * (y - x)) :: u32) = 4 * (y - x)" using that by (intro unat_of_nat_u32) simp
    moreover have "0 < 4 * (y - x)" "4 * (y - x) \<le> 4096" using that False by auto
    ultimately show ?thesis unfolding e using unat_sub_swap_u32 [of 0 "of_nat (4 * (y - x)) :: u32"] by (cases "(of_nat (4 * (y - x)) :: u32) = 0") auto
  qed
  show ?thesis
    using False d [of j i] d [of i j] assms by (simp add: entry_def ld32_st32_other)
qed (simp add: entry_def)

lemma st32_other_page:
  assumes "i < 1024" "\<not> in_page p a"
  shows "st32 m (p + of_nat (4 * i)) w a = m a"
proof -
  have "\<not> unat (a - (p + of_nat (4 * i))) < 4"
  proof
    assume h: "unat (a - (p + of_nat (4 * i))) < 4"
    define k where "k = unat (a - (p + of_nat (4 * i)))"
    have "a = p + of_nat (4 * i) + of_nat k" by (simp add: k_def)
    then have "a = p + of_nat (4 * i + k)" by simp
    moreover have "4 * i + k < 4096" using h assms(1) k_def by simp
    ultimately show False using assms(2) in_page_word by metis
  qed
  then show ?thesis by (simp add: st32_apply)
qed

definition pgdir_at :: "u32 \<Rightarrow> mem \<Rightarrow> u32 \<Rightarrow> (nat \<rightharpoonup> u32) \<Rightarrow> (nat \<Rightarrow> u32) \<Rightarrow> bool" where
  "pgdir_at kend m pd T V \<longleftrightarrow>
     page_ok kend pd \<and> dom T \<subseteq> {..<1024} \<and> pd \<notin> ran T \<and> inj_on T (dom T) \<and> (\<forall>p\<in>ran T. page_ok kend p) \<and>
     (\<forall>i<1024. T i = (if present (entry m pd i) then Some (epage (entry m pd i)) else None)) \<and>
     (\<forall>i<1024. \<forall>j<1024. V (1024 * i + j) = (case T i of None \<Rightarrow> 0 | Some p \<Rightarrow> entry m p j))"

lemma pgdir_atD:
  assumes "pgdir_at kend m pd T V"
  shows "i < 1024 \<Longrightarrow> T i = (if present (entry m pd i) then Some (epage (entry m pd i)) else None)"
    and "k < 1048576 \<Longrightarrow> V k = (case T (k div 1024) of None \<Rightarrow> 0 | Some p \<Rightarrow> entry m p (k mod 1024))"
    and "T i = Some p \<Longrightarrow> i < 1024 \<and> page_ok kend p \<and> p \<noteq> pd"
    and "T i = Some p \<Longrightarrow> T j = Some p \<Longrightarrow> i = j" "page_ok kend pd"
proof -
  note d = assms [unfolded pgdir_at_def]
  show "i < 1024 \<Longrightarrow> T i = (if present (entry m pd i) then Some (epage (entry m pd i)) else None)"
    using d by blast
  show "T i = Some p \<Longrightarrow> i < 1024 \<and> page_ok kend p \<and> p \<noteq> pd" using d by (auto intro: ranI)
  show "T i = Some p \<Longrightarrow> T j = Some p \<Longrightarrow> i = j" using d inj_onD [of T "dom T" i j] by (simp add: domI)
  show "page_ok kend pd" using d by blast
  assume k: "k < 1048576"
  then have "k div 1024 < 1024" by (simp add: div_less_iff_less_mult)
  then have "V (1024 * (k div 1024) + k mod 1024) = (case T (k div 1024) of None \<Rightarrow> 0 | Some p \<Rightarrow> entry m p (k mod 1024))"
    using d by (meson mod_less_divisor zero_less_numeral)
  then show "V k = (case T (k div 1024) of None \<Rightarrow> 0 | Some p \<Rightarrow> entry m p (k mod 1024))" by simp
qed

lemma pgdir_at_agree:
  assumes "pgdir_at kend m pd T V" "agree m m' (insert pd (ran T))"
  shows "pgdir_at kend m' pd T V"
proof -
  have "entry m' pd i = entry m pd i" if "i < 1024" for i
    using entry_agree [OF assms(2)] that by simp
  moreover have "entry m' p j = entry m p j" if "j < 1024" "T i = Some p" for i j p
    using entry_agree [OF assms(2), of p j] that by (auto intro: ranI)
  ultimately show ?thesis using assms(1) by (auto simp: pgdir_at_def split: option.splits)
qed

definition aspace :: "u32 \<Rightarrow> kmem \<Rightarrow> u32 list \<Rightarrow> u32 \<Rightarrow> (nat \<rightharpoonup> u32) \<Rightarrow> (nat \<Rightarrow> u32) \<Rightarrow> bool" where
  "aspace kend s fps pd T V \<longleftrightarrow>
     kmem_inv kend s fps \<and> pgdir_at kend (km_mem s) pd T V \<and> insert pd (ran T) \<inter> set fps = {}"

section \<open>walkpgdir\<close>

definition pno :: "u32 \<Rightarrow> nat" where "pno va = unat va div 4096"

lemma pno_bound: "pno va < 1048576" "pno va div 1024 < 1024"
  using unat_u32_lt [of va] by (simp_all add: pno_def div_less_iff_less_mult)

lemma dir_index: "pd + 4 * PDX va = pd + of_nat (4 * (pno va div 1024))"
proof -
  have "PDX va = of_nat (pno va div 1024)"
    using unat_PDX [of va] div_mult2_eq [of "unat va" 4096 1024] of_nat_unat_u32 [of "PDX va"] by (simp add: pno_def)
  then show ?thesis by simp
qed

lemma tab_index: "p + 4 * PTX va = p + of_nat (4 * (pno va mod 1024))"
proof -
  have "PTX va = of_nat (pno va mod 1024)" by (metis of_nat_unat_u32 pno_def unat_PTX)
  then show ?thesis by simp
qed

lemma walk_present:
  assumes "pgdir_at kend (km_mem s) pd T V" "T (pno va div 1024) = Some p"
  shows "walkpgdir pd va alloc s = (p + of_nat (4 * (pno va mod 1024)), s)"
    and "ld32 (km_mem s) (p + of_nat (4 * (pno va mod 1024))) = V (pno va)"
proof -
  have "present (entry (km_mem s) pd (pno va div 1024))" "epage (entry (km_mem s) pd (pno va div 1024)) = p"
    using pgdir_atD(1) [OF assms(1) pno_bound(2) [of va]] assms(2) by (auto split: if_splits)
  then show "walkpgdir pd va alloc s = (p + of_nat (4 * (pno va mod 1024)), s)"
    by (simp add: walkpgdir_def dir_index tab_index entry_def present_def epage_def Let_def)
  show "ld32 (km_mem s) (p + of_nat (4 * (pno va mod 1024))) = V (pno va)"
    using pgdir_atD(2) [OF assms(1) pno_bound(1) [of va]] assms(2) by (simp add: entry_def)
qed

lemma walk_absent:
  assumes "pgdir_at kend (km_mem s) pd T V" "T (pno va div 1024) = None"
  shows "walkpgdir pd va False s = (0, s)" "V (pno va) = 0"
proof -
  have "\<not> present (entry (km_mem s) pd (pno va div 1024))"
    using pgdir_atD(1) [OF assms(1) pno_bound(2) [of va]] assms(2) by (auto split: if_splits)
  then show "walkpgdir pd va False s = (0, s)"
    by (simp add: walkpgdir_def dir_index entry_def present_def Let_def)
  show "V (pno va) = 0"
    using pgdir_atD(2) [OF assms(1) pno_bound(1) [of va]] assms(2) by simp
qed

lemma walk_fail:
  assumes "aspace kend s [] pd T V" "T (pno va div 1024) = None"
  shows "walkpgdir pd va True s = (0, s)"
proof -
  have at: "pgdir_at kend (km_mem s) pd T V" using assms(1) by (simp add: aspace_def)
  have "\<not> present (entry (km_mem s) pd (pno va div 1024))"
    using pgdir_atD(1) [OF at pno_bound(2) [of va]] assms(2) by (auto split: if_splits)
  moreover have "kalloc s = (0, s)" using assms(1) by (intro kalloc_empty [of kend]) (simp add: aspace_def)
  ultimately show ?thesis by (simp add: walkpgdir_def dir_index entry_def present_def Let_def)
qed

section \<open>Changing entries\<close>

lemma in_page_apart:
  "page_ok kend p \<Longrightarrow> page_ok kend q \<Longrightarrow> p \<noteq> q \<Longrightarrow> in_page q a \<Longrightarrow> \<not> in_page p a"
  using in_page_unique [of p q a] by (auto simp: page_ok_def)

lemma in_page_nz: "page_ok kend p \<Longrightarrow> in_page p a \<Longrightarrow> a \<noteq> 0"
proof
  assume h: "page_ok kend p" "in_page p a" "a = 0"
  then have "unat p div 4096 = 0" by (metis div_0 in_page_iff page_aligned page_ok_def unat_0)
  then have "unat p < 4096" by (simp add: div_eq_0_iff)
  moreover have "unat (V2P p) < 0xE000000" using h(1) by (simp add: page_ok_def word_less_nat_alt PHYSTOP_def)
  then have "unat (V2P p + 0x80000000) = unat (V2P p) + 0x80000000" by (subst unat_add_u32) simp_all
  then have "unat p \<ge> 0x80000000" by (simp add: V2P_def KERNBASE_def)
  ultimately show False by simp
qed

lemma entry_page: "j < 1024 \<Longrightarrow> in_page p (p + of_nat (4 * j))"
  by (rule in_page_word) simp

lemma entry_addr_nz: "page_ok kend p \<Longrightarrow> j < 1024 \<Longrightarrow> p + of_nat (4 * j) \<noteq> 0"
  using in_page_nz entry_page by blast

lemma entry_cong: "(\<And>a. in_page p a \<Longrightarrow> m' a = m a) \<Longrightarrow> j < 1024 \<Longrightarrow> entry m' p j = entry m p j"
  by (rule entry_agree [of _ _ "{p}"]) (auto simp: agree_def)

lemma entry_fill: "j < 1024 \<Longrightarrow> entry (memset m p 0 PGSIZE) p j = 0"
proof -
  assume j: "j < 1024"
  have e: "memset m p 0 PGSIZE = fill m p 0 4096" by (simp add: memset_fill PGSIZE_def)
  show ?thesis
    unfolding e entry_def by (rule ld32_fill_zero) (use j in \<open>subst unat_offset, simp_all\<close>)
qed

lemma memset_page: "memset m p c PGSIZE a = (if in_page p a then ucast c else m a)"
  by (simp add: memset_fill fill_def in_page_def PGSIZE_def)

definition frame :: "u32 set \<Rightarrow> mem \<Rightarrow> mem \<Rightarrow> bool" where
  "frame P m m' \<longleftrightarrow> (\<forall>a. (\<forall>p\<in>P. \<not> in_page p a) \<longrightarrow> m' a = m a)"

lemma frame_refl [simp]: "frame P m m"
  by (simp add: frame_def)

lemma frame_trans: "frame P m m' \<Longrightarrow> frame Q m' m'' \<Longrightarrow> P \<subseteq> R \<Longrightarrow> Q \<subseteq> R \<Longrightarrow> frame R m m''"
  unfolding frame_def by (metis subsetD)

lemma frame_mono: "frame P m m' \<Longrightarrow> P \<subseteq> Q \<Longrightarrow> frame Q m m'"
  unfolding frame_def by blast

lemma frame_agree:
  "frame P m m' \<Longrightarrow> (\<And>p. p \<in> P \<union> Q \<Longrightarrow> page_ok kend p) \<Longrightarrow> P \<inter> Q = {} \<Longrightarrow> agree m m' Q"
  unfolding frame_def agree_def by (metis Un_iff disjoint_iff in_page_apart)

lemma kmem_inv_frameP:
  assumes "kmem_inv kend s fps" "frame P (km_mem s) m" "\<And>p. p \<in> P \<Longrightarrow> page_ok kend p" "P \<inter> set fps = {}"
  shows "kmem_inv kend (set_mem m s) fps"
proof (rule kmem_inv_frame [OF assms(1)])
  fix p a
  assume h: "p \<in> set fps" "in_page p a"
  have "page_ok kend p" using assms(1) h(1) by (simp add: kmem_inv_def)
  then have "\<forall>q\<in>P. \<not> in_page q a" using assms(3,4) h in_page_apart by blast
  then show "m a = km_mem s a" using assms(2) by (simp add: frame_def)
qed

lemma aspaceD:
  assumes "aspace kend s fps pd T V"
  shows "kmem_inv kend s fps" "pgdir_at kend (km_mem s) pd T V" "pd \<notin> set fps"
    "T i = Some p \<Longrightarrow> p \<notin> set fps" "\<And>p. p \<in> insert pd (ran T) \<Longrightarrow> page_ok kend p"
    "\<And>p. p \<in> set fps \<Longrightarrow> page_ok kend p" "distinct fps"
  using assms by (auto simp: aspace_def pgdir_at_def kmem_inv_def intro: ranI)

lemma walk_alloc:
  assumes sp: "aspace kend s (p # ps) pd T V" and T: "T (pno va div 1024) = None"
  shows "\<exists>s'. walkpgdir pd va True s = (p + of_nat (4 * (pno va mod 1024)), s') \<and>
    aspace kend s' ps pd (T(pno va div 1024 \<mapsto> p)) V \<and> frame {pd, p} (km_mem s) (km_mem s')"
proof -
  let ?i = "pno va div 1024" and ?m = "km_mem s"
  let ?E = "V2P p OR PTE_P OR PTE_W OR PTE_U"
  note d = aspaceD [OF sp] and i = pno_bound(2) [of va]
  obtain s1 where s1: "kalloc s = (p, s1)" "kmem_inv kend s1 ps" "km_mem s1 = ?m"
    using kalloc_ok [OF d(1)] by auto
  have pk: "page_ok kend p" "page_ok kend pd" using d by auto
  have pne: "p \<noteq> pd" "p \<notin> ran T" "p \<notin> set ps" using d sp by (auto simp: aspace_def)
  have "\<not> present (entry ?m pd ?i)" using pgdir_atD(1) [OF d(2) i] T by (auto split: if_splits)
  moreover have "p \<noteq> 0" using pk(1) by auto
  define m' where "m' = st32 (memset ?m p 0 PGSIZE) (pd + of_nat (4 * ?i)) ?E"
  ultimately have w: "walkpgdir pd va True s = (p + of_nat (4 * (pno va mod 1024)), set_mem m' s1)"
    using s1 \<open>p \<noteq> 0\<close> by (simp add: walkpgdir_def dir_index tab_index entry_def present_def Let_def m'_def)
  have fr: "frame {pd, p} ?m m'"
    unfolding frame_def m'_def using st32_other_page [OF i, of pd] by (simp add: memset_page del: of_nat_mult)
  have epd: "entry m' pd j = (if j = ?i then ?E else entry ?m pd j)" if "j < 1024" for j
  proof -
    have "entry m' pd j = (if j = ?i then ?E else entry (memset ?m p 0 PGSIZE) pd j)"
      unfolding m'_def by (rule entry_st32 [OF i that])
    moreover have "entry (memset ?m p 0 PGSIZE) pd j = entry ?m pd j"
      by (rule entry_cong [OF _ that]) (use in_page_apart [OF pk pne(1)] in \<open>simp add: memset_page\<close>)
    ultimately show ?thesis by simp
  qed
  have ep: "entry m' p j = 0" if "j < 1024" for j
  proof -
    have "entry m' p j = entry (memset ?m p 0 PGSIZE) p j"
      unfolding m'_def using in_page_apart [OF pk(2,1)] pne(1) i that
      by (intro entry_cong st32_other_page) auto
    then show ?thesis using entry_fill [OF that] by simp
  qed
  have eo: "entry m' q j = entry ?m q j" if "j < 1024" "q \<in> ran T" for q j
  proof -
    have "agree ?m m' (ran T)"
      by (rule frame_agree [OF fr]) (use d(2,5) pk pne in \<open>auto simp: pgdir_at_def\<close>)
    then show ?thesis using entry_agree that by blast
  qed
  have "V2P p OR PTE_P OR PTE_W OR PTE_U = V2P p OR 7"
    by (rule bit_word_eqI) (auto simp: bit_simps PTE_P_def PTE_W_def PTE_U_def)
  then have E: "epage ?E = p" "present ?E" using epage_entry [OF pk(1), of 7] by (simp_all add: present_bit bit_simps)
  have at: "pgdir_at kend m' pd (T(?i \<mapsto> p)) V"
    unfolding pgdir_at_def
  proof (intro conjI allI impI)
    show "page_ok kend pd" "dom (T(?i \<mapsto> p)) \<subseteq> {..<1024}" "pd \<notin> ran (T(?i \<mapsto> p))" "\<forall>q\<in>ran (T(?i \<mapsto> p)). page_ok kend q"
      using d(2) T i pk pne by (auto simp: pgdir_at_def ran_map_upd)
    show "inj_on (T(?i \<mapsto> p)) (dom (T(?i \<mapsto> p)))"
      using d(2) pne(2) T by (auto simp: pgdir_at_def inj_on_def ran_def dom_def)
    fix j :: nat
    assume j: "j < 1024"
    show "(T(?i \<mapsto> p)) j = (if present (entry m' pd j) then Some (epage (entry m' pd j)) else None)"
      using epd [OF j] E pgdir_atD(1) [OF d(2) j] by auto
    fix k :: nat
    assume k: "k < 1024"
    have V: "V (1024 * j + k) = (case T j of None \<Rightarrow> 0 | Some q \<Rightarrow> entry ?m q k)"
      using d(2) j k unfolding pgdir_at_def by blast
    show "V (1024 * j + k) = (case (T(?i \<mapsto> p)) j of None \<Rightarrow> 0 | Some q \<Rightarrow> entry m' q k)"
    proof (cases "T j")
      case None
      then show ?thesis using V ep [OF k] by simp
    next
      case (Some q)
      moreover have "q \<in> ran T" using Some by (rule ranI)
      ultimately show ?thesis using V T eo [OF k, of q] by auto
    qed
  qed
  have "kmem_inv kend (set_mem m' s1) ps"
    by (rule kmem_inv_frameP [OF s1(2)]) (use fr s1 pk d(3) pne in auto)
  moreover have "insert pd (ran (T(?i \<mapsto> p))) \<inter> set ps = {}"
    using sp pne T by (auto simp: aspace_def ran_map_upd)
  ultimately show ?thesis using w at fr by (intro exI [of _ "set_mem m' s1"]) (simp add: aspace_def)
qed

lemma set_pte:
  assumes sp: "aspace kend s fps pd T V" and T: "T (k div 1024) = Some p"
    and m'_def: "m' = st32 (km_mem s) (p + of_nat (4 * (k mod 1024))) e"
  shows "aspace kend (set_mem m' s) fps pd T (V(k := e))" "frame {p} (km_mem s) m'"
proof -
  let ?m = "km_mem s" and ?j = "k mod 1024"
  note d = aspaceD [OF sp]
  have pk: "page_ok kend p" "page_ok kend pd" "p \<noteq> pd" using pgdir_atD(3) [OF d(2) T] d(5) by auto
  have j: "?j < 1024" by simp
  show fr: "frame {p} ?m m'" using st32_other_page [OF j] by (auto simp: frame_def m'_def)
  have ag: "agree ?m m' (insert pd (ran T - {p}))"
    by (rule frame_agree [OF fr]) (use d(5) pk in auto)
  have at: "pgdir_at kend m' pd T (V(k := e))"
    unfolding pgdir_at_def
  proof (intro conjI allI impI)
    show "page_ok kend pd" "dom T \<subseteq> {..<1024}" "pd \<notin> ran T" "inj_on T (dom T)" "\<forall>q\<in>ran T. page_ok kend q"
      using d(2) by (simp_all add: pgdir_at_def)
    fix i :: nat
    assume i: "i < 1024"
    show "T i = (if present (entry m' pd i) then Some (epage (entry m' pd i)) else None)"
      using pgdir_atD(1) [OF d(2) i] entry_agree [OF ag _ i, of pd] by simp
    fix n :: nat
    assume n: "n < 1024"
    have V: "V (1024 * i + n) = (case T i of None \<Rightarrow> 0 | Some p \<Rightarrow> entry ?m p n)"
      using d(2) i n by (simp add: pgdir_at_def)
    show "(V(k := e)) (1024 * i + n) = (case T i of None \<Rightarrow> 0 | Some q \<Rightarrow> entry m' q n)"
    proof (cases "i = k div 1024")
      case True
      then have "1024 * i + n = k \<longleftrightarrow> n = ?j" by (metis add_left_cancel mult_div_mod_eq)
      then show ?thesis using V T True entry_st32 [OF j n, of ?m p e] by (simp add: m'_def)
    next
      case False
      then have "1024 * i + n \<noteq> k" using n by auto
      moreover have "entry m' q n = entry ?m q n" if "T i = Some q" for q
        using that False pgdir_atD(4) [OF d(2) T, of i] entry_agree [OF ag _ n, of q] by (auto intro: ranI)
      ultimately show ?thesis using V by (simp split: option.splits)
    qed
  qed
  have "kmem_inv kend (set_mem m' s) fps"
    by (rule kmem_inv_frameP [OF d(1) fr]) (use pk d(4) [OF T] in auto)
  then show "aspace kend (set_mem m' s) fps pd T (V(k := e))"
    using at sp by (simp add: aspace_def)
qed

section \<open>mappages\<close>

text \<open>The directory entries for \<open>n\<close> pages from page \<open>k\<close> on.\<close>

definition dirs :: "nat \<Rightarrow> nat \<Rightarrow> nat set" where
  "dirs k n = (\<lambda>i. i div 1024) ` {k..<k + n}"

lemma finite_dirs [simp]: "finite (dirs k n)"
  by (simp add: dirs_def)

lemma dirs_Suc: "dirs k (Suc n) = insert (k div 1024) (dirs (Suc k) n)"
proof -
  have "{k..<k + Suc n} = insert k {Suc k..<Suc k + n}" by auto
  then show ?thesis by (simp add: dirs_def)
qed

definition mapped :: "nat \<Rightarrow> nat \<Rightarrow> u32 \<Rightarrow> u32 \<Rightarrow> (nat \<Rightarrow> u32) \<Rightarrow> nat \<Rightarrow> u32" where
  "mapped k n pa perm V = (\<lambda>i. if k \<le> i \<and> i < k + n then pa + of_nat (4096 * (i - k)) OR perm OR PTE_P else V i)"

lemma mapped_0 [simp]: "mapped k 0 pa perm V = V"
  by (auto simp: mapped_def fun_eq_iff)

lemma mapped_Suc:
  "mapped (Suc k) n (pa + PGSIZE) perm (V(k := pa OR perm OR PTE_P)) = mapped k (Suc n) pa perm V"
proof
  fix i
  show "mapped (Suc k) n (pa + PGSIZE) perm (V(k := pa OR perm OR PTE_P)) i = mapped k (Suc n) pa perm V i"
  proof (cases "Suc k \<le> i \<and> i < Suc k + n")
    case True
    then have e: "i - k = Suc (i - Suc k)" by (simp add: Suc_diff_Suc)
    have "pa + PGSIZE + of_nat (4096 * (i - Suc k)) = pa + of_nat (4096 * (i - k))"
      unfolding e by (simp add: PGSIZE_def)
    then show ?thesis using True by (simp add: mapped_def add.assoc del: of_nat_mult of_nat_diff)
  qed (auto simp: mapped_def)
qed

lemma pno_next: "pno a + 1 < 1048576 \<Longrightarrow> pno (a + PGSIZE) = pno a + 1"
proof -
  assume "pno a + 1 < 1048576"
  then have "unat a + 4096 < 4294967296" by (simp add: pno_def)
  then have "unat (a + PGSIZE) = unat a + 4096" by (subst unat_add_u32) (simp_all add: PGSIZE_def)
  then show ?thesis by (simp add: pno_def)
qed

text \<open>
  The space after pages were taken from the free list for page tables: the free list is
  \<open>fps = ps @ fps'\<close>, and only pages of the directory were written.
\<close>

definition grown :: "u32 list \<Rightarrow> (nat \<rightharpoonup> u32) \<Rightarrow> nat set \<Rightarrow> u32 list \<Rightarrow> (nat \<rightharpoonup> u32) \<Rightarrow> bool" where
  "grown fps T D fps' T' \<longleftrightarrow>
     (\<exists>ps. fps = ps @ fps' \<and> length ps = card (D - dom T) \<and> ran T' = ran T \<union> set ps) \<and>
     T \<subseteq>\<^sub>m T' \<and> dom T' = dom T \<union> D"

lemma mappages_step:
  assumes sp: "aspace kend s fps pd T V"
    and np: "\<not> present (V (pno a))" and len: "T (pno a div 1024) = None \<Longrightarrow> fps \<noteq> []"
  shows "\<exists>s1 fps1 T1. aspace kend s1 fps1 pd T1 (V(pno a := pa OR perm OR PTE_P)) \<and>
    mappages_loop pd a (Suc n) pa perm s = mappages_loop pd (a + PGSIZE) n (pa + PGSIZE) perm s1 \<and>
    grown fps T {pno a div 1024} fps1 T1 \<and> frame (insert pd (ran T1)) (km_mem s) (km_mem s1)"
proof -
  let ?i = "pno a div 1024"
  obtain s0 fps1 T1 p where w: "walkpgdir pd a True s = (p + of_nat (4 * (pno a mod 1024)), s0)"
      and sp0: "aspace kend s0 fps1 pd T1 V" and T1: "T1 ?i = Some p" and g: "grown fps T {?i} fps1 T1"
      and fr: "frame (insert pd (ran T1)) (km_mem s) (km_mem s0)"
  proof (cases "T ?i")
    case None
    then obtain p ps where f: "fps = p # ps" using len by (cases fps) auto
    obtain s' where s': "walkpgdir pd a True s = (p + of_nat (4 * (pno a mod 1024)), s')"
        "aspace kend s' ps pd (T(?i \<mapsto> p)) V" "frame {pd, p} (km_mem s) (km_mem s')"
      using walk_alloc [of kend s p ps pd T V a] sp f None by blast
    have "ran (T(?i \<mapsto> p)) = ran T \<union> {p}" using None by (auto simp: ran_map_upd)
    moreover have "T \<subseteq>\<^sub>m T(?i \<mapsto> p)" using None by (auto simp: map_le_def)
    moreover have "{?i} - dom T = {?i}" using None by auto
    ultimately have "grown fps T {?i} ps (T(?i \<mapsto> p))"
      using None f unfolding grown_def by (intro conjI exI [of _ "[p]"]) auto
    moreover have "frame (insert pd (ran (T(?i \<mapsto> p)))) (km_mem s) (km_mem s')"
      by (rule frame_mono [OF s'(3)]) (auto intro: ranI)
    ultimately show ?thesis using that s' by (metis fun_upd_same)
  next
    case (Some p)
    have "grown fps T {?i} fps T" using Some unfolding grown_def by (auto simp: insert_absorb domI)
    then show ?thesis using that walk_present(1) [OF aspaceD(2) [OF sp] Some] sp Some by simp
  qed
  have pk: "page_ok kend p" using pgdir_atD(3) [OF aspaceD(2) [OF sp0] T1] by simp
  have nz: "p + of_nat (4 * (pno a mod 1024)) \<noteq> 0" by (rule entry_addr_nz [OF pk]) simp
  have v: "ld32 (km_mem s0) (p + of_nat (4 * (pno a mod 1024))) = V (pno a)"
    by (rule walk_present(2) [OF aspaceD(2) [OF sp0] T1])
  let ?s1 = "set_mem (st32 (km_mem s0) (p + of_nat (4 * (pno a mod 1024))) (pa OR perm OR PTE_P)) s0"
  have sp1: "aspace kend ?s1 fps1 pd T1 (V(pno a := pa OR perm OR PTE_P))"
    by (rule set_pte(1) [OF sp0 T1 refl])
  have "frame {p} (km_mem s0) (km_mem ?s1)" using set_pte(2) [OF sp0 T1 refl] by simp
  then have "frame (insert pd (ran T1)) (km_mem s) (km_mem ?s1)"
    by (rule frame_trans [OF fr]) (use T1 in \<open>auto intro: ranI\<close>)
  moreover have "mappages_loop pd a (Suc n) pa perm s = mappages_loop pd (a + PGSIZE) n (pa + PGSIZE) perm ?s1"
    using w nz v np by (simp add: present_def del: of_nat_mult)
  ultimately show ?thesis using sp1 g by blast
qed

lemma grown_trans:
  assumes "grown fps T D fps1 T1" "grown fps1 T1 D' fps2 T2" "finite D" "finite D'"
  shows "grown fps T (D \<union> D') fps2 T2"
proof -
  obtain ps where ps: "fps = ps @ fps1" "length ps = card (D - dom T)" "ran T1 = ran T \<union> set ps"
    using assms(1) by (auto simp: grown_def)
  obtain qs where qs: "fps1 = qs @ fps2" "length qs = card (D' - dom T1)" "ran T2 = ran T1 \<union> set qs"
    using assms(2) by (auto simp: grown_def)
  have "dom T1 = dom T \<union> D" using assms(1) by (simp add: grown_def)
  then have "D \<union> D' - dom T = (D - dom T) \<union> (D' - dom T1)" "(D - dom T) \<inter> (D' - dom T1) = {}" by auto
  then have "card (D \<union> D' - dom T) = length (ps @ qs)"
    using assms(3,4) ps(2) qs(2) card_Un_disjoint [of "D - dom T" "D' - dom T1"] by simp
  moreover have "fps = (ps @ qs) @ fps2" "ran T2 = ran T \<union> set (ps @ qs)" using ps qs by auto
  ultimately show ?thesis
    using assms(1,2) unfolding grown_def by (metis map_le_trans Un_assoc)
qed

lemma grown_ran: "grown fps T D fps' T' \<Longrightarrow> ran T \<subseteq> ran T'"
  by (auto simp: grown_def)

lemma mappages_loop_ok:
  assumes "aspace kend s fps pd T V" "pno a + n \<le> 1048576"
    and "\<And>k. pno a \<le> k \<Longrightarrow> k < pno a + n \<Longrightarrow> \<not> present (V k)"
    and "card (dirs (pno a) n - dom T) \<le> length fps"
  shows "\<exists>s' fps' T'. mappages_loop pd a n pa perm s = Inr (True, s') \<and>
    aspace kend s' fps' pd T' (mapped (pno a) n pa perm V) \<and> grown fps T (dirs (pno a) n) fps' T' \<and>
    frame (insert pd (ran T')) (km_mem s) (km_mem s')"
  using assms
proof (induction n arbitrary: s fps T V a pa)
  case 0
  then show ?case by (intro exI [of _ s] exI [of _ fps] exI [of _ T]) (auto simp: grown_def dirs_def)
next
  case (Suc n)
  let ?i = "pno a div 1024"
  have "fps \<noteq> []" if "T ?i = None"
  proof -
    have "?i \<in> dirs (pno a) (Suc n) - dom T" using that by (auto simp: dirs_Suc)
    then have "card (dirs (pno a) (Suc n) - dom T) \<noteq> 0" by (auto simp: card_eq_0_iff)
    then show ?thesis using Suc.prems(4) by auto
  qed
  then obtain s1 fps1 T1 where s1: "aspace kend s1 fps1 pd T1 (V(pno a := pa OR perm OR PTE_P))"
      "mappages_loop pd a (Suc n) pa perm s = mappages_loop pd (a + PGSIZE) n (pa + PGSIZE) perm s1"
      "grown fps T {?i} fps1 T1" "frame (insert pd (ran T1)) (km_mem s) (km_mem s1)"
    using mappages_step [OF Suc.prems(1), of a pa perm n] Suc.prems(3) [of "pno a"] by auto
  show ?case
  proof (cases n)
    case 0
    have "mapped (pno a) (Suc 0) pa perm V = V(pno a := pa OR perm OR PTE_P)"
      using mapped_Suc [of "pno a" 0 pa perm V] by simp
    moreover have "dirs (pno a) (Suc 0) = {?i}" by (simp add: dirs_Suc) (simp add: dirs_def)
    moreover have "mappages_loop pd a (Suc 0) pa perm s = Inr (True, s1)" using s1(2) unfolding 0 by (simp only: mappages_loop.simps(1))
    ultimately show ?thesis using s1(1,3,4) unfolding 0 by metis
  next
    case (Suc n')
    then have nx: "pno (a + PGSIZE) = Suc (pno a)" using pno_next [of a] Suc.prems(2) by simp
    have "dirs (Suc (pno a)) n - dom T1 \<subseteq> dirs (pno a) (Suc n) - dom T - {?i}"
      using s1(3) by (auto simp: grown_def dirs_Suc)
    then have "card (dirs (Suc (pno a)) n - dom T1) \<le> card (dirs (pno a) (Suc n) - dom T - {?i})"
      by (intro card_mono) auto
    also have "\<dots> \<le> length fps1"
    proof -
      obtain ps where "fps = ps @ fps1" "length ps = card ({?i} - dom T)" using s1(3) by (auto simp: grown_def)
      moreover have "card (dirs (pno a) (Suc n) - dom T - {?i}) + card ({?i} - dom T) \<le> card (dirs (pno a) (Suc n) - dom T)"
      proof (cases "?i \<in> dom T")
        case False
        then have "?i \<in> dirs (pno a) (Suc n) - dom T" by (simp add: dirs_Suc)
        moreover have "{?i} - dom T = {?i}" using False by auto
        ultimately show ?thesis using card_Suc_Diff1 [of "dirs (pno a) (Suc n) - dom T" ?i] by simp
      qed (auto intro: card_mono)
      ultimately show ?thesis using Suc.prems(4) by simp
    qed
    finally have c: "card (dirs (Suc (pno a)) n - dom T1) \<le> length fps1" .
    have "\<exists>s' fps' T'. mappages_loop pd (a + PGSIZE) n (pa + PGSIZE) perm s1 = Inr (True, s') \<and>
        aspace kend s' fps' pd T' (mapped (Suc (pno a)) n (pa + PGSIZE) perm (V(pno a := pa OR perm OR PTE_P))) \<and>
        grown fps1 T1 (dirs (Suc (pno a)) n) fps' T' \<and> frame (insert pd (ran T')) (km_mem s1) (km_mem s')"
      by (rule Suc.IH [OF s1(1), of "a + PGSIZE" "pa + PGSIZE", unfolded nx]) (use c Suc.prems(2,3) in auto)
    then obtain s' fps' T' where r: "mappages_loop pd (a + PGSIZE) n (pa + PGSIZE) perm s1 = Inr (True, s')"
        "aspace kend s' fps' pd T' (mapped (pno a) (Suc n) pa perm V)"
        "grown fps1 T1 (dirs (Suc (pno a)) n) fps' T'" "frame (insert pd (ran T')) (km_mem s1) (km_mem s')"
      unfolding mapped_Suc by blast
    have "grown fps T (dirs (pno a) (Suc n)) fps' T'"
      using grown_trans [OF s1(3) r(3)] by (simp add: dirs_Suc)
    moreover have "frame (insert pd (ran T')) (km_mem s) (km_mem s')"
      by (rule frame_trans [OF s1(4) r(4)]) (use grown_ran [OF r(3)] in auto)
    ultimately show ?thesis using s1(2) r(1,2) by metis
  qed
qed

lemma PGROUNDDOWN_eq: "PGROUNDDOWN x = x - x mod 4096"
proof -
  have "x - PGROUNDDOWN x = x mod 4096" using page_offset [of x] and_FFF [of x] by simp
  then show ?thesis by (metis diff_diff_eq2 add_diff_cancel_left')
qed

lemma unat_PGROUNDDOWN: "unat (PGROUNDDOWN x) = 4096 * (unat x div 4096)"
proof -
  have "x mod 4096 \<le> x" by (simp add: word_le_nat_alt unat_mod)
  then have "unat (PGROUNDDOWN x) = unat x - unat x mod 4096" by (simp add: PGROUNDDOWN_eq unat_sub unat_mod)
  then show ?thesis by (simp add: minus_mod_eq_mult_div)
qed

lemma PGROUNDDOWN_aligned: "va mod 4096 = 0 \<Longrightarrow> PGROUNDDOWN va = va"
  by (simp add: PGROUNDDOWN_eq)

lemma unat_aligned: "va mod 4096 = 0 \<Longrightarrow> unat va = 4096 * pno va"
  by (simp add: aligned_dvd pno_def)

lemma mappages_count:
  assumes "va mod 4096 = 0" "0 < n" "pno va + n \<le> 1048576" "sz = of_nat (4096 * n)"
  shows "mappages pd va sz pa perm s = mappages_loop pd va n pa perm s"
proof -
  let ?x = "va + sz - 1"
  have "?x = va + of_nat (4096 * n - 1)" using assms(2,4) by (simp add: of_nat_diff)
  then have x: "unat ?x = 4096 * pno va + (4096 * n - 1)"
    using assms(2,3) unat_aligned [OF assms(1)] by (simp only:) (subst unat_add_u32; subst unat_of_nat_u32; simp)
  have "4096 * pno va + (4096 * n - 1) = (pno va + (n - 1)) * 4096 + 4095" using assms(2) by (cases n) simp_all
  then have "unat ?x div 4096 = pno va + (n - 1)" using x by simp
  then have l: "unat (PGROUNDDOWN ?x) = 4096 * (pno va + (n - 1))" by (simp only: unat_PGROUNDDOWN)
  have "unat (PGROUNDDOWN ?x - va) = 4096 * (n - 1)"
    using l unat_aligned [OF assms(1)] by (subst unat_sub) (simp_all add: word_le_nat_alt)
  then have "Suc (unat ((PGROUNDDOWN ?x - va) div PGSIZE)) = n" using assms(2) by (simp add: unat_div PGSIZE_def)
  then show ?thesis unfolding mappages_def Let_def PGROUNDDOWN_aligned [OF assms(1)] by (simp only:)
qed

lemma dirs_add: "dirs k n \<union> dirs (k + n) n' = dirs k (n + n')"
proof -
  have "{k..<k + n} \<union> {k + n..<k + n + n'} = {k..<k + (n + n')}" by auto
  then show ?thesis unfolding dirs_def by (metis image_Un)
qed

lemma dirs_whole: "dirs (1024 * a) (1024 * b) = {a..<a + b}"
proof
  show "dirs (1024 * a) (1024 * b) \<subseteq> {a..<a + b}" by (auto simp: dirs_def div_le_dividend less_mult_imp_div_less)
  show "{a..<a + b} \<subseteq> dirs (1024 * a) (1024 * b)"
  proof
    fix i
    assume "i \<in> {a..<a + b}"
    then have "1024 * i \<in> {1024 * a..<1024 * a + 1024 * b}" by auto
    then show "i \<in> dirs (1024 * a) (1024 * b)" unfolding dirs_def by (intro image_eqI [of _ _ "1024 * i"]) auto
  qed
qed

section \<open>The kernel part\<close>

text \<open>\<open>data\<close> is page-aligned (\<open>kernel.ld\<close>) and lies above the text and below the end of memory.\<close>

definition kdata_ok :: "u32 \<Rightarrow> bool" where
  "kdata_ok kdata \<longleftrightarrow> kdata mod 4096 = 0 \<and> unat KERNLINK < unat kdata \<and> unat kdata < 0x8E000000"

definition kernV :: "u32 \<Rightarrow> nat \<Rightarrow> u32" where
  "kernV kdata =
     mapped 0xFE000 0x2000 DEVSPACE PTE_W (mapped (pno kdata) (0x8E000 - pno kdata) (V2P kdata) PTE_W
       (mapped 0x80100 (pno kdata - 0x80100) (V2P KERNLINK) 0 (mapped 0x80000 0x100 0 PTE_W (\<lambda>_. 0))))"

lemma kernV_user: "k < 0x80000 \<Longrightarrow> kdata_ok kdata \<Longrightarrow> kernV kdata k = 0"
  by (auto simp: kernV_def mapped_def kdata_ok_def pno_def KERNLINK_def KERNBASE_def EXTMEM_def)

lemma setup_step:
  assumes "aspace kend s fps pd T V" "km_virt e mod 4096 = 0" "pno (km_virt e) = k" "0 < n" "k + n \<le> 1048576"
    and "km_phys_end e - km_phys_start e = of_nat (4096 * n)"
    and "\<And>i. k \<le> i \<Longrightarrow> i < k + n \<Longrightarrow> \<not> present (V i)" "card (dirs k n - dom T) \<le> length fps"
  shows "\<exists>s' fps' T'. setupkvm_loop kend pd (e # es) s = setupkvm_loop kend pd es s' \<and>
    aspace kend s' fps' pd T' (mapped k n (km_phys_start e) (km_perm e) V) \<and> grown fps T (dirs k n) fps' T' \<and>
    frame (insert pd (ran T')) (km_mem s) (km_mem s')"
proof -
  have "mappages pd (km_virt e) (km_phys_end e - km_phys_start e) (km_phys_start e) (km_perm e) s =
      mappages_loop pd (km_virt e) n (km_phys_start e) (km_perm e) s"
    by (rule mappages_count) (use assms in auto)
  moreover obtain s' fps' T' where "mappages_loop pd (km_virt e) n (km_phys_start e) (km_perm e) s = Inr (True, s')"
      "aspace kend s' fps' pd T' (mapped k n (km_phys_start e) (km_perm e) V)" "grown fps T (dirs k n) fps' T'"
      "frame (insert pd (ran T')) (km_mem s) (km_mem s')"
    using mappages_loop_ok [OF assms(1), of "km_virt e" n "km_phys_start e" "km_perm e"] assms(3,5,7,8) by blast
  ultimately show ?thesis by (intro exI [of _ s'] exI [of _ fps'] exI [of _ T']) simp
qed

lemma new_pgdir:
  assumes "kmem_inv kend s (pd # fps)"
  shows "\<exists>s'. kalloc s = (pd, s') \<and> pd \<noteq> 0 \<and>
    aspace kend (set_mem (memset (km_mem s') pd 0 PGSIZE) s') fps pd Map.empty (\<lambda>_. 0) \<and>
    km_mem s' = km_mem s"
proof -
  obtain s1 where s1: "kalloc s = (pd, s1)" "kmem_inv kend s1 fps" "km_mem s1 = km_mem s"
    using kalloc_ok [OF assms] by auto
  have pk: "page_ok kend pd" "pd \<notin> set fps" using assms by (auto simp: kmem_inv_def)
  let ?m = "memset (km_mem s1) pd 0 PGSIZE"
  have "frame {pd} (km_mem s1) ?m" by (simp add: frame_def memset_page)
  then have "kmem_inv kend (set_mem ?m s1) fps" by (rule kmem_inv_frameP [OF s1(2)]) (use pk in auto)
  moreover have "pgdir_at kend ?m pd Map.empty (\<lambda>_. 0)" using pk(1) by (simp add: pgdir_at_def entry_fill)
  ultimately have "aspace kend (set_mem ?m s1) fps pd Map.empty (\<lambda>_. 0)" using pk by (simp add: aspace_def)
  moreover have "pd \<noteq> 0" using pk(1) by auto
  ultimately show ?thesis using s1 by blast
qed

lemma kmap_arith:
  assumes "kdata_ok kdata"
  shows "0x80100 < pno kdata" "pno kdata < 0x8E000" "kdata mod 4096 = 0"
    "V2P kdata - V2P KERNLINK = of_nat (4096 * (pno kdata - 0x80100))"
    "PHYSTOP - V2P kdata = of_nat (4096 * (0x8E000 - pno kdata))"
proof -
  have u: "unat kdata = 4096 * pno kdata" using assms by (simp add: kdata_ok_def unat_aligned)
  show b: "0x80100 < pno kdata" "pno kdata < 0x8E000" "kdata mod 4096 = 0"
    using assms u by (auto simp: kdata_ok_def KERNLINK_def KERNBASE_def EXTMEM_def)
  have k: "kdata = of_nat (4096 * pno kdata)" using u of_nat_unat_u32 [of kdata] by simp
  have "V2P kdata - V2P KERNLINK = kdata - 0x80100000" by (simp add: V2P_def KERNLINK_def KERNBASE_def EXTMEM_def)
  also have "\<dots> = of_nat (4096 * pno kdata) - of_nat (4096 * 0x80100)" using k by simp
  also have "\<dots> = of_nat (4096 * pno kdata - 4096 * 0x80100)" using b(1) by (subst of_nat_diff) simp_all
  finally show "V2P kdata - V2P KERNLINK = of_nat (4096 * (pno kdata - 0x80100))"
    by (simp only: diff_mult_distrib2)
  have "PHYSTOP - V2P kdata = of_nat (4096 * 0x8E000) - of_nat (4096 * pno kdata)"
    using k by (simp add: V2P_def PHYSTOP_def KERNBASE_def)
  also have "\<dots> = of_nat (4096 * 0x8E000 - 4096 * pno kdata)" using b(2) by (subst of_nat_diff) simp_all
  finally show "PHYSTOP - V2P kdata = of_nat (4096 * (0x8E000 - pno kdata))"
    by (simp only: diff_mult_distrib2)
qed

end
