(* ===== verification/Xv6_Uvm.thy ===== *)
theory Xv6_Uvm
  imports Xv6_Vspace
begin

text \<open>
  User memory: \<open>setupkvm\<close> builds the kernel part of a page table, \<open>allocuvm\<close> adds zeroed pages,
  \<open>copyuvm\<close> makes a copy that shares no page with the original.
\<close>

unbundle bit_operations_syntax

section \<open>setupkvm\<close>

definition kern_dirs :: "nat set" where "kern_dirs = {512..<568} \<union> {1016..<1024}"

lemma card_kern_dirs: "card kern_dirs = 64" "finite kern_dirs"
  by (simp_all add: kern_dirs_def card_Un_disjoint)

lemma kmap_dirs:
  assumes "kdata_ok kdata"
  shows "dirs 0x80000 0x100 \<union> dirs 0x80100 (pno kdata - 0x80100) \<union> dirs (pno kdata) (0x8E000 - pno kdata) \<union>
    dirs 0xFE000 0x2000 = kern_dirs"
proof -
  note a = kmap_arith(1,2) [OF assms]
  have "dirs 0x80000 0x100 \<union> dirs 0x80100 (pno kdata - 0x80100) = dirs 0x80000 (0x100 + (pno kdata - 0x80100))"
    using dirs_add [of "0x80000" "0x100"] by simp
  moreover have "dirs 0x80000 (0x100 + (pno kdata - 0x80100)) \<union> dirs (pno kdata) (0x8E000 - pno kdata) = dirs 0x80000 0xE000"
    using dirs_add [of "0x80000" "0x100 + (pno kdata - 0x80100)" "0x8E000 - pno kdata"] a by simp
  moreover have "dirs 0x80000 0xE000 = {512..<568}" using dirs_whole [of 512 56] by simp
  moreover have "dirs 0xFE000 0x2000 = {1016..<1024}" using dirs_whole [of 1016 8] by simp
  ultimately show ?thesis by (simp add: kern_dirs_def)
qed

lemma grown_len:
  assumes "grown fps T D fps' T'" "finite D" "D \<union> D' \<subseteq> R" "finite R" "card (R - dom T) \<le> length fps"
  shows "card (R - dom T') \<le> length fps'" "card (D' - dom T') \<le> length fps'"
proof -
  obtain ps where ps: "fps = ps @ fps'" "length ps = card (D - dom T)" "dom T' = dom T \<union> D"
    using assms(1) by (auto simp: grown_def)
  have "R - dom T = (R - dom T') \<union> (D - dom T)" "(R - dom T') \<inter> (D - dom T) = {}"
    using assms(3) ps(3) by auto
  then have "card (R - dom T) = card (R - dom T') + card (D - dom T)"
    using assms(2,4) by (metis card_Un_disjoint finite_Diff)
  then show r: "card (R - dom T') \<le> length fps'" using assms(5) ps by simp
  have "card (D' - dom T') \<le> card (R - dom T')" using assms(3,4) by (intro card_mono) auto
  with r show "card (D' - dom T') \<le> length fps'" by simp
qed

lemma not_present_mapped: "k + n \<le> i \<or> i < k \<Longrightarrow> present (mapped k n pa perm V i) = present (V i)"
  by (auto simp: mapped_def)

lemma setupkvm_ok:
  assumes "kmem_inv kend s fps" "kdata_ok kdata" "65 \<le> length fps"
  shows "\<exists>d s' fps' T. setupkvm kend kdata s = Inr (d, s') \<and> d \<noteq> 0 \<and> aspace kend s' fps' d T (kernV kdata) \<and>
    dom T = kern_dirs \<and> (\<exists>ps. fps = ps @ fps' \<and> set ps = insert d (ran T) \<and> length ps = 65) \<and>
    frame (insert d (ran T)) (km_mem s) (km_mem s')"
proof -
  note a = kmap_arith [OF assms(2)] and dk = kmap_dirs [OF assms(2)]
  obtain d fps0 where f: "fps = d # fps0" using assms(3) by (cases fps) auto
  obtain s0 where s0: "kalloc s = (d, s0)" "d \<noteq> 0" "km_mem s0 = km_mem s"
      and sp0: "aspace kend (set_mem (memset (km_mem s0) d 0 PGSIZE) s0) fps0 d Map.empty (\<lambda>_. 0)"
    using new_pgdir [of kend s d fps0] assms(1) f by blast
  let ?s0 = "set_mem (memset (km_mem s0) d 0 PGSIZE) s0"
  have l0: "card (kern_dirs - dom Map.empty) \<le> length fps0" using f assms(3) card_kern_dirs by simp
  have c0: "card (dirs 0x80000 0x100 - dom Map.empty) \<le> length fps0"
    by (rule order_trans [OF card_mono l0]) (use dk card_kern_dirs in auto)
  have fin: "finite (dirs k n)" for k n by simp
  obtain s1 fps1 T1 where r1: "setupkvm_loop kend d (kmap kdata) ?s0 = setupkvm_loop kend d (tl (kmap kdata)) s1"
      "aspace kend s1 fps1 d T1 (mapped 0x80000 0x100 0 PTE_W (\<lambda>_. 0))" "grown fps0 Map.empty (dirs 0x80000 0x100) fps1 T1"
      "frame (insert d (ran T1)) (km_mem ?s0) (km_mem s1)"
    using setup_step [OF sp0, of "hd (kmap kdata)" "0x80000" "0x100" "tl (kmap kdata)"] c0
    by (auto simp: kmap_def pno_def KERNBASE_def EXTMEM_def)
  note l1 = grown_len [OF r1(3) fin _ card_kern_dirs(2) l0]
  have c1: "card (kern_dirs - dom T1) \<le> length fps1" "card (dirs 0x80100 (pno kdata - 0x80100) - dom T1) \<le> length fps1"
    by (rule l1; use dk in blast)+
  obtain s2 fps2 T2 where r2: "setupkvm_loop kend d (tl (kmap kdata)) s1 = setupkvm_loop kend d (tl (tl (kmap kdata))) s2"
      "aspace kend s2 fps2 d T2 (mapped 0x80100 (pno kdata - 0x80100) (V2P KERNLINK) 0 (mapped 0x80000 0x100 0 PTE_W (\<lambda>_. 0)))"
      "grown fps1 T1 (dirs 0x80100 (pno kdata - 0x80100)) fps2 T2" "frame (insert d (ran T2)) (km_mem s1) (km_mem s2)"
    using setup_step [OF r1(2), of "hd (tl (kmap kdata))" "0x80100" "pno kdata - 0x80100" "tl (tl (kmap kdata))"] c1 a
    by (auto simp: kmap_def pno_def KERNLINK_def KERNBASE_def EXTMEM_def not_present_mapped)
  note l2 = grown_len [OF r2(3) fin _ card_kern_dirs(2) c1(1)]
  have c2: "card (kern_dirs - dom T2) \<le> length fps2" "card (dirs (pno kdata) (0x8E000 - pno kdata) - dom T2) \<le> length fps2"
    by (rule l2; use dk in blast)+
  obtain s3 fps3 T3 V3 where r3: "setupkvm_loop kend d (tl (tl (kmap kdata))) s2 = setupkvm_loop kend d (tl (tl (tl (kmap kdata)))) s3"
      "aspace kend s3 fps3 d T3 V3" "grown fps2 T2 (dirs (pno kdata) (0x8E000 - pno kdata)) fps3 T3"
      "frame (insert d (ran T3)) (km_mem s2) (km_mem s3)"
      and V3: "V3 = mapped (pno kdata) (0x8E000 - pno kdata) (V2P kdata) PTE_W
        (mapped 0x80100 (pno kdata - 0x80100) (V2P KERNLINK) 0 (mapped 0x80000 0x100 0 PTE_W (\<lambda>_. 0)))"
    using setup_step [OF r2(2), of "hd (tl (tl (kmap kdata)))" "pno kdata" "0x8E000 - pno kdata" "tl (tl (tl (kmap kdata)))"] c2 a
    by (auto simp: kmap_def not_present_mapped)
  note l3 = grown_len [OF r3(3) fin _ card_kern_dirs(2) c2(1)]
  have c3: "card (dirs 0xFE000 0x2000 - dom T3) \<le> length fps3" by (rule l3; use dk in blast)
  have np: "\<not> present (V3 i)" if "0xFE000 \<le> i" for i using that a(1,2) by (simp add: V3 not_present_mapped)
  obtain s4 fps4 T4 where r4: "setupkvm_loop kend d (tl (tl (tl (kmap kdata)))) s3 = Inr (d, s4)"
      "aspace kend s4 fps4 d T4 (mapped 0xFE000 0x2000 DEVSPACE PTE_W V3)" "grown fps3 T3 (dirs 0xFE000 0x2000) fps4 T4"
      "frame (insert d (ran T4)) (km_mem s3) (km_mem s4)"
    using setup_step [OF r3(2), of "hd (tl (tl (tl (kmap kdata))))" "0xFE000" "0x2000" "[]"] c3 np
    by (auto simp: kmap_def pno_def DEVSPACE_def)
  have "grown fps0 Map.empty (dirs 0x80000 0x100 \<union> dirs 0x80100 (pno kdata - 0x80100) \<union>
      dirs (pno kdata) (0x8E000 - pno kdata) \<union> dirs 0xFE000 0x2000) fps4 T4"
    by (intro grown_trans [OF grown_trans [OF grown_trans [OF r1(3) r2(3)] r3(3)] r4(3)]) simp_all
  then have g: "grown fps0 Map.empty kern_dirs fps4 T4" unfolding dk .
  have sub: "ran T1 \<subseteq> ran T4" "ran T2 \<subseteq> ran T4" "ran T3 \<subseteq> ran T4"
    using grown_ran [OF r2(3)] grown_ran [OF r3(3)] grown_ran [OF r4(3)] by blast+
  let ?P = "insert d (ran T4)"
  have "frame ?P (km_mem s) (km_mem ?s0)" using s0(3) by (simp add: frame_def memset_page)
  then have "frame ?P (km_mem s) (km_mem s1)" by (rule frame_trans [OF _ r1(4)]) (use sub in auto)
  then have "frame ?P (km_mem s) (km_mem s2)" by (rule frame_trans [OF _ r2(4)]) (use sub in auto)
  then have "frame ?P (km_mem s) (km_mem s3)" by (rule frame_trans [OF _ r3(4)]) (use sub in auto)
  then have fr: "frame ?P (km_mem s) (km_mem s4)" by (rule frame_trans [OF _ r4(4)]) auto
  have "setupkvm kend kdata s = setupkvm_loop kend d (kmap kdata) ?s0"
    using s0 by (simp add: setupkvm_def P2V_def PHYSTOP_def DEVSPACE_def KERNBASE_def)
  then have run: "setupkvm kend kdata s = Inr (d, s4)" using r1(1) r2(1) r3(1) r4(1) by simp
  have V: "mapped 0xFE000 0x2000 DEVSPACE PTE_W V3 = kernV kdata" by (simp add: kernV_def V3)
  have "\<exists>ps. fps = ps @ fps4 \<and> set ps = ?P \<and> length ps = 65"
  proof -
    obtain ps where "fps0 = ps @ fps4" "length ps = 64" "ran T4 = set ps"
      using g card_kern_dirs by (auto simp: grown_def)
    then show ?thesis using f by (intro exI [of _ "d # ps"]) auto
  qed
  moreover have "dom T4 = kern_dirs" using g by (simp add: grown_def)
  ultimately show ?thesis using run s0(2) r4(2) fr unfolding V by blast
qed

section \<open>One page\<close>

lemma pno_of_nat: "k < 1048576 \<Longrightarrow> pno (of_nat (4096 * k)) = k"
  unfolding pno_def by (subst unat_of_nat_u32) simp_all

lemma aligned_of_nat: "k < 1048576 \<Longrightarrow> (of_nat (4096 * k) :: u32) mod 4096 = 0"
  unfolding aligned_dvd by (subst unat_of_nat_u32) simp_all

lemma take_page:
  assumes sp: "aspace kend s (q # fps) d T V" and fq: "frame {q} (km_mem s) mq"
  shows "\<exists>s1. kalloc s = (q, s1) \<and> km_mem s1 = km_mem s \<and> aspace kend (set_mem mq s1) fps d T V"
    and "page_ok kend q" "q \<notin> insert d (ran T) \<union> set fps" "q \<noteq> 0"
proof -
  obtain s1 where s1: "kalloc s = (q, s1)" "kmem_inv kend s1 fps" "km_mem s1 = km_mem s"
    using kalloc_ok aspaceD(1) [OF sp] by blast
  show q: "page_ok kend q" "q \<notin> insert d (ran T) \<union> set fps"
    using sp aspaceD(6,7) [OF sp] by (auto simp: aspace_def)
  then show "q \<noteq> 0" by auto
  have "agree (km_mem s) mq (insert d (ran T))"
    by (rule frame_agree [OF fq]) (use q aspaceD(5) [OF sp] in auto)
  then have "pgdir_at kend mq d T V" by (rule pgdir_at_agree [OF aspaceD(2) [OF sp]])
  moreover have "kmem_inv kend (set_mem mq s1) fps"
    by (rule kmem_inv_frameP [OF s1(2)]) (use fq s1(3) q in auto)
  ultimately have "aspace kend (set_mem mq s1) fps d T V" using sp by (auto simp: aspace_def)
  then show "\<exists>s1. kalloc s = (q, s1) \<and> km_mem s1 = km_mem s \<and> aspace kend (set_mem mq s1) fps d T V"
    using s1 by blast
qed

lemma mappages_one:
  "k < 1048576 \<Longrightarrow> mappages d (of_nat (4096 * k)) PGSIZE pa perm s = mappages_loop d (of_nat (4096 * k)) (Suc 0) pa perm s"
  using pno_of_nat [of k] aligned_of_nat [of k] by (intro mappages_count) (simp_all add: PGSIZE_def del: of_nat_mult)

lemma map_page:
  assumes sp: "aspace kend s (q # fps) d T V" and k: "k < 1048576" "\<not> present (V k)"
    and len: "T (k div 1024) = None \<Longrightarrow> fps \<noteq> []" and fq: "frame {q} (km_mem s) mq"
  shows "\<exists>s1 s' fps' T'. kalloc s = (q, s1) \<and> q \<noteq> 0 \<and> km_mem s1 = km_mem s \<and>
    mappages d (of_nat (4096 * k)) PGSIZE (V2P q) perm (set_mem mq s1) = Inr (True, s') \<and>
    aspace kend s' fps' d T' (V(k := V2P q OR perm OR PTE_P)) \<and> grown fps T {k div 1024} fps' T' \<and>
    frame (insert d (ran T')) mq (km_mem s') \<and> q \<notin> insert d (ran T') \<union> set fps'"
proof -
  note q = take_page(2-4) [OF sp fq]
  obtain s1 where s1: "kalloc s = (q, s1)" "km_mem s1 = km_mem s" "aspace kend (set_mem mq s1) fps d T V"
    using take_page(1) [OF sp fq] by blast
  let ?a = "of_nat (4096 * k) :: u32"
  have pn: "pno ?a = k" using k(1) by (rule pno_of_nat)
  obtain s' fps' T' where r: "aspace kend s' fps' d T' (V(k := V2P q OR perm OR PTE_P))"
      "mappages_loop d ?a (Suc 0) (V2P q) perm (set_mem mq s1) = Inr (True, s')"
      "grown fps T {k div 1024} fps' T'" "frame (insert d (ran T')) mq (km_mem s')"
    using mappages_step [OF s1(3), of ?a "V2P q" perm 0, unfolded pn(1)] k(2) len
    by (auto simp del: mappages_loop.simps(2) of_nat_mult)
  have "q \<notin> insert d (ran T') \<union> set fps'" using r(3) q by (auto simp: grown_def)
  with s1 q r mappages_one [OF k(1)] show ?thesis
    by (intro exI [of _ s1] exI [of _ s'] exI [of _ fps'] exI [of _ T']) (simp only: simp_thms)
qed

text \<open>Without a page for the table the page is not mapped.\<close>

lemma map_page_fail:
  assumes sp: "aspace kend s [q] d T V" and k: "k < 1048576" "T (k div 1024) = None" and fq: "frame {q} (km_mem s) mq"
  shows "\<exists>s1. kalloc s = (q, s1) \<and> km_mem s1 = km_mem s \<and> aspace kend (set_mem mq s1) [] d T V \<and>
    mappages d (of_nat (4096 * k)) PGSIZE pa perm (set_mem mq s1) = Inr (False, set_mem mq s1)"
proof -
  obtain s1 where s1: "kalloc s = (q, s1)" "km_mem s1 = km_mem s" "aspace kend (set_mem mq s1) [] d T V"
    using take_page(1) [OF sp fq] by blast
  have pn: "pno (of_nat (4096 * k)) = k" using k(1) by (rule pno_of_nat)
  have "mappages_loop d (of_nat (4096 * k)) (Suc 0) pa perm (set_mem mq s1) = Inr (False, set_mem mq s1)"
    using walk_fail [OF s1(3), of "of_nat (4096 * k)", unfolded pn, OF k(2)] by (simp del: of_nat_mult)
  with s1 mappages_one [OF k(1)] show ?thesis by simp
qed

lemma card_dirs_step:
  assumes "grown fps T {k div 1024} fps' T'" "k < n"
  shows "card (dirs (Suc k) (n - Suc k) - dom T') + length fps \<le> card (dirs k (n - k) - dom T) + length fps'"
proof -
  obtain ps where ps: "fps = ps @ fps'" "length ps = card ({k div 1024} - dom T)" "dom T' = dom T \<union> {k div 1024}"
    using assms(1) by (auto simp: grown_def)
  have dS: "dirs k (n - k) = insert (k div 1024) (dirs (Suc k) (n - Suc k))"
    using dirs_Suc [of k "n - Suc k"] assms(2) by (simp add: Suc_diff_Suc)
  have "dirs k (n - k) - dom T = (dirs (Suc k) (n - Suc k) - dom T') \<union> ({k div 1024} - dom T)"
    unfolding dS ps(3) by auto
  moreover have "(dirs (Suc k) (n - Suc k) - dom T') \<inter> ({k div 1024} - dom T) = {}" unfolding ps(3) by auto
  ultimately have "card (dirs k (n - k) - dom T) = card (dirs (Suc k) (n - Suc k) - dom T') + card ({k div 1024} - dom T)"
    by (metis card_Un_disjoint finite_Diff finite_dirs finite.emptyI finite.insertI)
  then show ?thesis using ps by simp
qed

lemma dirs_need_page:
  assumes "T (k div 1024) = None" "k < n" "n - Suc k + card (dirs k (n - k) - dom T) \<le> length fps"
  shows "fps \<noteq> []"
proof -
  have "k div 1024 \<in> dirs k (n - k) - dom T"
    using assms(1,2) dirs_Suc [of k "n - Suc k"] by (auto simp: Suc_diff_Suc)
  then have "card (dirs k (n - k) - dom T) \<noteq> 0" by (auto simp: card_eq_0_iff)
  then show ?thesis using assms(3) by auto
qed

section \<open>copyuvm\<close>

definition same_page :: "mem \<Rightarrow> u32 \<Rightarrow> mem \<Rightarrow> u32 \<Rightarrow> bool" where
  "same_page m p m' p' \<longleftrightarrow> (\<forall>x<4096. m (p + of_nat x) = m' (p' + of_nat x))"

lemma same_page_agree: "agree m m' P \<Longrightarrow> p \<in> P \<Longrightarrow> same_page m' p m p"
  using in_page_word by (auto simp: agree_def same_page_def)

lemma same_page_trans: "same_page m p m' p' \<Longrightarrow> same_page m' p' m'' p'' \<Longrightarrow> same_page m p m'' p''"
  by (simp add: same_page_def)

lemma agree_trans: "agree m m' P \<Longrightarrow> agree m' m'' P \<Longrightarrow> agree m m'' P"
  by (simp add: agree_def)

lemma agree_mono: "agree m m' P \<Longrightarrow> Q \<subseteq> P \<Longrightarrow> agree m m' Q"
  by (auto simp: agree_def)

lemma memmove_page:
  assumes "page_ok kend p" "page_ok kend q" "p \<noteq> q"
  shows "frame {q} m (memmove m q p PGSIZE)" "same_page (memmove m q p PGSIZE) q m p"
proof -
  have u: "unat x + 4096 \<le> 4294967295" if "page_ok kend x" for x
  proof -
    have "unat (V2P x) < 0xE000000" using that by (simp add: page_ok_def word_less_nat_alt PHYSTOP_def)
    then have "unat (V2P x + 0x80000000) = unat (V2P x) + 0x80000000" by (subst unat_add_u32) simp_all
    then show ?thesis using \<open>unat (V2P x) < 0xE000000\<close> by (simp add: V2P_def KERNBASE_def)
  qed
  have c: "memmove m q p PGSIZE = copied m q p 4096"
    using memmove_copied [of p PGSIZE q m] u [OF assms(1)] u [OF assms(2)] by (simp add: PGSIZE_def)
  show "frame {q} m (memmove m q p PGSIZE)" by (simp add: c frame_def copied_def in_page_def)
  show "same_page (memmove m q p PGSIZE) q m p" by (simp add: c same_page_def copied_def unat_of_nat_u32)
qed

text \<open>
  The state of the loop after \<open>length qs\<close> pages: the parent's directory \<open>pd\<close> and pages are as in
  the memory \<open>m0\<close> at the start, the child's pages \<open>qs\<close> are copies.
\<close>

definition copying ::
    "u32 \<Rightarrow> mem \<Rightarrow> u32 \<Rightarrow> (nat \<rightharpoonup> u32) \<Rightarrow> (nat \<Rightarrow> u32) \<Rightarrow> nat \<Rightarrow> u32 \<Rightarrow> u32 list \<Rightarrow> kmem \<Rightarrow> u32 list \<Rightarrow> (nat \<rightharpoonup> u32) \<Rightarrow>
     (nat \<Rightarrow> u32) \<Rightarrow> bool" where
  "copying kend m0 pd Tp Vp n d qs s fps T V \<longleftrightarrow>
     aspace kend s fps d T V \<and> agree m0 (km_mem s) (insert pd (ran Tp) \<union> (\<lambda>k. epage (Vp k)) ` {..<n}) \<and>
     (insert pd (ran Tp) \<union> (\<lambda>k. epage (Vp k)) ` {..<n}) \<inter> (insert d (ran T) \<union> set fps \<union> set qs) = {} \<and>
     distinct qs \<and> set qs \<inter> (insert d (ran T) \<union> set fps) = {} \<and>
     (\<forall>k<length qs. V k = V2P (qs ! k) OR PTE_FLAGS (Vp k) OR PTE_P \<and> page_ok kend (qs ! k) \<and>
        same_page (km_mem s) (qs ! k) m0 (epage (Vp k)))"

lemma PTE_FLAGS_small: "PTE_FLAGS e < 4096"
  unfolding PTE_FLAGS_def and_FFF by (rule word_mod_less_divisor) simp

lemma copying_step:
  assumes c: "copying kend m0 pd Tp Vp n d qs s fps T V" and at: "pgdir_at kend m0 pd Tp Vp"
    and n: "length qs < n" "n \<le> 1048576"
    and pp: "present (Vp (length qs))" "page_ok kend (epage (Vp (length qs)))" "\<And>k. k < n \<Longrightarrow> page_ok kend (epage (Vp k))"
    and np: "\<not> present (V (length qs))"
    and len: "fps = q # fps1" "T (length qs div 1024) = None \<Longrightarrow> fps1 \<noteq> []"
  shows "\<exists>s' fps' T'. copyuvm_loop kend pd d (of_nat (4096 * length qs) # is) s = copyuvm_loop kend pd d is s' \<and>
    copying kend m0 pd Tp Vp n d (qs @ [q]) s' fps' T' (V(length qs := V2P q OR PTE_FLAGS (Vp (length qs)) OR PTE_P)) \<and>
    grown fps1 T {length qs div 1024} fps' T' \<and> frame (insert q (insert d (ran T'))) (km_mem s) (km_mem s')"
proof -
  let ?j = "length qs" and ?m = "km_mem s"
  let ?e = "Vp ?j" and ?a = "of_nat (4096 * ?j) :: u32"
  define FP where "FP = insert pd (ran Tp) \<union> (\<lambda>k. epage (Vp k)) ` {..<n}"
  define D where "D = insert d (ran T)"
  have sp: "aspace kend s (q # fps1) d T V" and ag: "agree m0 ?m FP"
      and dj: "FP \<inter> (D \<union> set fps \<union> set qs) = {}" "distinct qs" "set qs \<inter> (D \<union> set fps) = {}"
    using c len(1) by (auto simp: copying_def FP_def D_def)
  have qs: "V k = V2P (qs ! k) OR PTE_FLAGS (Vp k) OR PTE_P" "page_ok kend (qs ! k)" "same_page ?m (qs ! k) m0 (epage (Vp k))"
    if "k < ?j" for k using c that by (auto simp: copying_def)
  have j: "?j < 1048576" using n by simp
  have pat: "pgdir_at kend ?m pd Tp Vp"
    by (rule pgdir_at_agree [OF at]) (use ag in \<open>auto simp: agree_def FP_def\<close>)
  have pn: "pno ?a = ?j" using j by (rule pno_of_nat)
  obtain p where p: "Tp (?j div 1024) = Some p"
    using pp(1) pgdir_atD(2) [OF pat j] by (cases "Tp (?j div 1024)") auto
  have w: "fst (walkpgdir pd ?a False s) = p + of_nat (4 * (?j mod 1024))" "ld32 ?m (p + of_nat (4 * (?j mod 1024))) = ?e"
    using walk_present [OF pat, of ?a p] p unfolding pn by auto
  have nz: "p + of_nat (4 * (?j mod 1024)) \<noteq> 0"
    by (rule entry_addr_nz) (use pgdir_atD(3) [OF pat p] in auto)
  let ?mq = "memmove ?m q (epage ?e) PGSIZE"
  have eFP: "epage ?e \<in> FP" using n(1) by (auto simp: FP_def)
  have q: "page_ok kend q" "q \<notin> FP" "q \<notin> set qs" "q \<notin> D" "q \<notin> set fps1"
    using aspaceD(6,7) [OF sp] dj len(1) sp by (auto simp: aspace_def D_def)
  have mv: "frame {q} ?m ?mq" "same_page ?mq q ?m (epage ?e)"
    by (rule memmove_page [OF pp(2) q(1)]; use eFP q(2) in blast)+
  obtain s1 s' fps' T' where r: "kalloc s = (q, s1)" "q \<noteq> 0" "km_mem s1 = ?m"
      "mappages d ?a PGSIZE (V2P q) (PTE_FLAGS ?e) (set_mem ?mq s1) = Inr (True, s')"
      "aspace kend s' fps' d T' (V(?j := V2P q OR PTE_FLAGS ?e OR PTE_P))" "grown fps1 T {?j div 1024} fps' T'"
      "frame (insert d (ran T')) ?mq (km_mem s')" "q \<notin> insert d (ran T') \<union> set fps'"
    using map_page [OF sp j np len(2) mv(1), of "PTE_FLAGS ?e"] by blast
  have run: "copyuvm_loop kend pd d (?a # is) s = copyuvm_loop kend pd d is s'"
    using w nz pp(1) r(1-4) by (simp add: present_def epage_def Let_def del: of_nat_mult)
  define D' where "D' = insert d (ran T')"
  have T': "D' \<union> set fps' \<subseteq> D \<union> set fps1" using r(6) by (auto simp: grown_def D_def D'_def)
  have f: "set fps = insert q (set fps1)" using len(1) by simp
  have "page_ok kend x" if "x \<in> FP" for x
    using that pgdir_atD(3,5) [OF pat] pp(3) by (auto simp: ran_def FP_def)
  moreover have "page_ok kend x" if "x \<in> insert q D'" for x using that q(1) aspaceD(5) [OF r(5)] by (auto simp: D'_def)
  moreover have "page_ok kend x" if "x \<in> set qs" for x using that qs(2) by (metis in_set_conv_nth)
  ultimately have pk: "page_ok kend x" if "x \<in> insert q D' \<union> (FP \<union> set qs)" for x using that by blast
  have fr: "frame (insert q D') ?m (km_mem s')"
    by (rule frame_trans [OF mv(1) r(7)]) (auto simp: D'_def)
  have disj: "insert q D' \<inter> (FP \<union> set qs) = {}" using q T' dj f by blast
  have ag': "agree ?m (km_mem s') (FP \<union> set qs)" by (rule frame_agree [OF fr _ disj]) (rule pk)
  have "agree m0 (km_mem s') FP" by (rule agree_trans [OF ag agree_mono [OF ag']]) simp
  moreover have "FP \<inter> (D' \<union> set fps' \<union> set (qs @ [q])) = {}"
  proof -
    have "set (qs @ [q]) = insert q (set qs)" by auto
    then show ?thesis using T' dj q f by blast
  qed
  moreover have "distinct (qs @ [q])" using dj(2) q(3) by simp
  moreover have "set (qs @ [q]) \<inter> (D' \<union> set fps') = {}"
  proof -
    have "set (qs @ [q]) = insert q (set qs)" by auto
    then show ?thesis using T' dj f r(8) by (simp add: D'_def [symmetric]) blast
  qed
  moreover have "same_page (km_mem s') q m0 (epage ?e)"
  proof -
    have "agree ?mq (km_mem s') {q}"
      by (rule frame_agree [OF r(7)]) (use pk r(8) in \<open>auto simp: D'_def\<close>)
    then have "same_page (km_mem s') q ?mq q" by (rule same_page_agree) simp
    moreover have "same_page ?m (epage ?e) m0 (epage ?e)" by (rule same_page_agree [OF ag eFP])
    ultimately show ?thesis using mv(2) same_page_trans by blast
  qed
  moreover have "same_page (km_mem s') (qs ! k) m0 (epage (Vp k))" if "k < ?j" for k
    using same_page_trans [OF same_page_agree [OF ag'] qs(3) [OF that]] that by auto
  ultimately have "copying kend m0 pd Tp Vp n d (qs @ [q]) s' fps' T' (V(?j := V2P q OR PTE_FLAGS ?e OR PTE_P))"
    using r(5) qs(1,2) q(1) unfolding copying_def FP_def [symmetric] D'_def [symmetric]
    by (simp add: nth_append less_Suc_eq del: set_append)
  then show ?thesis using run r(6) fr unfolding D'_def by blast
qed

lemma copyuvm_loop_ok:
  assumes at: "pgdir_at kend m0 pd Tp Vp" and n: "n \<le> 524288"
    and pp: "\<And>k. k < n \<Longrightarrow> present (Vp k) \<and> page_ok kend (epage (Vp k))"
    and c: "copying kend m0 pd Tp Vp n d qs s fps T V" "length qs \<le> n"
    and np: "\<And>k. length qs \<le> k \<Longrightarrow> k < n \<Longrightarrow> \<not> present (V k)"
    and len: "n - length qs + card (dirs (length qs) (n - length qs) - dom T) \<le> length fps"
  shows "\<exists>qs' s' fps' T' V'. copyuvm_loop kend pd d (map (\<lambda>i. of_nat (4096 * i)) [length qs..<n]) s = Inr (d, s') \<and>
    copying kend m0 pd Tp Vp n d qs' s' fps' T' V' \<and> length qs' = n \<and> (\<forall>k\<ge>n. V' k = V k) \<and>
    (\<exists>ps. fps = ps @ fps' \<and> set ps \<inter> set fps' = {} \<and> set qs' \<union> ran T' = set qs \<union> ran T \<union> set ps) \<and>
    frame (insert d (ran T') \<union> set qs') (km_mem s) (km_mem s')"
  using c np len
proof (induction "n - length qs" arbitrary: qs s fps T V)
  case 0
  then show ?case
    by (intro exI [of _ qs] exI [of _ s] exI [of _ fps] exI [of _ T] exI [of _ V]) (auto intro: exI [of _ "[]"])
next
  case (Suc x)
  let ?j = "length qs"
  have j: "?j < n" "x = n - Suc ?j" using Suc.hyps(2) by auto
  obtain q fps1 where f: "fps = q # fps1" using Suc.prems(4) j by (cases fps) auto
  have l1: "n - Suc ?j + card (dirs ?j (n - ?j) - dom T) \<le> length fps1" using Suc.prems(4) f j by simp
  note ne = dirs_need_page [OF _ j(1) l1]
  let ?V = "V(?j := V2P q OR PTE_FLAGS (Vp ?j) OR PTE_P)"
  obtain s1 fps2 T1 where r: "copyuvm_loop kend pd d (of_nat (4096 * ?j) # map (\<lambda>i. of_nat (4096 * i)) [Suc ?j..<n]) s =
        copyuvm_loop kend pd d (map (\<lambda>i. of_nat (4096 * i)) [Suc ?j..<n]) s1"
      "copying kend m0 pd Tp Vp n d (qs @ [q]) s1 fps2 T1 ?V"
      "grown fps1 T {?j div 1024} fps2 T1" "frame (insert q (insert d (ran T1))) (km_mem s) (km_mem s1)"
    using copying_step [OF Suc.prems(1) at j(1) _ _ _ _ Suc.prems(3) f ne,
        of "map (\<lambda>i. of_nat (4096 * i)) [Suc ?j..<n]"] pp j n by fastforce
  have l2: "n - Suc ?j + card (dirs (Suc ?j) (n - Suc ?j) - dom T1) \<le> length fps2"
    using card_dirs_step [OF r(3) j(1)] l1 by simp
  have "\<exists>qs' s' fps' T' V'. copyuvm_loop kend pd d (map (\<lambda>i. of_nat (4096 * i)) [length (qs @ [q])..<n]) s1 = Inr (d, s') \<and>
      copying kend m0 pd Tp Vp n d qs' s' fps' T' V' \<and> length qs' = n \<and> (\<forall>k\<ge>n. V' k = ?V k) \<and>
      (\<exists>ps. fps2 = ps @ fps' \<and> set ps \<inter> set fps' = {} \<and> set qs' \<union> ran T' = set (qs @ [q]) \<union> ran T1 \<union> set ps) \<and>
      frame (insert d (ran T') \<union> set qs') (km_mem s1) (km_mem s')"
    by (rule Suc.hyps(1) [OF _ r(2)]) (use j l2 Suc.prems(3) in auto)
  then obtain qs' s' fps' T' V' ps where i: "copyuvm_loop kend pd d (map (\<lambda>i. of_nat (4096 * i)) [Suc ?j..<n]) s1 = Inr (d, s')"
      "copying kend m0 pd Tp Vp n d qs' s' fps' T' V'" "length qs' = n" "\<forall>k\<ge>n. V' k = ?V k" "fps2 = ps @ fps'"
      "set ps \<inter> set fps' = {}" "set qs' \<union> ran T' = set (qs @ [q]) \<union> ran T1 \<union> set ps"
      "frame (insert d (ran T') \<union> set qs') (km_mem s1) (km_mem s')" by auto
  obtain ts where ts: "fps1 = ts @ fps2" "ran T1 = ran T \<union> set ts" using r(3) by (auto simp: grown_def)
  have run: "copyuvm_loop kend pd d (map (\<lambda>i. of_nat (4096 * i)) [?j..<n]) s = Inr (d, s')"
    using r(1) i(1) j(1) by (simp only: upt_conv_Cons list.map)
  have "distinct fps" using Suc.prems(1) aspaceD(7) by (auto simp: copying_def)
  then have "fps = (q # ts @ ps) @ fps'" "set (q # ts @ ps) \<inter> set fps' = {}" using f ts i(5) by auto
  moreover have "set qs' \<union> ran T' = set qs \<union> ran T \<union> set (q # ts @ ps)" using i(7) ts(2) by auto
  moreover have "frame (insert d (ran T') \<union> set qs') (km_mem s) (km_mem s')"
    by (rule frame_trans [OF r(4) i(8)]) (use i(7) in auto)
  moreover have "\<forall>k\<ge>n. V' k = V k" using i(4) j(1) by auto
  ultimately show ?case using run i(2,3) by blast
qed

section \<open>allocuvm\<close>

definition zero_page :: "mem \<Rightarrow> u32 \<Rightarrow> bool" where
  "zero_page m p \<longleftrightarrow> (\<forall>a. in_page p a \<longrightarrow> m a = 0)"

definition user_page :: "u32 \<Rightarrow> u32" where "user_page q = V2P q OR (PTE_W OR PTE_U) OR PTE_P"

lemma alloc_step:
  assumes sp: "aspace kend s (q # fps) pd T V" and k: "k < 1048576" "\<not> present (V k)"
    and len: "T (k div 1024) = None \<Longrightarrow> fps \<noteq> []"
  shows "\<exists>s' fps' T'. allocuvm_loop kend pd oldsz newsz (of_nat (4096 * k) # as) s = allocuvm_loop kend pd oldsz newsz as s' \<and>
    aspace kend s' fps' pd T' (V(k := user_page q)) \<and> grown fps T {k div 1024} fps' T' \<and>
    frame (insert q (insert pd (ran T'))) (km_mem s) (km_mem s') \<and> zero_page (km_mem s') q \<and>
    q \<notin> insert pd (ran T') \<union> set fps'"
proof -
  let ?mq = "memset (km_mem s) q 0 PGSIZE"
  have f0: "frame {q} (km_mem s) ?mq" by (simp add: frame_def memset_page)
  obtain s1 s' fps' T' where r: "kalloc s = (q, s1)" "q \<noteq> 0" "km_mem s1 = km_mem s"
      "mappages pd (of_nat (4096 * k)) PGSIZE (V2P q) (PTE_W OR PTE_U) (set_mem ?mq s1) = Inr (True, s')"
      "aspace kend s' fps' pd T' (V(k := user_page q))" "grown fps T {k div 1024} fps' T'"
      "frame (insert pd (ran T')) ?mq (km_mem s')" "q \<notin> insert pd (ran T') \<union> set fps'"
    using map_page [OF sp k len f0, of "PTE_W OR PTE_U"] unfolding user_page_def by blast
  have "allocuvm_loop kend pd oldsz newsz (of_nat (4096 * k) # as) s = allocuvm_loop kend pd oldsz newsz as s'"
    using r(1-4) by (simp del: of_nat_mult)
  moreover have "page_ok kend q" using aspaceD(6) [OF sp] by simp
  then have "agree ?mq (km_mem s') {q}"
    by (intro frame_agree [OF r(7), of _ kend]) (use r(8) aspaceD(5) [OF r(5)] in auto)
  then have "zero_page (km_mem s') q" by (simp add: zero_page_def agree_def memset_page)
  moreover have "frame (insert q (insert pd (ran T'))) (km_mem s) (km_mem s')"
    by (rule frame_trans [OF f0 r(7)]) auto
  ultimately show ?thesis using r(5,6,8) by blast
qed

lemma allocuvm_loop_ok:
  assumes "aspace kend s fps pd T V" "k \<le> n" "n \<le> 1048576" "\<And>i. k \<le> i \<Longrightarrow> i < n \<Longrightarrow> \<not> present (V i)"
    and "n - k + card (dirs k (n - k) - dom T) \<le> length fps"
  shows "\<exists>qs s' fps' T'. allocuvm_loop kend pd oldsz newsz (map (\<lambda>i. of_nat (4096 * i)) [k..<n]) s = Inr (newsz, s') \<and>
    aspace kend s' fps' pd T' (\<lambda>i. if k \<le> i \<and> i < n then user_page (qs ! (i - k)) else V i) \<and>
    length qs = n - k \<and> distinct qs \<and> set qs \<inter> (insert pd (ran T') \<union> set fps') = {} \<and>
    (\<exists>ps. fps = ps @ fps' \<and> set qs \<union> ran T' = ran T \<union> set ps) \<and>
    (\<forall>q\<in>set qs. page_ok kend q \<and> zero_page (km_mem s') q) \<and>
    frame (insert pd (ran T') \<union> set qs) (km_mem s) (km_mem s')"
  using assms
proof (induction "n - k" arbitrary: k s fps T V)
  case 0
  then have "(\<lambda>i. if k \<le> i \<and> i < n then user_page ([] ! (i - k)) else V i) = V" by (auto simp: fun_eq_iff)
  then show ?case using 0
    by (intro exI [of _ "[]"] exI [of _ s] exI [of _ fps] exI [of _ T]) auto
next
  case (Suc x)
  then have k: "k < n" by simp
  obtain q fps1 where f: "fps = q # fps1" using Suc.prems(5) k by (cases fps) auto
  have l1: "n - Suc k + card (dirs k (n - k) - dom T) \<le> length fps1" using Suc.prems(5) f k by simp
  obtain s1 fps2 T1 where r: "allocuvm_loop kend pd oldsz newsz (of_nat (4096 * k) # map (\<lambda>i. of_nat (4096 * i)) [Suc k..<n]) s =
        allocuvm_loop kend pd oldsz newsz (map (\<lambda>i. of_nat (4096 * i)) [Suc k..<n]) s1"
      "aspace kend s1 fps2 pd T1 (V(k := user_page q))" "grown fps1 T {k div 1024} fps2 T1"
      "frame (insert q (insert pd (ran T1))) (km_mem s) (km_mem s1)" "zero_page (km_mem s1) q"
      "q \<notin> insert pd (ran T1) \<union> set fps2"
    using alloc_step [OF Suc.prems(1) [unfolded f], of k oldsz newsz "map (\<lambda>i. of_nat (4096 * i)) [Suc k..<n]"]
      dirs_need_page [OF _ k l1] Suc.prems(3,4) k by fastforce
  have l2: "n - Suc k + card (dirs (Suc k) (n - Suc k) - dom T1) \<le> length fps2"
    using card_dirs_step [OF r(3) k] l1 by simp
  have "\<exists>qs s' fps' T'. allocuvm_loop kend pd oldsz newsz (map (\<lambda>i. of_nat (4096 * i)) [Suc k..<n]) s1 = Inr (newsz, s') \<and>
    aspace kend s' fps' pd T' (\<lambda>i. if Suc k \<le> i \<and> i < n then user_page (qs ! (i - Suc k)) else (V(k := user_page q)) i) \<and>
    length qs = n - Suc k \<and> distinct qs \<and> set qs \<inter> (insert pd (ran T') \<union> set fps') = {} \<and>
    (\<exists>ps. fps2 = ps @ fps' \<and> set qs \<union> ran T' = ran T1 \<union> set ps) \<and>
    (\<forall>q\<in>set qs. page_ok kend q \<and> zero_page (km_mem s') q) \<and>
    frame (insert pd (ran T') \<union> set qs) (km_mem s1) (km_mem s')"
    by (rule Suc.hyps(1) [OF _ r(2)]) (use Suc.hyps(2) k l2 Suc.prems(3,4) in auto)
  then obtain qs s' fps' T' ps where i: "allocuvm_loop kend pd oldsz newsz (map (\<lambda>i. of_nat (4096 * i)) [Suc k..<n]) s1 = Inr (newsz, s')"
      "aspace kend s' fps' pd T' (\<lambda>i. if Suc k \<le> i \<and> i < n then user_page (qs ! (i - Suc k)) else (V(k := user_page q)) i)"
      "length qs = n - Suc k" "distinct qs" "set qs \<inter> (insert pd (ran T') \<union> set fps') = {}"
      "fps2 = ps @ fps'" "set qs \<union> ran T' = ran T1 \<union> set ps"
      "\<forall>q\<in>set qs. page_ok kend q \<and> zero_page (km_mem s') q" "frame (insert pd (ran T') \<union> set qs) (km_mem s1) (km_mem s')"
    by blast
  obtain ts where ts: "fps1 = ts @ fps2" "ran T1 = ran T \<union> set ts" using r(3) by (auto simp: grown_def)
  have V: "(\<lambda>i. if Suc k \<le> i \<and> i < n then user_page (qs ! (i - Suc k)) else (V(k := user_page q)) i) =
      (\<lambda>i. if k \<le> i \<and> i < n then user_page ((q # qs) ! (i - k)) else V i)"
  proof
    fix i
    have "i - k = Suc (i - Suc k)" if "Suc k \<le> i" using that by (simp add: Suc_diff_Suc)
    then show "(if Suc k \<le> i \<and> i < n then user_page (qs ! (i - Suc k)) else (V(k := user_page q)) i) =
        (if k \<le> i \<and> i < n then user_page ((q # qs) ! (i - k)) else V i)"
      using k by (cases i k rule: linorder_cases) auto
  qed
  have q: "q \<notin> insert pd (ran T') \<union> set fps' \<union> set qs" using r(6) i(6,7) by auto
  have pk: "page_ok kend q" using aspaceD(6) [OF Suc.prems(1)] f by simp
  have "agree (km_mem s1) (km_mem s') {q}"
    by (rule frame_agree [OF i(9), of _ kend]) (use q pk i(8) aspaceD(5) [OF i(2)] in auto)
  then have z: "zero_page (km_mem s') q" using r(5) by (auto simp: zero_page_def agree_def)
  have run: "allocuvm_loop kend pd oldsz newsz (map (\<lambda>i. of_nat (4096 * i)) [k..<n]) s = Inr (newsz, s')"
    using r(1) i(1) k by (simp only: upt_conv_Cons list.map)
  have "frame (insert pd (ran T') \<union> set (q # qs)) (km_mem s) (km_mem s')"
    by (rule frame_trans [OF r(4) i(9)]) (use i(7) in auto)
  moreover have "fps = (q # ts @ ps) @ fps'" "set (q # qs) \<union> ran T' = ran T \<union> set (q # ts @ ps)"
    using f ts i(6,7) by auto
  moreover have "length (q # qs) = n - k" "distinct (q # qs)" "set (q # qs) \<inter> (insert pd (ran T') \<union> set fps') = {}"
    using i(3,4,5) q k by auto
  moreover have "\<forall>x\<in>set (q # qs). page_ok kend x \<and> zero_page (km_mem s') x" using i(8) pk z by simp
  ultimately show ?case using run i(2) unfolding V by blast
qed

section \<open>Freeing\<close>

lemma kfree_frame:
  assumes "kmem_inv kend s fps" "page_ok kend u" "u \<notin> set fps"
  shows "\<exists>s'. kfree kend u s = Inr s' \<and> kmem_inv kend s' (u # fps) \<and> frame {u} (km_mem s) (km_mem s')"
  using kfree_ok [OF assms] by (auto simp: frame_def)

lemma kfree_aspace:
  assumes "aspace kend s fps pd T V" "page_ok kend u" "u \<notin> insert pd (ran T) \<union> set fps"
  shows "\<exists>s'. kfree kend u s = Inr s' \<and> aspace kend s' (u # fps) pd T V \<and> frame {u} (km_mem s) (km_mem s')"
proof -
  obtain s' where s': "kfree kend u s = Inr s'" "kmem_inv kend s' (u # fps)" "frame {u} (km_mem s) (km_mem s')"
    using kfree_frame [OF aspaceD(1) [OF assms(1)] assms(2)] assms(3) by auto
  have "agree (km_mem s) (km_mem s') (insert pd (ran T))"
    by (rule frame_agree [OF s'(3)]) (use assms aspaceD(5) [OF assms(1)] in auto)
  then have "pgdir_at kend (km_mem s') pd T V" by (rule pgdir_at_agree [OF aspaceD(2) [OF assms(1)]])
  then show ?thesis using s' assms by (auto simp: aspace_def)
qed

text \<open>The user pages in a range of page numbers.\<close>

definition upages :: "(nat \<Rightarrow> u32) \<Rightarrow> nat \<Rightarrow> nat \<Rightarrow> u32 set" where
  "upages V k n = {epage (V i) |i. k \<le> i \<and> i < n \<and> present (V i)}"

definition upages_ok :: "u32 \<Rightarrow> (nat \<Rightarrow> u32) \<Rightarrow> nat \<Rightarrow> nat \<Rightarrow> u32 set \<Rightarrow> bool" where
  "upages_ok kend V k n P \<longleftrightarrow>
     (\<forall>p\<in>upages V k n. page_ok kend p) \<and> upages V k n \<inter> P = {} \<and>
     (\<forall>i j. k \<le> i \<and> i < j \<and> j < n \<and> present (V i) \<and> present (V j) \<longrightarrow> epage (V i) \<noteq> epage (V j))"

definition cleared :: "nat \<Rightarrow> nat \<Rightarrow> (nat \<Rightarrow> u32) \<Rightarrow> nat \<Rightarrow> u32" where
  "cleared k n V = (\<lambda>i. if k \<le> i \<and> i < n \<and> present (V i) then 0 else V i)"

lemma page_pa_nz: "page_ok kend p \<Longrightarrow> KERNBASE < kend \<Longrightarrow> p = epage e \<Longrightarrow> PTE_ADDR e \<noteq> 0"
  by (auto simp: page_ok_def epage_def P2V_def not_le [symmetric])

lemma dealloc_page_ok:
  assumes sp: "aspace kend s fps pd T V" and T: "T (k div 1024) = Some p" and kend: "KERNBASE < kend"
    and u: "present (V k) \<Longrightarrow> page_ok kend (epage (V k)) \<and> epage (V k) \<notin> insert pd (ran T) \<union> set fps"
    and k: "k < 1048576"
  shows "\<exists>s' ps. dealloc_page kend (p + of_nat (4 * (k mod 1024))) s = Inr s' \<and>
    aspace kend s' (ps @ fps) pd T (cleared k (Suc k) V) \<and> ps = (if present (V k) then [epage (V k)] else []) \<and>
    frame (set ps \<union> ran T) (km_mem s) (km_mem s')"
proof -
  let ?pte = "p + of_nat (4 * (k mod 1024))"
  have v: "ld32 (km_mem s) ?pte = V k"
    using pgdir_atD(2) [OF aspaceD(2) [OF sp] k] T by (simp add: entry_def)
  have nz: "?pte \<noteq> 0" by (rule entry_addr_nz) (use pgdir_atD(3) [OF aspaceD(2) [OF sp] T] in auto)
  show ?thesis
  proof (cases "present (V k)")
    case True
    then obtain s1 where s1: "kfree kend (epage (V k)) s = Inr s1" "aspace kend s1 (epage (V k) # fps) pd T V"
        "frame {epage (V k)} (km_mem s) (km_mem s1)"
      using kfree_aspace [OF sp] u by blast
    let ?s' = "set_mem (st32 (km_mem s1) ?pte 0) s1"
    have "cleared k (Suc k) V = V(k := 0)" using True by (auto simp: cleared_def fun_eq_iff)
    then have "aspace kend ?s' (epage (V k) # fps) pd T (cleared k (Suc k) V)"
      using set_pte(1) [OF s1(2) T refl, of 0] by simp
    moreover have "frame {p} (km_mem s1) (km_mem ?s')" using set_pte(2) [OF s1(2) T refl, of 0] by simp
    then have "frame ({epage (V k)} \<union> ran T) (km_mem s) (km_mem ?s')"
      by (rule frame_trans [OF s1(3)]) (use T in \<open>auto intro: ranI\<close>)
    moreover have "PTE_ADDR (V k) \<noteq> 0" using page_pa_nz [OF _ kend] u True by blast
    then have "dealloc_page kend ?pte s = Inr ?s'"
      using nz v True s1(1) by (simp add: dealloc_page_def present_def epage_def Let_def del: of_nat_mult)
    ultimately show ?thesis using True by (intro exI [of _ ?s'] exI [of _ "[epage (V k)]"]) simp
  next
    case False
    then have "cleared k (Suc k) V = V" by (auto simp: cleared_def fun_eq_iff less_Suc_eq)
    moreover have "dealloc_page kend ?pte s = Inr s"
      using v False by (simp add: dealloc_page_def present_def del: of_nat_mult)
    ultimately show ?thesis using sp False by (intro exI [of _ s] exI [of _ "[]"]) simp
  qed
qed

lemma dealloc_next_present: "pte \<noteq> 0 \<Longrightarrow> k + 1 < 1048576 \<Longrightarrow> dealloc_next pte (of_nat (4096 * k)) = of_nat (4096 * Suc k)"
  by (simp add: dealloc_next_def PGSIZE_def algebra_simps)

lemma dealloc_next_absent:
  assumes "k < 524288"
  shows "dealloc_next 0 (of_nat (4096 * k)) = of_nat (4096 * (1024 * Suc (k div 1024)))"
proof -
  have "PDX (of_nat (4096 * k)) = of_nat (k div 1024)"
  proof -
    have "unat (PDX (of_nat (4096 * k))) = k div 1024"
      using assms unfolding unat_PDX by (subst unat_of_nat_u32) (simp_all add: div_mult2_eq [of _ 4096 1024, simplified])
    then show ?thesis by (metis of_nat_unat_u32)
  qed
  then have "dealloc_next 0 (of_nat (4096 * k)) = push_bit 22 (of_nat (Suc (k div 1024)))"
    by (simp add: dealloc_next_def PGADDR_def add.commute)
  also have "\<dots> = of_nat (4096 * (1024 * Suc (k div 1024)))" by (simp add: push_bit_eq_mult algebra_simps)
  finally show ?thesis .
qed

lemma upages_split: "k \<le> j \<Longrightarrow> j \<le> n \<Longrightarrow> upages V k n = upages V k j \<union> upages V j n"
  by (auto simp: upages_def) (metis not_le_imp_less)

lemma upages_cleared: "j \<le> k' \<Longrightarrow> upages (cleared k j V) k' n = upages V k' n"
  unfolding upages_def by (intro Collect_cong ex_cong1) (auto simp: cleared_def)

lemma upages_ok_rest:
  assumes "upages_ok kend V k n P" "k \<le> j" "j \<le> n" "P' \<subseteq> P \<union> upages V k j"
  shows "upages_ok kend (cleared k j V) j n P'"
proof -
  have ok: "\<forall>p\<in>upages V k n. page_ok kend p" "upages V k n \<inter> P = {}" using assms(1) by (simp_all add: upages_ok_def)
  have inj: "\<And>i i'. k \<le> i \<Longrightarrow> i < i' \<Longrightarrow> i' < n \<Longrightarrow> present (V i) \<Longrightarrow> present (V i') \<Longrightarrow> epage (V i) \<noteq> epage (V i')"
    using assms(1) by (simp add: upages_ok_def)
  have c: "cleared k j V i = V i" if "j \<le> i" for i using that by (simp add: cleared_def)
  have sub: "upages V j n \<subseteq> upages V k n" using assms(2) by (auto simp: upages_def)
  have "upages V j n \<inter> upages V k j = {}"
  proof (rule ccontr)
    assume "upages V j n \<inter> upages V k j \<noteq> {}"
    then obtain i i' where "j \<le> i'" "i' < n" "present (V i')" "k \<le> i" "i < j" "present (V i)" "epage (V i') = epage (V i)"
      unfolding upages_def by blast
    then show False using inj [of i i'] by simp
  qed
  then have "upages V j n \<inter> P' = {}" using ok(2) sub assms(4) by blast
  moreover have "epage (cleared k j V i) \<noteq> epage (cleared k j V i')"
    if "j \<le> i" "i < i'" "i' < n" "present (cleared k j V i)" "present (cleared k j V i')" for i i'
    using that inj [of i i'] assms(2) c [of i] c [of i'] by simp
  ultimately show ?thesis
    unfolding upages_ok_def upages_cleared [OF order_refl] using ok(1) sub by blast
qed

lemma cleared_cleared: "k \<le> j \<Longrightarrow> j \<le> n \<Longrightarrow> cleared j n (cleared k j V) = cleared k n V"
  by (auto simp: cleared_def fun_eq_iff)

lemma absent_dir:
  assumes "pgdir_at kend m pd T V" "T (k div 1024) = None" "k \<le> i" "i < 1024 * Suc (k div 1024)" "k < 524288"
  shows "V i = 0"
proof -
  have "i div 1024 = k div 1024"
  proof (rule antisym)
    show "k div 1024 \<le> i div 1024" using assms(3) by (rule div_le_mono)
    show "i div 1024 \<le> k div 1024" using assms(4) by (simp add: less_mult_imp_div_less less_Suc_eq_le [symmetric] mult.commute)
  qed
  moreover have "i < 1048576" using assms(4,5) by (auto simp: less_mult_imp_div_less)
  ultimately show ?thesis using pgdir_atD(2) [OF assms(1), of i] assms(2) by simp
qed

definition npages :: "u32 \<Rightarrow> nat" where "npages sz = (unat sz + 4095) div 4096"

lemma below_npages: "k < 1048576 \<Longrightarrow> (of_nat (4096 * k) < sz) = (k < npages sz)"
proof -
  assume "k < 1048576"
  then have "unat (of_nat (4096 * k) :: u32) = 4096 * k" by (intro unat_of_nat_u32) simp
  then have "(of_nat (4096 * k) < sz) = (4096 * k < unat sz)" by (simp only: word_less_nat_alt)
  also have "\<dots> = (k < npages sz)" unfolding npages_def by (simp add: less_eq_div_iff_mult_less_eq Suc_le_eq [symmetric] mult.commute)
  finally show ?thesis .
qed

lemma page_less: "k < j \<Longrightarrow> j \<le> 524288 \<Longrightarrow> (of_nat (4096 * k) :: u32) < of_nat (4096 * j)"
  by (simp add: word_less_nat_alt unat_of_nat_u32 del: of_nat_mult)

lemma npages_le: "unat sz \<le> 0x80000000 \<Longrightarrow> npages sz \<le> 524288"
  by (simp add: npages_def)

lemma deallocuvm_loop_ok:
  assumes "aspace kend s fps pd T V" "KERNBASE < kend" "unat sz \<le> 0x80000000" "k \<le> 524288"
    and "upages_ok kend V k (npages sz) (insert pd (ran T) \<union> set fps)"
  shows "\<exists>s' ps. deallocuvm_loop kend pd (of_nat (4096 * k)) sz s = Inr s' \<and>
    aspace kend s' (ps @ fps) pd T (cleared k (npages sz) V) \<and> set ps = upages V k (npages sz) \<and>
    frame (set ps \<union> ran T) (km_mem s) (km_mem s')"
  using assms
proof (induction "npages sz - k" arbitrary: k s fps V rule: less_induct)
  case less
  let ?n = "npages sz" and ?a = "of_nat (4096 * k) :: u32"
  have n: "?n \<le> 524288" using less.prems(3) by (rule npages_le)
  have k: "k < 1048576" using less.prems(4) by simp
  have pn: "pno ?a = k" using k by (rule pno_of_nat)
  show ?case
  proof (cases "k < ?n")
    case False
    then have "deallocuvm_loop kend pd ?a sz s = Inr s"
      using below_npages [OF k, of sz] by (subst deallocuvm_loop.simps) simp
    moreover have "cleared k ?n V = V" "upages V k ?n = {}" using False by (auto simp: cleared_def upages_def fun_eq_iff)
    ultimately show ?thesis using less.prems(1) by (intro exI [of _ s] exI [of _ "[]"]) simp
  next
    case True
    obtain j s1 ps1 where j: "k < j" "j \<le> 524288"
        and r: "deallocuvm_loop kend pd ?a sz s = deallocuvm_loop kend pd (of_nat (4096 * j)) sz s1"
        and sp1: "aspace kend s1 (ps1 @ fps) pd T (cleared k (min j ?n) V)" "set ps1 = upages V k (min j ?n)"
        and fr1: "frame (set ps1 \<union> ran T) (km_mem s) (km_mem s1)"
    proof (cases "T (k div 1024)")
      case None
      let ?j = "1024 * Suc (k div 1024)"
      have kj: "k < ?j" "?j \<le> 524288" using True n by (auto simp: less_mult_imp_div_less)
      note w = walk_absent(1) [OF aspaceD(2) [OF less.prems(1)], of ?a, unfolded pn, OF None]
      have nx: "dealloc_next 0 ?a = of_nat (4096 * ?j)" by (rule dealloc_next_absent) (use True n in simp)
      moreover have "\<not> of_nat (4096 * ?j) \<le> ?a" using page_less [OF kj(1)] kj(2) by (simp only: not_le)
      ultimately have "deallocuvm_loop kend pd ?a sz s = deallocuvm_loop kend pd (of_nat (4096 * ?j)) sz s"
        using w below_npages [OF k, of sz] True
        by (subst deallocuvm_loop.simps) (simp add: dealloc_page_def del: of_nat_mult mult_Suc_right)
      moreover have "V i = 0" if "k \<le> i" "i < ?j" for i
        by (rule absent_dir [OF aspaceD(2) [OF less.prems(1)] None that]) (use True n in simp)
      then have "cleared k (min ?j ?n) V = V" "upages V k (min ?j ?n) = {}"
        by (auto simp: cleared_def upages_def fun_eq_iff)
      ultimately show ?thesis using that [of ?j s "[]"] kj less.prems(1) by simp
    next
      case (Some p)
      note w = walk_present(1) [OF aspaceD(2) [OF less.prems(1)], of ?a p False, unfolded pn, OF Some]
      have nz: "p + of_nat (4 * (k mod 1024)) \<noteq> 0"
        by (rule entry_addr_nz) (use pgdir_atD(3) [OF aspaceD(2) [OF less.prems(1)] Some] in auto)
      have "page_ok kend (epage (V k)) \<and> epage (V k) \<notin> insert pd (ran T) \<union> set fps" if "present (V k)"
      proof -
        have "epage (V k) \<in> upages V k ?n" using that True by (auto simp: upages_def)
        then show ?thesis using less.prems(5) by (auto simp: upages_ok_def)
      qed
      then obtain s1 ps where r: "dealloc_page kend (p + of_nat (4 * (k mod 1024))) s = Inr s1"
          "aspace kend s1 (ps @ fps) pd T (cleared k (Suc k) V)" "ps = (if present (V k) then [epage (V k)] else [])"
          "frame (set ps \<union> ran T) (km_mem s) (km_mem s1)"
        using dealloc_page_ok [OF less.prems(1) Some less.prems(2) _ k] by blast
      have "dealloc_next (p + of_nat (4 * (k mod 1024))) ?a = of_nat (4096 * Suc k)"
        by (rule dealloc_next_present [OF nz]) (use True n in simp)
      moreover have "\<not> of_nat (4096 * Suc k) \<le> ?a" using page_less [of k "Suc k"] True n by (simp only: not_le)
      ultimately have "deallocuvm_loop kend pd ?a sz s = deallocuvm_loop kend pd (of_nat (4096 * Suc k)) sz s1"
        using w below_npages [OF k, of sz] True r(1)
        by (subst deallocuvm_loop.simps) (simp del: of_nat_mult mult_Suc_right)
      moreover have "set ps = upages V k (Suc k)" unfolding r(3) upages_def by (auto simp: less_Suc_eq)
      moreover have "min (Suc k) ?n = Suc k" using True by simp
      ultimately show ?thesis using that [of "Suc k" s1 ps] r(2,4) True n by simp
    qed
    let ?V1 = "cleared k (min j ?n) V"
    have "upages_ok kend ?V1 j ?n (insert pd (ran T) \<union> set (ps1 @ fps))"
    proof (cases "j \<le> ?n")
      case True
      then have "min j ?n = j" by simp
      moreover have "insert pd (ran T) \<union> set (ps1 @ fps) \<subseteq> insert pd (ran T) \<union> set fps \<union> upages V k j"
        using sp1(2) True by auto
      ultimately show ?thesis using upages_ok_rest [OF less.prems(5) less_imp_le [OF j(1)] True] by metis
    qed (auto simp: upages_ok_def upages_def)
    then obtain s' ps where i: "deallocuvm_loop kend pd (of_nat (4096 * j)) sz s1 = Inr s'"
        "aspace kend s' (ps @ ps1 @ fps) pd T (cleared j ?n ?V1)" "set ps = upages ?V1 j ?n"
        "frame (set ps \<union> ran T) (km_mem s1) (km_mem s')"
      using less.hyps [OF _ sp1(1) less.prems(2,3) j(2)] j(1) True by fastforce
    have "cleared j ?n ?V1 = cleared k ?n V" using j(1) True by (auto simp: cleared_def fun_eq_iff)
    moreover have "upages ?V1 j ?n = upages V j ?n" by (rule upages_cleared) simp
    moreover have "upages V k (min j ?n) \<union> upages V j ?n = upages V k ?n"
    proof (cases "j \<le> ?n")
      case True
      then show ?thesis using upages_split [of k j ?n V] j(1) by simp
    qed (auto simp: upages_def)
    moreover have "frame (set (ps @ ps1) \<union> ran T) (km_mem s) (km_mem s')"
      by (rule frame_trans [OF fr1 i(4)]) auto
    ultimately show ?thesis using r i(1,2,3) sp1(2) by (intro exI [of _ s'] exI [of _ "ps @ ps1"]) auto
  qed
qed

lemma PGROUNDUP_page: "unat sz \<le> 0x80000000 \<Longrightarrow> PGROUNDUP sz = of_nat (4096 * npages sz)"
proof -
  assume h: "unat sz \<le> 0x80000000"
  then have u: "unat (sz + 4095) = unat sz + 4095" by (subst unat_add_u32) simp_all
  have "PGROUNDUP sz = PGROUNDDOWN (sz + 4095)" by (simp add: PGROUNDUP_def PGROUNDDOWN_def PGSIZE_def add.commute)
  then have "unat (PGROUNDUP sz) = 4096 * npages sz" by (simp only: unat_PGROUNDDOWN u npages_def)
  then show ?thesis by (metis of_nat_unat_u32)
qed

lemma deallocuvm_ok:
  assumes "aspace kend s fps pd T V" "KERNBASE < kend" "newsz < oldsz" "unat oldsz \<le> 0x80000000"
    and "upages_ok kend V (npages newsz) (npages oldsz) (insert pd (ran T) \<union> set fps)"
  shows "\<exists>s' ps. deallocuvm kend pd oldsz newsz s = Inr (newsz, s') \<and>
    aspace kend s' (ps @ fps) pd T (cleared (npages newsz) (npages oldsz) V) \<and>
    set ps = upages V (npages newsz) (npages oldsz) \<and> frame (set ps \<union> ran T) (km_mem s) (km_mem s')"
proof -
  have n: "unat newsz \<le> 0x80000000" using assms(3,4) by (simp add: word_less_nat_alt)
  then show ?thesis
    using deallocuvm_loop_ok [OF assms(1,2,4) npages_le [OF n] assms(5)] assms(3)
    by (auto simp: deallocuvm_def PGROUNDUP_page not_le simp del: of_nat_mult)
qed

lemma freevm_loop_ok:
  assumes "kmem_inv kend s fps" "page_ok kend pd" "pd \<notin> set fps" "j \<le> 1024"
    and "\<And>i. j \<le> i \<Longrightarrow> i < 1024 \<Longrightarrow> T i = (if present (entry (km_mem s) pd i) then Some (epage (entry (km_mem s) pd i)) else None)"
    and "\<And>i p. j \<le> i \<Longrightarrow> T i = Some p \<Longrightarrow> page_ok kend p \<and> p \<noteq> pd \<and> p \<notin> set fps"
    and "\<And>i i' p. j \<le> i \<Longrightarrow> T i = Some p \<Longrightarrow> T i' = Some p \<Longrightarrow> i = i'"
  shows "\<exists>s' ps. freevm_loop kend pd [j..<1024] s = Inr s' \<and> kmem_inv kend s' (ps @ fps) \<and>
    set ps = {p. \<exists>i. j \<le> i \<and> i < 1024 \<and> T i = Some p} \<and> frame (set ps) (km_mem s) (km_mem s')"
  using assms
proof (induction "1024 - j" arbitrary: j s fps)
  case 0
  then show ?case by (intro exI [of _ s] exI [of _ "[]"]) auto
next
  case (Suc x)
  let ?e = "entry (km_mem s) pd j"
  have j: "j < 1024" using Suc.hyps(2) by simp
  have S: "{p. \<exists>i. j \<le> i \<and> i < 1024 \<and> T i = Some p} = set_option (T j) \<union> {p. \<exists>i. Suc j \<le> i \<and> i < 1024 \<and> T i = Some p}"
  proof -
    have "j \<le> i \<longleftrightarrow> i = j \<or> Suc j \<le> i" for i by auto
    then show ?thesis using j by (auto simp only: mem_Collect_eq Un_iff elem_set)
  qed
  obtain s1 ps1 where r: "freevm_loop kend pd [j..<1024] s = freevm_loop kend pd [Suc j..<1024] s1"
      "kmem_inv kend s1 (ps1 @ fps)" "set ps1 = set_option (T j)" "frame (set ps1) (km_mem s) (km_mem s1)"
  proof (cases "T j")
    case None
    then have "\<not> present ?e" using Suc.prems(5) [of j] j by (auto split: if_splits)
    then have "freevm_loop kend pd [j..<1024] s = freevm_loop kend pd [Suc j..<1024] s"
      using j by (simp add: upt_conv_Cons entry_def present_def)
    then show ?thesis using that [of s "[]"] Suc.prems(1) None by simp
  next
    case (Some p)
    then have e: "present ?e" "epage ?e = p" using Suc.prems(5) [of j] j by (auto split: if_splits)
    obtain s1 where s1: "kfree kend p s = Inr s1" "kmem_inv kend s1 (p # fps)" "frame {p} (km_mem s) (km_mem s1)"
      using kfree_frame [OF Suc.prems(1)] Suc.prems(6) [of j p] Some by blast
    have "freevm_loop kend pd [j..<1024] s = freevm_loop kend pd [Suc j..<1024] s1"
      using j e s1(1) by (simp add: upt_conv_Cons entry_def present_def epage_def Let_def)
    then show ?thesis using that [of s1 "[p]"] s1 Some by simp
  qed
  have "agree (km_mem s) (km_mem s1) {pd}"
    by (rule frame_agree [OF r(4)]) (use r(3) Suc.prems(2,6) in auto)
  then have en: "entry (km_mem s1) pd i = entry (km_mem s) pd i" if "i < 1024" for i
    using that entry_agree by blast
  have "\<exists>s' ps. freevm_loop kend pd [Suc j..<1024] s1 = Inr s' \<and> kmem_inv kend s' (ps @ ps1 @ fps) \<and>
      set ps = {p. \<exists>i. Suc j \<le> i \<and> i < 1024 \<and> T i = Some p} \<and> frame (set ps) (km_mem s1) (km_mem s')"
  proof (rule Suc.hyps(1) [OF _ r(2) Suc.prems(2)])
    show "x = 1024 - Suc j" "Suc j \<le> 1024" using Suc.hyps(2) by simp_all
    show "pd \<notin> set (ps1 @ fps)" using r(3) Suc.prems(3,6) by auto
  next
    fix i
    assume i: "Suc j \<le> i"
    then show "T i = (if present (entry (km_mem s1) pd i) then Some (epage (entry (km_mem s1) pd i)) else None)" if "i < 1024"
      using that Suc.prems(5) [of i] en [OF that] by simp
    fix p
    assume p: "T i = Some p"
    have "p \<notin> set ps1" using r(3) Suc.prems(7) [of j p i] p i by auto
    then show "page_ok kend p \<and> p \<noteq> pd \<and> p \<notin> set (ps1 @ fps)" using Suc.prems(6) [of i p] i p by simp
    show "i = i'" if "T i' = Some p" for i' using Suc.prems(7) [of i p i'] i p that by simp
  qed
  then obtain s' ps where i: "freevm_loop kend pd [Suc j..<1024] s1 = Inr s'" "kmem_inv kend s' (ps @ ps1 @ fps)"
      "set ps = {p. \<exists>i. Suc j \<le> i \<and> i < 1024 \<and> T i = Some p}" "frame (set ps) (km_mem s1) (km_mem s')" by blast
  have "frame (set (ps @ ps1)) (km_mem s) (km_mem s')" by (rule frame_trans [OF r(4) i(4)]) auto
  then show ?case using r i unfolding S by (intro exI [of _ s'] exI [of _ "ps @ ps1"]) auto
qed

lemma freevm_ok:
  assumes sp: "aspace kend s fps pd T V" and kend: "KERNBASE < kend"
    and u: "upages_ok kend V 0 524288 (insert pd (ran T) \<union> set fps)"
  shows "\<exists>s' ps. freevm kend pd s = Inr s' \<and> kmem_inv kend s' (ps @ fps) \<and>
    set ps = insert pd (ran T) \<union> upages V 0 524288 \<and> frame (set ps) (km_mem s) (km_mem s')"
proof -
  have n: "npages 0 = 0" "npages KERNBASE = 524288" by (simp_all add: npages_def KERNBASE_def)
  obtain s1 ps1 where r: "deallocuvm kend pd KERNBASE 0 s = Inr (0, s1)"
      "aspace kend s1 (ps1 @ fps) pd T (cleared 0 524288 V)" "set ps1 = upages V 0 524288"
      "frame (set ps1 \<union> ran T) (km_mem s) (km_mem s1)"
    using deallocuvm_ok [OF sp kend, of 0 KERNBASE] u unfolding n by (auto simp: KERNBASE_def)
  note d = aspaceD [OF r(2)]
  have "\<exists>s' ps. freevm_loop kend pd [0..<1024] s1 = Inr s' \<and> kmem_inv kend s' (ps @ ps1 @ fps) \<and>
      set ps = {p. \<exists>i. 0 \<le> i \<and> i < 1024 \<and> T i = Some p} \<and> frame (set ps) (km_mem s1) (km_mem s')"
  proof (rule freevm_loop_ok [OF d(1) pgdir_atD(5) [OF d(2)] d(3)])
    fix i p
    assume "T i = Some p"
    then show "page_ok kend p \<and> p \<noteq> pd \<and> p \<notin> set (ps1 @ fps)" using pgdir_atD(3) [OF d(2)] d(4) by blast
    show "T i' = Some p \<Longrightarrow> i = i'" for i' using pgdir_atD(4) [OF d(2) \<open>T i = Some p\<close>] .
  qed (use pgdir_atD(1) [OF d(2)] in auto)
  then obtain s2 ps2 where r2: "freevm_loop kend pd [0..<1024] s1 = Inr s2" "kmem_inv kend s2 (ps2 @ ps1 @ fps)"
      "set ps2 = {p. \<exists>i. 0 \<le> i \<and> i < 1024 \<and> T i = Some p}" "frame (set ps2) (km_mem s1) (km_mem s2)" by blast
  have ps2: "set ps2 = ran T" unfolding r2(3) using pgdir_atD(3) [OF d(2)] by (auto simp: ran_def)
  have pd: "page_ok kend pd" "pd \<notin> set (ps2 @ ps1 @ fps)"
    using pgdir_atD(3,5) [OF d(2)] d(3) ps2 by (auto simp: ran_def)
  obtain s3 where r3: "kfree kend pd s2 = Inr s3" "kmem_inv kend s3 (pd # ps2 @ ps1 @ fps)" "frame {pd} (km_mem s2) (km_mem s3)"
    using kfree_frame [OF r2(2) pd] by blast
  have "pd \<noteq> 0" using pd(1) by auto
  then have run: "freevm kend pd s = Inr s3" using r(1) r2(1) r3(1) by (simp add: freevm_def NPDENTRIES_def)
  have "frame (set (pd # ps2 @ ps1)) (km_mem s) (km_mem s2)" by (rule frame_trans [OF r(4) r2(4)]) (use ps2 in auto)
  then have "frame (set (pd # ps2 @ ps1)) (km_mem s) (km_mem s3)" by (rule frame_trans [OF _ r3(3)]) auto
  then show ?thesis using run r3(2) ps2 r(3) by (intro exI [of _ s3] exI [of _ "pd # ps2 @ ps1"]) auto
qed

section \<open>Whole operations\<close>

lemma pages_below_upt:
  assumes "unat lim \<le> 0x80000000" "k \<le> 524288"
  shows "pages_below (of_nat (4096 * k)) lim = map (\<lambda>i. of_nat (4096 * i)) [k..<npages lim]"
proof -
  have u: "unat (of_nat (4096 * k) :: u32) = 4096 * k" using assms(2) by (intro unat_of_nat_u32) simp
  have c: "(unat lim - 4096 * k + 4095) div 4096 = npages lim - k"
    unfolding npages_def by (cases "4096 * k \<le> unat lim") (auto simp: div_less_iff_less_mult)
  have "map (\<lambda>i. of_nat (4096 * k) + of_nat i * PGSIZE) [0..<m] = map (\<lambda>i. of_nat (4096 * i)) [k..<k + m]" for m
    by (rule nth_equalityI) (simp_all add: PGSIZE_def algebra_simps)
  from this [of "npages lim - k"] show ?thesis
    unfolding pages_below_def u c by (cases "k \<le> npages lim") auto
qed

lemma flags_or_P: "present e \<Longrightarrow> PTE_FLAGS e OR PTE_P = PTE_FLAGS e"
  by (rule bit_word_eqI) (auto simp: present_bit PTE_FLAGS_def PTE_P_def bit_simps and_FFF [symmetric])

lemma copyuvm_ok:
  assumes inv: "kmem_inv kend s fps" and kd: "kdata_ok kdata" and sz: "unat sz \<le> 0x80000000"
    and at: "pgdir_at kend (km_mem s) pd T V" and dj: "insert pd (ran T) \<inter> set fps = {}"
    and pp: "\<And>k. k < npages sz \<Longrightarrow> present (V k) \<and> page_ok kend (epage (V k)) \<and> epage (V k) \<notin> set fps"
    and len: "65 + npages sz + card (dirs 0 (npages sz)) \<le> length fps"
  shows "\<exists>d s' fps' T' V' qs. copyuvm kend kdata pd sz s = Inr (d, s') \<and> d \<noteq> 0 \<and>
    copying kend (km_mem s) pd T V (npages sz) d qs s' fps' T' V' \<and> length qs = npages sz \<and>
    (\<forall>k\<ge>npages sz. V' k = kernV kdata k) \<and> set fps = set fps' \<union> insert d (ran T') \<union> set qs \<and>
    frame (insert d (ran T') \<union> set qs) (km_mem s) (km_mem s')"
proof -
  let ?n = "npages sz"
  have n: "?n \<le> 524288" using sz by (rule npages_le)
  obtain d s1 fps1 T1 ps where r: "setupkvm kend kdata s = Inr (d, s1)" "d \<noteq> 0" "aspace kend s1 fps1 d T1 (kernV kdata)"
      "dom T1 = kern_dirs" "fps = ps @ fps1" "set ps = insert d (ran T1)" "length ps = 65"
      "frame (insert d (ran T1)) (km_mem s) (km_mem s1)"
    using setupkvm_ok [OF inv kd] len by fastforce
  define FP where "FP = insert pd (ran T) \<union> (\<lambda>k. epage (V k)) ` {..<?n}"
  have FP: "FP \<inter> set fps = {}" using dj pp by (auto simp: FP_def)
  have pk: "page_ok kend x" if "x \<in> insert d (ran T1) \<union> FP" for x
    using that aspaceD(5) [OF r(3)] pgdir_atD(3,5) [OF at] pp by (auto simp: FP_def ran_def)
  have "insert d (ran T1) \<inter> FP = {}" using FP r(5,6) by auto
  then have "agree (km_mem s) (km_mem s1) FP" using frame_agree [OF r(8) pk] by blast
  moreover have "FP \<inter> (insert d (ran T1) \<union> set fps1 \<union> set []) = {}" using FP r(5,6) by auto
  ultimately have c: "copying kend (km_mem s) pd T V ?n d [] s1 fps1 T1 (kernV kdata)"
    using r(3) unfolding copying_def FP_def [symmetric] by simp
  have "card (dirs 0 ?n - dom T1) \<le> card (dirs 0 ?n)" by (rule card_mono) auto
  then have l: "?n - length [] + card (dirs (length []) (?n - length []) - dom T1) \<le> length fps1"
    using len r(5,7) by simp
  have np: "\<not> present (kernV kdata k)" if "k < ?n" for k using that n kernV_user [OF _ kd, of k] by simp
  obtain qs s' fps' T' V' ps' where i: "copyuvm_loop kend pd d (map (\<lambda>i. of_nat (4096 * i)) [0..<?n]) s1 = Inr (d, s')"
      "copying kend (km_mem s) pd T V ?n d qs s' fps' T' V'" "length qs = ?n" "\<forall>k\<ge>?n. V' k = kernV kdata k"
      "fps1 = ps' @ fps'" "set qs \<union> ran T' = ran T1 \<union> set ps'" "frame (insert d (ran T') \<union> set qs) (km_mem s1) (km_mem s')"
    using copyuvm_loop_ok [OF at n _ c _ _ l] pp np by auto
  have "pages_below 0 sz = map (\<lambda>i. of_nat (4096 * i)) [0..<?n]" using pages_below_upt [OF sz, of 0] by simp
  then have run: "copyuvm kend kdata pd sz s = Inr (d, s')" using r(1,2) i(1) by (simp add: copyuvm_def)
  have "frame (insert d (ran T') \<union> set qs) (km_mem s) (km_mem s')"
    by (rule frame_trans [OF r(8) i(7)]) (use i(6) in auto)
  moreover have "set fps = set fps' \<union> insert d (ran T') \<union> set qs" using r(5,6) i(5,6) by auto
  ultimately show ?thesis using run r(2) i(2,3,4) by blast
qed

lemma copying_upages:
  assumes c: "copying kend m0 pd T V n d qs s fps T' V'" and n: "length qs = n" and k: "\<forall>k\<ge>n. V' k = kernV kdata k"
    and kd: "kdata_ok kdata" "n \<le> 524288" and p: "\<forall>k<n. present (V k)"
  shows "upages V' 0 524288 = set qs" "upages_ok kend V' 0 524288 (insert d (ran T') \<union> set fps)"
    "\<And>k. k < n \<Longrightarrow> epage (V' k) = qs ! k \<and> PTE_FLAGS (V' k) = PTE_FLAGS (V k) \<and> present (V' k)"
proof -
  have q: "V' i = V2P (qs ! i) OR PTE_FLAGS (V i)" "page_ok kend (qs ! i)" if "i < n" for i
    using c n that flags_or_P [OF p [rule_format, OF that]] by (auto simp: copying_def or.assoc)
  show e: "epage (V' i) = qs ! i \<and> PTE_FLAGS (V' i) = PTE_FLAGS (V i) \<and> present (V' i)" if "i < n" for i
  proof -
    have "epage (V' i) = qs ! i" "PTE_FLAGS (V' i) = PTE_FLAGS (V i)"
      using q [OF that] epage_entry [OF _ PTE_FLAGS_small] PTE_FLAGS_or [OF V2P_aligned PTE_FLAGS_small] by auto
    moreover have "present (V' i)" using c n that by (simp add: copying_def or.assoc [symmetric] present_bit bit_or_iff PTE_P_def)
    ultimately show ?thesis by simp
  qed
  have b: "i < n" if "present (V' i)" "i < 524288" for i
  proof (rule ccontr)
    assume "\<not> i < n"
    then have "V' i = 0" using k kernV_user [OF _ kd(1), of i] that(2) by simp
    then show False using that(1) by simp
  qed
  have "i < 524288 \<and> present (V' i) \<longleftrightarrow> i < n" for i using e b kd(2) by (meson less_le_trans)
  then have "upages V' 0 524288 = {epage (V' i) |i. i < n}" by (simp add: upages_def)
  also have "\<dots> = {qs ! i |i. i < n}" using e by (intro Collect_cong ex_cong1) auto
  finally show u: "upages V' 0 524288 = set qs" using n by (simp add: set_conv_nth)
  have dq: "distinct qs" "set qs \<inter> (insert d (ran T') \<union> set fps) = {}" using c by (simp_all add: copying_def)
  have "epage (V' i) \<noteq> epage (V' j)" if "i < j" "j < 524288" "present (V' i)" "present (V' j)" for i j
    using that b [of i] b [of j] e [of i] e [of j] dq(1) n by (simp add: nth_eq_iff_index_eq)
  moreover have "\<forall>p\<in>set qs. page_ok kend p" using q(2) n by (auto simp: in_set_conv_nth)
  ultimately show "upages_ok kend V' 0 524288 (insert d (ran T') \<union> set fps)"
    using dq(2) unfolding upages_ok_def u by blast
qed

lemma allocuvm_ok:
  assumes sp: "aspace kend s fps pd T V" and sz: "oldsz \<le> newsz" "newsz < KERNBASE"
    and np: "\<And>k. npages oldsz \<le> k \<Longrightarrow> k < npages newsz \<Longrightarrow> \<not> present (V k)"
    and len: "npages newsz - npages oldsz + card (dirs (npages oldsz) (npages newsz - npages oldsz)) \<le> length fps"
  shows "\<exists>qs s' fps' T'. allocuvm kend pd oldsz newsz s = Inr (newsz, s') \<and>
    aspace kend s' fps' pd T'
      (\<lambda>k. if npages oldsz \<le> k \<and> k < npages newsz then user_page (qs ! (k - npages oldsz)) else V k) \<and>
    length qs = npages newsz - npages oldsz \<and> distinct qs \<and> set qs \<inter> (insert pd (ran T') \<union> set fps') = {} \<and>
    (\<exists>ps. fps = ps @ fps' \<and> set qs \<union> ran T' = ran T \<union> set ps) \<and>
    (\<forall>q\<in>set qs. page_ok kend q \<and> zero_page (km_mem s') q) \<and>
    frame (insert pd (ran T') \<union> set qs) (km_mem s) (km_mem s')"
proof -
  let ?k = "npages oldsz" and ?n = "npages newsz"
  have u: "unat newsz \<le> 0x80000000" "unat oldsz \<le> 0x80000000" "unat oldsz \<le> unat newsz"
    using sz by (simp_all add: KERNBASE_def word_less_nat_alt word_le_nat_alt)
  have kn: "?k \<le> ?n" using u(3) unfolding npages_def by (simp add: div_le_mono)
  have n: "?n \<le> 1048576" "?k \<le> 524288" using npages_le [OF u(1)] npages_le [OF u(2)] by simp_all
  have "card (dirs ?k (?n - ?k) - dom T) \<le> card (dirs ?k (?n - ?k))" by (rule card_mono) auto
  then have l: "?n - ?k + card (dirs ?k (?n - ?k) - dom T) \<le> length fps" using len by simp
  have "allocuvm kend pd oldsz newsz s = allocuvm_loop kend pd oldsz newsz (map (\<lambda>i. of_nat (4096 * i)) [?k..<?n]) s"
    using sz pages_below_upt [OF u(1) n(2)] unfolding allocuvm_def PGROUNDUP_page [OF u(2)]
    by (simp add: linorder_not_le [THEN iffD2] linorder_not_less [THEN iffD2] del: of_nat_mult)
  then show ?thesis using allocuvm_loop_ok [OF sp kn n(1) np l, of oldsz newsz] by simp
qed

section \<open>Properties\<close>

text \<open>
  A state to run the properties on: the pages between 2 MB and 4 MB freed at boot, and a process
  with one page of memory.
\<close>

lemma boot_pages: "\<exists>s fps. kmem_inv 0x80115000 s fps \<and> length fps = 512"
proof -
  define s0 :: kmem where "s0 = \<lparr>km_mem = \<lambda>_. 0, km_use_lock = False, km_freelist = 0\<rparr>"
  have "kmem_inv 0x80115000 s0 []" by (simp add: kmem_inv_def s0_def)
  moreover have "PGROUNDUP 0x80200000 = 0x80200000" by (simp add: PGROUNDUP_def PGSIZE_def)
  ultimately obtain s' where "kmem_inv 0x80115000 s' (rev (pages_from 0x80200000 512) @ [])"
    using freerange_ok [of "0x80115000" s0 "[]" "0x80200000" "0x80400000"]
    by (auto simp: KERNBASE_def)
  then show ?thesis by (intro exI [of _ s'] exI [of _ "rev (pages_from 0x80200000 512)"]) (simp add: pages_from_def)
qed

lemma one_page_process:
  "\<exists>s fps pd T V. aspace 0x80115000 s fps pd T V \<and> 440 \<le> length fps \<and> present (V 0) \<and> page_ok 0x80115000 (epage (V 0)) \<and>
     epage (V 0) \<notin> insert pd (ran T) \<union> set fps \<and> (\<forall>k. 0 < k \<and> k < 524288 \<longrightarrow> \<not> present (V k))"
proof -
  have kd: "kdata_ok 0x80108000" by (simp add: kdata_ok_def KERNLINK_def KERNBASE_def EXTMEM_def)
  obtain s0 fps0 where s0: "kmem_inv 0x80115000 s0 fps0" "length fps0 = 512" using boot_pages by blast
  obtain d s1 fps1 T1 ps where s1: "aspace 0x80115000 s1 fps1 d T1 (kernV 0x80108000)" "fps0 = ps @ fps1" "length ps = 65"
    using setupkvm_ok [OF s0(1) kd] s0(2) by auto
  have l1: "length fps1 = 447" using s1(2,3) s0(2) by simp
  then obtain q fps2 where f: "fps1 = q # fps2" by (cases fps1) auto
  have np: "\<not> present (kernV 0x80108000 k)" if "k < 524288" for k using kernV_user [OF _ kd, of k] that by simp
  have "fps2 \<noteq> []" using l1 f by auto
  then obtain s3 fps3 T3 where s3: "aspace 0x80115000 s3 fps3 d T3 ((kernV 0x80108000)(0 := user_page q))"
      "grown fps2 T1 {0 div 1024} fps3 T3" "q \<notin> insert d (ran T3) \<union> set fps3"
    using alloc_step [OF s1(1) [unfolded f], of 0] np by force
  have "card ({0 div 1024} - dom T1) \<le> card {0 div 1024 :: nat}" by (rule card_mono) auto
  then have l3: "440 \<le> length fps3" using s3(2) l1 f by (auto simp: grown_def)
  have "page_ok 0x80115000 q" using aspaceD(6) [OF s1(1)] f by simp
  then have e: "epage (user_page q) = q" "present (user_page q)" "page_ok 0x80115000 q"
    using epage_entry [of _ q "(PTE_W OR PTE_U) OR PTE_P"] by (auto simp: user_page_def or.assoc [symmetric] PTE_W_def PTE_U_def PTE_P_def present_bit bit_or_iff)
  show ?thesis
    by (rule exI [of _ s3], rule exI [of _ fps3], rule exI [of _ d], rule exI [of _ T3],
        rule exI [of _ "(kernV 0x80108000)(0 := user_page q)"]) (use s3 e l3 np in auto)
qed

lemma copying_parent:
  assumes c: "copying kend m0 pd T V n d qs s fps T' V'" and at: "pgdir_at kend m0 pd T V"
  shows "pgdir_at kend (km_mem s) pd T V" "\<And>k. k < n \<Longrightarrow> same_page (km_mem s) (epage (V k)) m0 (epage (V k))"
proof -
  have a: "agree m0 (km_mem s) (insert pd (ran T) \<union> (\<lambda>k. epage (V k)) ` {..<n})" using c by (simp add: copying_def)
  show "pgdir_at kend (km_mem s) pd T V" by (rule pgdir_at_agree [OF at]) (use a in \<open>auto simp: agree_def\<close>)
  show "same_page (km_mem s) (epage (V k)) m0 (epage (V k))" if "k < n" for k
    using same_page_agree [OF a] that by blast
qed

text \<open>
  C11. \<open>copyuvm\<close> gives a child of \<open>fork\<close> an address space of its own: with enough free pages it
  returns a directory in which every page of the parent below \<open>sz\<close> is mapped with the same flags
  to a page of the same contents, no two to the same, all of them taken from the free list; above
  \<open>sz\<close> there is the kernel's part and nothing else. The parent's tables and pages are as before.
\<close>
theorem copyuvm_isolated:
  assumes "kmem_inv kend s fps" "kdata_ok kdata" "unat sz \<le> 0x80000000"
    and "pgdir_at kend (km_mem s) pd T V" "insert pd (ran T) \<inter> set fps = {}"
    and "\<And>k. k < npages sz \<Longrightarrow> present (V k) \<and> page_ok kend (epage (V k)) \<and> epage (V k) \<notin> set fps"
    and "65 + npages sz + card (dirs 0 (npages sz)) \<le> length fps"
  shows "\<exists>d s' fps' T' V'. copyuvm kend kdata pd sz s = Inr (d, s') \<and> d \<noteq> 0 \<and> aspace kend s' fps' d T' V' \<and>
    (\<forall>k<npages sz. present (V' k) \<and> PTE_FLAGS (V' k) = PTE_FLAGS (V k) \<and>
       same_page (km_mem s') (epage (V' k)) (km_mem s) (epage (V k))) \<and>
    (\<forall>k\<ge>npages sz. V' k = kernV kdata k) \<and>
    upages_ok kend V' 0 524288 (insert d (ran T') \<union> set fps') \<and>
    set fps = set fps' \<union> insert d (ran T') \<union> upages V' 0 524288 \<and>
    pgdir_at kend (km_mem s') pd T V \<and>
    (\<forall>k<npages sz. same_page (km_mem s') (epage (V k)) (km_mem s) (epage (V k)))"
proof -
  obtain d s' fps' T' V' qs where r: "copyuvm kend kdata pd sz s = Inr (d, s')" "d \<noteq> 0"
      "copying kend (km_mem s) pd T V (npages sz) d qs s' fps' T' V'" "length qs = npages sz"
      "\<forall>k\<ge>npages sz. V' k = kernV kdata k" "set fps = set fps' \<union> insert d (ran T') \<union> set qs"
    using copyuvm_ok [OF assms] by blast
  have pr: "\<forall>k<npages sz. present (V k)" using assms(6) by blast
  note u = copying_upages [OF r(3-5) assms(2) npages_le [OF assms(3)] pr]
    and p = copying_parent [OF r(3) assms(4)]
  have "aspace kend s' fps' d T' V'" using r(3) by (simp add: copying_def)
  moreover have "present (V' k) \<and> PTE_FLAGS (V' k) = PTE_FLAGS (V k) \<and>
      same_page (km_mem s') (epage (V' k)) (km_mem s) (epage (V k))" if "k < npages sz" for k
    using u(3) [OF that] r(3,4) that by (simp add: copying_def)
  ultimately show ?thesis using r u(1,2) p by (intro exI [of _ d] exI [of _ s'] exI [of _ fps'] exI [of _ T'] exI [of _ V']) auto
qed

theorem copyuvm_isolated_witness:
  "\<exists>s pd T V d s' fps' T' V'. pgdir_at 0x80115000 (km_mem s) pd T V \<and> present (V 0) \<and> copyuvm 0x80115000 0x80108000 pd 4096 s = Inr (d, s') \<and> d \<noteq> 0 \<and>
     aspace 0x80115000 s' fps' d T' V' \<and> present (V' 0) \<and> PTE_FLAGS (V' 0) = PTE_FLAGS (V 0) \<and>
     same_page (km_mem s') (epage (V' 0)) (km_mem s) (epage (V 0))"
proof -
  obtain s fps pd T V where p: "aspace 0x80115000 s fps pd T V" "440 \<le> length fps" "present (V 0)"
      "page_ok 0x80115000 (epage (V 0))" "epage (V 0) \<notin> insert pd (ran T) \<union> set fps"
    using one_page_process by blast
  have n: "npages 4096 = 1" by (simp add: npages_def)
  have kd: "kdata_ok 0x80108000" by (simp add: kdata_ok_def KERNLINK_def KERNBASE_def EXTMEM_def)
  have c: "card (dirs 0 1) \<le> 1" by (simp add: dirs_def)
  have d: "kmem_inv 0x80115000 s fps" "pgdir_at 0x80115000 (km_mem s) pd T V" "insert pd (ran T) \<inter> set fps = {}"
    using p(1) by (simp_all add: aspace_def)
  have "\<exists>d s' fps' T' V'. copyuvm 0x80115000 0x80108000 pd 4096 s = Inr (d, s') \<and> d \<noteq> 0 \<and>
      aspace 0x80115000 s' fps' d T' V' \<and> present (V' 0) \<and> PTE_FLAGS (V' 0) = PTE_FLAGS (V 0) \<and>
      same_page (km_mem s') (epage (V' 0)) (km_mem s) (epage (V 0))"
    using copyuvm_isolated [OF d(1) kd _ d(2,3), of 4096] p c unfolding n by fastforce
  with p(3) d(2) show ?thesis by blast
qed

text \<open>
  C12. What \<open>copyuvm\<close> took, \<open>freevm\<close> gives back: after copying an address space and freeing the
  copy the free list holds exactly the pages it held before, and the parent still has its tables.
\<close>
theorem copyuvm_freevm_roundtrip:
  assumes "kmem_inv kend s fps" "kdata_ok kdata" "unat sz \<le> 0x80000000" "KERNBASE < kend"
    and "pgdir_at kend (km_mem s) pd T V" "insert pd (ran T) \<inter> set fps = {}"
    and "\<And>k. k < npages sz \<Longrightarrow> present (V k) \<and> page_ok kend (epage (V k)) \<and> epage (V k) \<notin> set fps"
    and "65 + npages sz + card (dirs 0 (npages sz)) \<le> length fps"
  shows "\<exists>d s' s'' fps''. copyuvm kend kdata pd sz s = Inr (d, s') \<and> freevm kend d s' = Inr s'' \<and>
    kmem_inv kend s'' fps'' \<and> set fps'' = set fps \<and> length fps'' = length fps \<and> pgdir_at kend (km_mem s'') pd T V"
proof -
  obtain d s' fps' T' V' qs where r: "copyuvm kend kdata pd sz s = Inr (d, s')" "d \<noteq> 0"
      "copying kend (km_mem s) pd T V (npages sz) d qs s' fps' T' V'" "length qs = npages sz"
      "\<forall>k\<ge>npages sz. V' k = kernV kdata k" "set fps = set fps' \<union> insert d (ran T') \<union> set qs"
    using copyuvm_ok [OF assms(1-3,5-8)] by blast
  have pr: "\<forall>k<npages sz. present (V k)" using assms(7) by blast
  note u = copying_upages [OF r(3-5) assms(2) npages_le [OF assms(3)] pr]
    and p = copying_parent [OF r(3) assms(5)]
  have sp: "aspace kend s' fps' d T' V'" using r(3) by (simp add: copying_def)
  obtain s'' ps where f: "freevm kend d s' = Inr s''" "kmem_inv kend s'' (ps @ fps')"
      "set ps = insert d (ran T') \<union> set qs" "frame (set ps) (km_mem s') (km_mem s'')"
    using freevm_ok [OF sp assms(4) u(2)] unfolding u(1) by blast
  have e: "set (ps @ fps') = set fps" using f(3) r(6) by auto
  moreover have "distinct (ps @ fps')" "distinct fps" using f(2) assms(1) by (simp_all only: kmem_inv_def)
  ultimately have "length (ps @ fps') = length fps" by (metis distinct_card)
  moreover have "agree (km_mem s') (km_mem s'') (insert pd (ran T))"
  proof (rule frame_agree [OF f(4)])
    show "page_ok kend x" if "x \<in> set ps \<union> insert pd (ran T)" for x
      using that f(2) pgdir_atD(3,5) [OF assms(5)] by (auto simp: kmem_inv_def ran_def)
    show "set ps \<inter> insert pd (ran T) = {}" using e assms(6) by auto
  qed
  ultimately show ?thesis using r(1) f(1,2) e pgdir_at_agree [OF p(1)] by blast
qed

theorem copyuvm_freevm_roundtrip_witness:
  "\<exists>s fps pd d s' s'' fps''. 440 \<le> length fps \<and> kmem_inv 0x80115000 s fps \<and>
     copyuvm 0x80115000 0x80108000 pd 4096 s = Inr (d, s') \<and> freevm 0x80115000 d s' = Inr s'' \<and>
     kmem_inv 0x80115000 s'' fps'' \<and> set fps'' = set fps \<and> length fps'' = length fps"
proof -
  obtain s fps pd T V where p: "aspace 0x80115000 s fps pd T V" "440 \<le> length fps" "present (V 0)"
      "page_ok 0x80115000 (epage (V 0))" "epage (V 0) \<notin> insert pd (ran T) \<union> set fps"
    using one_page_process by blast
  have n: "npages 4096 = 1" by (simp add: npages_def)
  have kd: "kdata_ok 0x80108000" by (simp add: kdata_ok_def KERNLINK_def KERNBASE_def EXTMEM_def)
  have k: "KERNBASE < 0x80115000" by (simp add: KERNBASE_def)
  have c: "card (dirs 0 1) \<le> 1" by (simp add: dirs_def)
  have d: "kmem_inv 0x80115000 s fps" "pgdir_at 0x80115000 (km_mem s) pd T V" "insert pd (ran T) \<inter> set fps = {}"
    using p(1) by (simp_all add: aspace_def)
  have "\<exists>d s' s'' fps''. copyuvm 0x80115000 0x80108000 pd 4096 s = Inr (d, s') \<and> freevm 0x80115000 d s' = Inr s'' \<and>
      kmem_inv 0x80115000 s'' fps'' \<and> set fps'' = set fps \<and> length fps'' = length fps"
    using copyuvm_freevm_roundtrip [OF d(1) kd _ k d(2,3), of 4096] p c unfolding n by fastforce
  then show ?thesis using p(2) d(1) by blast
qed

end
