(* ===== verification/Xv6_Sysfile.thy ===== *)
theory Xv6_Sysfile
  imports Xv6_File Xv6_Vm
begin

text \<open>
  System call arguments (\<open>syscall.c\<close>) and the file-system calls (\<open>sysfile.c\<close> without
  \<open>sys_exec\<close>). The state is the calling process and the kernel state behind the file calls;
  user memory is what the page table of the process maps. A call gives the value of \<open>%eax\<close> and
  the next state.
\<close>

section \<open>Fetching arguments\<close>

type_synonym umem = "u32 \<Rightarrow> u8"

record 'd cst =
  c_proc :: proc
  c_k :: "'d kst"

text \<open>
  The kernel address behind a user address of the loaded page table. All addresses below
  \<open>p_sz\<close> are mapped, those of the guard page of the stack for the kernel only.
\<close>

definition ukaddr :: "u32 \<Rightarrow> mem \<Rightarrow> u32 \<Rightarrow> u32" where
  "ukaddr pgdir m va =
     (let pgtab = P2V (PTE_ADDR (ld32 m (pgdir + 4 * PDX va)))
      in P2V (PTE_ADDR (ld32 m (pgtab + 4 * PTX va))) + (va AND 0xFFF))"

definition c_um :: "'d cst \<Rightarrow> umem" where
  "c_um c va = (let m = km_mem (k_kmem (c_k c)) in m (ukaddr (p_pgdir (c_proc c)) m va))"

fun um_store :: "u32 \<Rightarrow> u32 \<Rightarrow> u8 list \<Rightarrow> mem \<Rightarrow> mem" where
  "um_store pgdir a [] m = m"
| "um_store pgdir a (b # bs) m = um_store pgdir (a + 1) bs (m(ukaddr pgdir m a := b))"

definition c_store :: "u32 \<Rightarrow> u8 list \<Rightarrow> 'd cst \<Rightarrow> 'd cst" where
  "c_store a bs c =
     (let km = k_kmem (c_k c)
      in c\<lparr>c_k := (c_k c)\<lparr>k_kmem := km\<lparr>km_mem := um_store (p_pgdir (c_proc c)) a bs (km_mem km)\<rparr>\<rparr>\<rparr>)"

definition um_ld32 :: "umem \<Rightarrow> u32 \<Rightarrow> u32" where
  "um_ld32 um a = dec32 [um a, um (a + 1), um (a + 2), um (a + 3)]"

definition um_load :: "umem \<Rightarrow> u32 \<Rightarrow> nat \<Rightarrow> u8 list" where
  "um_load um a n = map (\<lambda>i. um (a + of_nat i)) [0..<n]"

definition fetchint :: "proc \<Rightarrow> umem \<Rightarrow> u32 \<Rightarrow> u32 option" where
  "fetchint p um addr = (if addr \<ge> p_sz p \<or> addr + 4 > p_sz p then None else Some (um_ld32 um addr))"

text \<open>The loop from \<open>s\<close> to \<open>ep\<close>: the length of the string.\<close>

fun fetchstr_loop :: "umem \<Rightarrow> u32 \<Rightarrow> nat \<Rightarrow> nat \<Rightarrow> nat option" where
  "fetchstr_loop um s i 0 = None"
| "fetchstr_loop um s i (Suc n) = (if um (s + of_nat i) = 0 then Some i else fetchstr_loop um s (Suc i) n)"

text \<open>The pointer, the length and the string it points to.\<close>

definition fetchstr :: "proc \<Rightarrow> umem \<Rightarrow> u32 \<Rightarrow> u8 list option" where
  "fetchstr p um addr =
     (if addr \<ge> p_sz p then None
      else case fetchstr_loop um addr 0 (unat (p_sz p) - unat addr) of
             None \<Rightarrow> None
           | Some n \<Rightarrow> Some (um_load um addr n))"

definition argint :: "proc \<Rightarrow> umem \<Rightarrow> nat \<Rightarrow> u32 option" where
  "argint p um n = fetchint p um (tf_esp (p_tf p) + 4 + 4 * of_nat n)"

definition argptr :: "proc \<Rightarrow> umem \<Rightarrow> nat \<Rightarrow> u32 \<Rightarrow> u32 option" where
  "argptr p um n sz =
     (case argint p um n of
        None \<Rightarrow> None
      | Some i \<Rightarrow> if sint sz < 0 \<or> i \<ge> p_sz p \<or> i + sz > p_sz p then None else Some i)"

definition argstr :: "proc \<Rightarrow> umem \<Rightarrow> nat \<Rightarrow> u8 list option" where
  "argstr p um n = (case argint p um n of None \<Rightarrow> None | Some addr \<Rightarrow> fetchstr p um addr)"

section \<open>File descriptors\<close>

definition argfd :: "proc \<Rightarrow> umem \<Rightarrow> nat \<Rightarrow> (nat \<times> nat) option" where
  "argfd p um n =
     (case argint p um n of
        None \<Rightarrow> None
      | Some fd \<Rightarrow>
          if sint fd < 0 \<or> sint fd \<ge> int NOFILE then None
          else map_option (\<lambda>f. (unat fd, f)) (p_ofile p ! unat fd))"

definition fdalloc :: "nat \<Rightarrow> proc \<Rightarrow> (nat \<times> proc) option" where
  "fdalloc f p =
     map_option (\<lambda>fd. (fd, p\<lparr>p_ofile := (p_ofile p)[fd := Some f]\<rparr>)) (find (\<lambda>fd. p_ofile p ! fd = None) [0..<NOFILE])"

text \<open>The value -1, and how a call of the kernel state is run inside a system call.\<close>

abbreviation neg1 :: u32 where "neg1 \<equiv> - 1"

definition lift_k :: "('d kst \<Rightarrow> 'd kst result) \<Rightarrow> 'd cst \<Rightarrow> 'd cst result" where
  "lift_k f c = andthen (f (c_k c)) (\<lambda>k. Inr (c\<lparr>c_k := k\<rparr>))"

definition lift_fs :: "('d fsys \<Rightarrow> ('a \<times> 'd fsys) result) \<Rightarrow> 'd cst \<Rightarrow> ('a \<times> 'd cst) result" where
  "lift_fs f c = andthen (fs_do f (c_k c)) (\<lambda>(r, k). Inr (r, c\<lparr>c_k := k\<rparr>))"

definition sys_dup :: "'d cst \<Rightarrow> (u32 \<times> 'd cst) result" where
  "sys_dup c =
     (case argfd (c_proc c) (c_um c) 0 of
        None \<Rightarrow> Inr (neg1, c)
      | Some (_, f) \<Rightarrow>
          (case fdalloc f (c_proc c) of
             None \<Rightarrow> Inr (neg1, c)
           | Some (fd, p) \<Rightarrow> andthen (lift_k (filedup f) (c\<lparr>c_proc := p\<rparr>)) (\<lambda>c. Inr (of_nat fd, c))))"

definition sys_read :: "'d devsw \<Rightarrow> 'd cst \<Rightarrow> (u32 \<times> 'd cst) result" where
  "sys_read dv c =
     (let p = c_proc c; um = c_um c
      in case (argfd p um 0, argint p um 2) of
           (Some (_, f), Some n) \<Rightarrow>
             (case argptr p um 1 n of
                None \<Rightarrow> Inr (neg1, c)
              | Some a \<Rightarrow>
                  andthen (fileread (p_pid p) (p_killed p) dv f n (c_k c)) (\<lambda>(r, k).
                    case r of
                      None \<Rightarrow> Inr (neg1, c\<lparr>c_k := k\<rparr>)
                    | Some bs \<Rightarrow> Inr (of_nat (length bs), c_store a bs (c\<lparr>c_k := k\<rparr>))))
         | _ \<Rightarrow> Inr (neg1, c))"

definition sys_write :: "'d devsw \<Rightarrow> 'd cst \<Rightarrow> (u32 \<times> 'd cst) result" where
  "sys_write dv c =
     (let p = c_proc c; um = c_um c
      in case (argfd p um 0, argint p um 2) of
           (Some (_, f), Some n) \<Rightarrow>
             (case argptr p um 1 n of
                None \<Rightarrow> Inr (neg1, c)
              | Some a \<Rightarrow>
                  andthen (filewrite (p_pid p) (p_killed p) dv f (um_load um a (unat n)) (c_k c)) (\<lambda>(r, k).
                    Inr (case r of None \<Rightarrow> neg1 | Some m \<Rightarrow> of_nat m, c\<lparr>c_k := k\<rparr>)))
         | _ \<Rightarrow> Inr (neg1, c))"

definition sys_close :: "u32 \<Rightarrow> 'd cst \<Rightarrow> (u32 \<times> 'd cst) result" where
  "sys_close kend c =
     (case argfd (c_proc c) (c_um c) 0 of
        None \<Rightarrow> Inr (neg1, c)
      | Some (fd, f) \<Rightarrow>
          let c = c\<lparr>c_proc := (c_proc c)\<lparr>p_ofile := (p_ofile (c_proc c))[fd := None]\<rparr>\<rparr>
          in andthen (lift_k (fileclose (p_pid (c_proc c)) kend f) c) (\<lambda>c. Inr (0, c)))"

text \<open>The fields of \<open>struct stat\<close> at their offsets; the padding is not written.\<close>

definition store_stat :: "u32 \<Rightarrow> stat \<Rightarrow> 'd cst \<Rightarrow> 'd cst" where
  "store_stat a st c =
     c_store (a + 16) (enc32 (st_size st)) (c_store (a + 12) (enc16 (st_nlink st))
       (c_store (a + 8) (enc32 (st_ino st)) (c_store (a + 4) (enc32 (st_dev st))
         (c_store a (enc16 (st_type st)) c))))"

definition sys_fstat :: "'d cst \<Rightarrow> (u32 \<times> 'd cst) result" where
  "sys_fstat c =
     (let p = c_proc c; um = c_um c
      in case (argfd p um 0, argptr p um 1 20) of
           (Some (_, f), Some a) \<Rightarrow>
             andthen (filestat (p_pid p) f (c_k c)) (\<lambda>(r, k).
               case r of
                 None \<Rightarrow> Inr (neg1, c\<lparr>c_k := k\<rparr>)
               | Some st \<Rightarrow> Inr (0, store_stat a st (c\<lparr>c_k := k\<rparr>)))
         | _ \<Rightarrow> Inr (neg1, c))"

section \<open>Paths\<close>

text \<open>The current directory, which every process that makes system calls has.\<close>

definition cwd_of :: "proc \<Rightarrow> nat result" where
  "cwd_of p = (case p_cwd p of None \<Rightarrow> Inl (Undefined ''null cwd'') | Some i \<Rightarrow> Inr i)"

definition add_nlink :: "u16 \<Rightarrow> nat \<Rightarrow> 'd fsys \<Rightarrow> 'd fsys" where
  "add_nlink n i s = upd_di i (\<lambda>d. d\<lparr>di_nlink := di_nlink d + n\<rparr>) s"

text \<open>The label \<open>bad\<close> of \<open>sys_link\<close>.\<close>

definition link_bad :: "int \<Rightarrow> nat \<Rightarrow> 'd fsys \<Rightarrow> (u32 \<times> 'd fsys) result" where
  "link_bad pid ip s =
     andthen (ilock pid ip s) (\<lambda>s.
     andthen (iupdate ip (add_nlink (- 1) ip s)) (\<lambda>s.
     andthen (iunlockput pid ip s) (\<lambda>s. Inr (neg1, s))))"

definition link_op :: "int \<Rightarrow> nat \<Rightarrow> 'd devsw \<Rightarrow> u8 list \<Rightarrow> u8 list \<Rightarrow> 'd fsys \<Rightarrow> (u32 \<times> 'd fsys) result" where
  "link_op pid cwd dv old new s =
     andthen (namei pid cwd dv old s) (\<lambda>(r, s).
       case r of
         None \<Rightarrow> Inr (neg1, s)
       | Some ip \<Rightarrow>
           andthen (ilock pid ip s) (\<lambda>s.
             if di_type (di_of s ip) = T_DIR
             then andthen (iunlockput pid ip s) (\<lambda>s. Inr (neg1, s))
             else andthen (iupdate ip (add_nlink 1 ip s)) (\<lambda>s.
                  andthen (iunlock pid ip s) (\<lambda>s.
                  andthen (nameiparent pid cwd dv new s) (\<lambda>(r, s).
                    case r of
                      None \<Rightarrow> link_bad pid ip s
                    | Some (dp, name) \<Rightarrow>
                        andthen (ilock pid dp s) (\<lambda>s.
                        andthen (if i_dev (inode_of s dp) \<noteq> i_dev (inode_of s ip) then Inr (- 1, s)
                                 else dirlink pid dv dp name (i_inum (inode_of s ip)) s) (\<lambda>(r, s).
                        andthen (iunlockput pid dp s) (\<lambda>s.
                          if r < 0 then link_bad pid ip s
                          else andthen (iput pid ip s) (\<lambda>s. Inr (0, s))))))))))"

definition sys_link :: "'d devsw \<Rightarrow> 'd cst \<Rightarrow> (u32 \<times> 'd cst) result" where
  "sys_link dv c =
     (let p = c_proc c; um = c_um c
      in case (argstr p um 0, argstr p um 1) of
           (Some old, Some new) \<Rightarrow>
             andthen (lift_k k_begin c) (\<lambda>c.
             andthen (cwd_of p) (\<lambda>cwd.
             andthen (lift_fs (link_op (p_pid p) cwd dv old new) c) (\<lambda>(r, c).
             andthen (lift_k k_end c) (\<lambda>c. Inr (r, c)))))
         | _ \<Rightarrow> Inr (neg1, c))"

fun isdirempty_loop :: "'d devsw \<Rightarrow> nat \<Rightarrow> nat list \<Rightarrow> 'd fsys \<Rightarrow> (bool \<times> 'd fsys) result" where
  "isdirempty_loop dv dp [] s = Inr (True, s)"
| "isdirempty_loop dv dp (off # offs) s =
     andthen (readi dv dp (of_nat off) (of_nat sizeof_dirent) s) (\<lambda>(r, s).
       case r of
         None \<Rightarrow> Inl (Panic ''isdirempty: readi'')
       | Some de \<Rightarrow>
           if length de \<noteq> sizeof_dirent then Inl (Panic ''isdirempty: readi'')
           else if de_inum de \<noteq> 0 then Inr (False, s)
           else isdirempty_loop dv dp offs s)"

definition isdirempty :: "'d devsw \<Rightarrow> nat \<Rightarrow> 'd fsys \<Rightarrow> (bool \<times> 'd fsys) result" where
  "isdirempty dv dp s = isdirempty_loop dv dp (drop 2 (dir_offs (di_size (di_of s dp)))) s"

definition dot :: u8 where "dot = 46"

definition unlink_bad :: "int \<Rightarrow> nat \<Rightarrow> 'd fsys \<Rightarrow> (u32 \<times> 'd fsys) result" where
  "unlink_bad pid dp s = andthen (iunlockput pid dp s) (\<lambda>s. Inr (neg1, s))"

text \<open>From the write of the empty entry to the end.\<close>

definition unlink_entry :: "int \<Rightarrow> 'd devsw \<Rightarrow> nat \<Rightarrow> nat \<Rightarrow> nat \<Rightarrow> 'd fsys \<Rightarrow> (u32 \<times> 'd fsys) result" where
  "unlink_entry pid dv dp ip off s =
     andthen (writei dv dp (replicate sizeof_dirent 0) (of_nat off) s) (\<lambda>(w, s).
       if w \<noteq> Some sizeof_dirent then Inl (Panic ''unlink: writei'')
       else andthen (if di_type (di_of s ip) = T_DIR then iupdate dp (add_nlink (- 1) dp s) else Inr s) (\<lambda>s.
            andthen (iunlockput pid dp s) (\<lambda>s.
            andthen (iupdate ip (add_nlink (- 1) ip s)) (\<lambda>s.
            andthen (iunlockput pid ip s) (\<lambda>s. Inr (0, s))))))"

definition unlink_op :: "int \<Rightarrow> nat \<Rightarrow> 'd devsw \<Rightarrow> u8 list \<Rightarrow> 'd fsys \<Rightarrow> (u32 \<times> 'd fsys) result" where
  "unlink_op pid cwd dv path s =
     andthen (nameiparent pid cwd dv path s) (\<lambda>(r, s).
       case r of
         None \<Rightarrow> Inr (neg1, s)
       | Some (dp, name) \<Rightarrow>
           andthen (ilock pid dp s) (\<lambda>s.
             if namecmp name [dot] = 0 \<or> namecmp name [dot, dot] = 0 then unlink_bad pid dp s
             else andthen (dirlookup dv dp name s) (\<lambda>(r, s).
               case r of
                 None \<Rightarrow> unlink_bad pid dp s
               | Some (ip, off) \<Rightarrow>
                   andthen (ilock pid ip s) (\<lambda>s.
                     if sint (di_nlink (di_of s ip)) < 1 then Inl (Panic ''unlink: nlink < 1'')
                     else andthen (if di_type (di_of s ip) = T_DIR then isdirempty dv ip s else Inr (True, s)) (\<lambda>(e, s).
                       if \<not> e then andthen (iunlockput pid ip s) (unlink_bad pid dp)
                       else unlink_entry pid dv dp ip off s)))))"

definition sys_unlink :: "'d devsw \<Rightarrow> 'd cst \<Rightarrow> (u32 \<times> 'd cst) result" where
  "sys_unlink dv c =
     (let p = c_proc c
      in case argstr p (c_um c) 0 of
           None \<Rightarrow> Inr (neg1, c)
         | Some path \<Rightarrow>
             andthen (lift_k k_begin c) (\<lambda>c.
             andthen (cwd_of p) (\<lambda>cwd.
             andthen (lift_fs (unlink_op (p_pid p) cwd dv path) c) (\<lambda>(r, c).
             andthen (lift_k k_end c) (\<lambda>c. Inr (r, c))))))"

text \<open>A new inode linked into the directory \<open>dp\<close>, which is locked.\<close>

definition create_new ::
    "int \<Rightarrow> 'd devsw \<Rightarrow> nat \<Rightarrow> u8 list \<Rightarrow> u16 \<Rightarrow> u16 \<Rightarrow> u16 \<Rightarrow> 'd fsys \<Rightarrow> (nat option \<times> 'd fsys) result" where
  "create_new pid dv dp name ty major minor s =
     andthen (ialloc (i_dev (inode_of s dp)) ty s) (\<lambda>(ip, s).
     andthen (ilock pid ip s) (\<lambda>s.
     andthen (iupdate ip (upd_di ip (\<lambda>d. d\<lparr>di_major := major, di_minor := minor, di_nlink := 1\<rparr>) s)) (\<lambda>s.
     andthen (if ty = T_DIR
              then andthen (iupdate dp (add_nlink 1 dp s)) (\<lambda>s.
                   andthen (dirlink pid dv ip [dot] (i_inum (inode_of s ip)) s) (\<lambda>(r, s).
                     if r < 0 then Inl (Panic ''create dots'')
                     else andthen (dirlink pid dv ip [dot, dot] (i_inum (inode_of s dp)) s) (\<lambda>(r, s).
                       if r < 0 then Inl (Panic ''create dots'') else Inr s)))
              else Inr s) (\<lambda>s.
     andthen (dirlink pid dv dp name (i_inum (inode_of s ip)) s) (\<lambda>(r, s).
       if r < 0 then Inl (Panic ''create: dirlink'')
       else andthen (iunlockput pid dp s) (\<lambda>s. Inr (Some ip, s)))))))"

definition create ::
    "int \<Rightarrow> nat \<Rightarrow> 'd devsw \<Rightarrow> u8 list \<Rightarrow> u16 \<Rightarrow> u16 \<Rightarrow> u16 \<Rightarrow> 'd fsys \<Rightarrow> (nat option \<times> 'd fsys) result" where
  "create pid cwd dv path ty major minor s =
     andthen (nameiparent pid cwd dv path s) (\<lambda>(r, s).
       case r of
         None \<Rightarrow> Inr (None, s)
       | Some (dp, name) \<Rightarrow>
           andthen (ilock pid dp s) (\<lambda>s.
           andthen (dirlookup dv dp name s) (\<lambda>(r, s).
             case r of
               Some (ip, _) \<Rightarrow>
                 andthen (iunlockput pid dp s) (\<lambda>s.
                 andthen (ilock pid ip s) (\<lambda>s.
                   if ty = T_FILE \<and> di_type (di_of s ip) = T_FILE then Inr (Some ip, s)
                   else andthen (iunlockput pid ip s) (\<lambda>s. Inr (None, s))))
             | None \<Rightarrow> create_new pid dv dp name ty major minor s)))"

definition O_RDONLY :: u32 where "O_RDONLY = 0"
definition O_WRONLY :: u32 where "O_WRONLY = 1"
definition O_RDWR :: u32 where "O_RDWR = 2"
definition O_CREATE :: u32 where "O_CREATE = 0x200"

text \<open>The inode a path opens, locked.\<close>

definition open_inode :: "int \<Rightarrow> nat \<Rightarrow> 'd devsw \<Rightarrow> u8 list \<Rightarrow> u32 \<Rightarrow> 'd fsys \<Rightarrow> (nat option \<times> 'd fsys) result" where
  "open_inode pid cwd dv path omode s =
     (if omode AND O_CREATE \<noteq> 0 then create pid cwd dv path T_FILE 0 0 s
      else andthen (namei pid cwd dv path s) (\<lambda>(r, s).
        case r of
          None \<Rightarrow> Inr (None, s)
        | Some ip \<Rightarrow>
            andthen (ilock pid ip s) (\<lambda>s.
              if di_type (di_of s ip) = T_DIR \<and> omode \<noteq> O_RDONLY
              then andthen (iunlockput pid ip s) (\<lambda>s. Inr (None, s))
              else Inr (Some ip, s))))"

definition open_fail :: "nat \<Rightarrow> 'd cst \<Rightarrow> (u32 \<times> 'd cst) result" where
  "open_fail ip c =
     andthen (lift_k (fs_run (iunlockput (p_pid (c_proc c)) ip)) c) (\<lambda>c.
     andthen (lift_k k_end c) (\<lambda>c. Inr (neg1, c)))"

definition sys_open :: "'d devsw \<Rightarrow> u32 \<Rightarrow> 'd cst \<Rightarrow> (u32 \<times> 'd cst) result" where
  "sys_open dv kend c =
     (let p = c_proc c
      in case (argstr p (c_um c) 0, argint p (c_um c) 1) of
           (Some path, Some omode) \<Rightarrow>
             andthen (lift_k k_begin c) (\<lambda>c.
             andthen (cwd_of p) (\<lambda>cwd.
             andthen (lift_fs (open_inode (p_pid p) cwd dv path omode) c) (\<lambda>(r, c).
               case r of
                 None \<Rightarrow> andthen (lift_k k_end c) (\<lambda>c. Inr (neg1, c))
               | Some ip \<Rightarrow>
                   (case filealloc (c_k c) of
                      (None, k) \<Rightarrow> open_fail ip (c\<lparr>c_k := k\<rparr>)
                    | (Some f, k) \<Rightarrow>
                        let c = c\<lparr>c_k := k\<rparr>
                        in (case fdalloc f p of
                              None \<Rightarrow> andthen (lift_k (fileclose (p_pid p) kend f) c) (open_fail ip)
                            | Some (fd, p) \<Rightarrow>
                                andthen (lift_k (fs_run (iunlock (p_pid p) ip)) (c\<lparr>c_proc := p\<rparr>)) (\<lambda>c.
                                andthen (lift_k k_end c) (\<lambda>c.
                                  Inr (of_nat fd, c\<lparr>c_k := upd_file f (\<lambda>x. x\<lparr>f_type := FD_INODE, f_ip := ip, f_off := 0,
                                    f_readable := (omode AND O_WRONLY = 0),
                                    f_writable := (omode AND O_WRONLY \<noteq> 0 \<or> omode AND O_RDWR \<noteq> 0)\<rparr>) (c_k c)\<rparr>))))))))
         | _ \<Rightarrow> Inr (neg1, c))"

text \<open>What \<open>sys_mkdir\<close> and \<open>sys_mknod\<close> do after \<open>create\<close>.\<close>

definition create_call :: "'d devsw \<Rightarrow> u8 list \<Rightarrow> u16 \<Rightarrow> u16 \<Rightarrow> u16 \<Rightarrow> 'd cst \<Rightarrow> (u32 \<times> 'd cst) result" where
  "create_call dv path ty major minor c =
     andthen (cwd_of (c_proc c)) (\<lambda>cwd.
     andthen (lift_fs (create (p_pid (c_proc c)) cwd dv path ty major minor) c) (\<lambda>(r, c).
       case r of
         None \<Rightarrow> andthen (lift_k k_end c) (\<lambda>c. Inr (neg1, c))
       | Some ip \<Rightarrow>
           andthen (lift_k (fs_run (iunlockput (p_pid (c_proc c)) ip)) c) (\<lambda>c.
           andthen (lift_k k_end c) (\<lambda>c. Inr (0, c)))))"

definition sys_mkdir :: "'d devsw \<Rightarrow> 'd cst \<Rightarrow> (u32 \<times> 'd cst) result" where
  "sys_mkdir dv c =
     andthen (lift_k k_begin c) (\<lambda>c.
       case argstr (c_proc c) (c_um c) 0 of
         None \<Rightarrow> andthen (lift_k k_end c) (\<lambda>c. Inr (neg1, c))
       | Some path \<Rightarrow> create_call dv path T_DIR 0 0 c)"

definition sys_mknod :: "'d devsw \<Rightarrow> 'd cst \<Rightarrow> (u32 \<times> 'd cst) result" where
  "sys_mknod dv c =
     andthen (lift_k k_begin c) (\<lambda>c.
       case (argstr (c_proc c) (c_um c) 0, argint (c_proc c) (c_um c) 1, argint (c_proc c) (c_um c) 2) of
         (Some path, Some major, Some minor) \<Rightarrow> create_call dv path T_DEV (ucast major) (ucast minor) c
       | _ \<Rightarrow> andthen (lift_k k_end c) (\<lambda>c. Inr (neg1, c)))"

text \<open>The part of \<open>sys_chdir\<close> inside the transaction: the new directory.\<close>

definition chdir_op :: "int \<Rightarrow> nat \<Rightarrow> 'd devsw \<Rightarrow> u8 list \<Rightarrow> 'd fsys \<Rightarrow> (nat option \<times> 'd fsys) result" where
  "chdir_op pid cwd dv path s =
     andthen (namei pid cwd dv path s) (\<lambda>(r, s).
       case r of
         None \<Rightarrow> Inr (None, s)
       | Some ip \<Rightarrow>
           andthen (ilock pid ip s) (\<lambda>s.
             if di_type (di_of s ip) \<noteq> T_DIR then andthen (iunlockput pid ip s) (\<lambda>s. Inr (None, s))
             else andthen (iunlock pid ip s) (\<lambda>s. andthen (iput pid cwd s) (\<lambda>s. Inr (Some ip, s)))))"

definition sys_chdir :: "'d devsw \<Rightarrow> 'd cst \<Rightarrow> (u32 \<times> 'd cst) result" where
  "sys_chdir dv c =
     andthen (lift_k k_begin c) (\<lambda>c.
       case argstr (c_proc c) (c_um c) 0 of
         None \<Rightarrow> andthen (lift_k k_end c) (\<lambda>c. Inr (neg1, c))
       | Some path \<Rightarrow>
           andthen (cwd_of (c_proc c)) (\<lambda>cwd.
           andthen (lift_fs (chdir_op (p_pid (c_proc c)) cwd dv path) c) (\<lambda>(r, c).
           andthen (lift_k k_end c) (\<lambda>c.
             case r of
               None \<Rightarrow> Inr (neg1, c)
             | Some ip \<Rightarrow> Inr (0, c\<lparr>c_proc := (c_proc c)\<lparr>p_cwd := Some ip\<rparr>\<rparr>)))))"

definition sys_pipe :: "u32 \<Rightarrow> u8 list \<Rightarrow> 'd cst \<Rightarrow> (u32 \<times> 'd cst) result" where
  "sys_pipe kend junk c =
     (let p = c_proc c; pid = p_pid p
      in case argptr p (c_um c) 0 8 of
           None \<Rightarrow> Inr (neg1, c)
         | Some a \<Rightarrow>
             andthen (pipealloc pid kend junk (c_k c)) (\<lambda>(r, k).
               let c = c\<lparr>c_k := k\<rparr>
               in case r of
                    None \<Rightarrow> Inr (neg1, c)
                  | Some (rfl, wfl) \<Rightarrow>
                      (case fdalloc rfl p of
                         None \<Rightarrow>
                           andthen (lift_k (fileclose pid kend rfl) c) (\<lambda>c.
                           andthen (lift_k (fileclose pid kend wfl) c) (\<lambda>c. Inr (neg1, c)))
                       | Some (fd0, p) \<Rightarrow>
                           (case fdalloc wfl p of
                              None \<Rightarrow>
                                let c = c\<lparr>c_proc := p\<lparr>p_ofile := (p_ofile p)[fd0 := None]\<rparr>\<rparr>
                                in andthen (lift_k (fileclose pid kend rfl) c) (\<lambda>c.
                                   andthen (lift_k (fileclose pid kend wfl) c) (\<lambda>c. Inr (neg1, c)))
                            | Some (fd1, p) \<Rightarrow>
                                Inr (0, c_store (a + 4) (enc32 (of_nat fd1)) (c_store a (enc32 (of_nat fd0)) (c\<lparr>c_proc := p\<rparr>)))))))"

end
