(* ===== verification/Xv6_Proc.thy ===== *)
theory Xv6_Proc
  imports Xv6_Sysfile Xv6_Signal
begin

text \<open>
  Processes as a whole (\<open>proc.c\<close>): \<open>switchuvm\<close>, \<open>userinit\<close>, \<open>growproc\<close>, \<open>fork\<close>, \<open>exit\<close> and
  \<open>wait\<close> with everything they do to memory, files and the process table, run without
  interference; the interleavings of their steps are the subject of \<open>Xv6_Sched\<close>. The index
  \<open>i\<close> of a routine is \<open>myproc()\<close>. A routine that goes to sleep is a \<open>Sleeps\<close> fault.
\<close>

section \<open>State\<close>

text \<open>Addresses the linker fixes: \<open>sy_proc\<close> gives the addresses of the entries of \<open>ptable.proc\<close>.\<close>

record syms =
  sy_forkret :: u32
  sy_trapret :: u32
  sy_end :: u32
  sy_data :: u32
  sy_proc :: "nat \<Rightarrow> u32"

text \<open>The registers \<open>switchuvm\<close> loads: the page directory and the kernel stack for traps.\<close>

record mmu =
  mm_cr3 :: u32
  mm_esp0 :: u32
  mm_ss0 :: u16
  mm_iomb :: u16

text \<open>The page allocator is the one of \<open>os_pt\<close>.\<close>

record 'd os =
  os_pt :: ptable
  os_k :: "'d kst"
  os_mmu :: mmu
  os_ticks :: u32

definition proc_of :: "'d os \<Rightarrow> nat \<Rightarrow> proc" where
  "proc_of s i = pt_proc (os_pt s) ! i"

definition upd_proc :: "nat \<Rightarrow> (proc \<Rightarrow> proc) \<Rightarrow> 'd os \<Rightarrow> 'd os" where
  "upd_proc i f s = s\<lparr>os_pt := (os_pt s)\<lparr>pt_proc := (pt_proc (os_pt s))[i := f (proc_of s i)]\<rparr>\<rparr>"

definition os_kmem :: "'d os \<Rightarrow> kmem" where "os_kmem s = pt_kmem (os_pt s)"

definition set_kmem :: "kmem \<Rightarrow> 'd os \<Rightarrow> 'd os" where
  "set_kmem m s = s\<lparr>os_pt := (os_pt s)\<lparr>pt_kmem := m\<rparr>\<rparr>"

definition on_k :: "('d kst \<Rightarrow> ('a \<times> 'd kst) result) \<Rightarrow> 'd os \<Rightarrow> ('a \<times> 'd os) result" where
  "on_k f s =
     andthen (f ((os_k s)\<lparr>k_kmem := os_kmem s\<rparr>)) (\<lambda>(r, k). Inr (r, set_kmem (k_kmem k) (s\<lparr>os_k := k\<rparr>)))"

definition do_k :: "('d kst \<Rightarrow> 'd kst result) \<Rightarrow> 'd os \<Rightarrow> 'd os result" where
  "do_k f s = andthen (on_k (\<lambda>k. andthen (f k) (\<lambda>k. Inr ((), k))) s) (\<lambda>(_, s). Inr s)"

text \<open>A call of \<open>sysfile.c\<close> made by process \<open>i\<close>.\<close>

definition on_c :: "nat \<Rightarrow> ('d cst \<Rightarrow> (u32 \<times> 'd cst) result) \<Rightarrow> 'd os \<Rightarrow> (u32 \<times> 'd os) result" where
  "on_c i f s =
     andthen (f \<lparr>c_proc = proc_of s i, c_k = (os_k s)\<lparr>k_kmem := os_kmem s\<rparr>\<rparr>) (\<lambda>(r, c).
       Inr (r, upd_proc i (\<lambda>_. c_proc c) (set_kmem (k_kmem (c_k c)) (s\<lparr>os_k := c_k c\<rparr>))))"

section \<open>Operations\<close>

definition SEG_KDATA :: u16 where "SEG_KDATA = 2"
definition SEG_UCODE :: u16 where "SEG_UCODE = 3"
definition SEG_UDATA :: u16 where "SEG_UDATA = 4"
definition DPL_USER :: u16 where "DPL_USER = 3"
definition FL_IF :: u32 where "FL_IF = 0x200"

definition switchuvm :: "proc \<Rightarrow> 'd os \<Rightarrow> 'd os result" where
  "switchuvm p s =
     (if p_kstack p = 0 then Inl (Panic ''switchuvm: no kstack'')
      else if p_pgdir p = 0 then Inl (Panic ''switchuvm: no pgdir'')
      else Inr (s\<lparr>os_mmu := \<lparr>mm_cr3 = V2P (p_pgdir p), mm_esp0 = p_kstack p + KSTACKSIZE,
                            mm_ss0 = push_bit 3 SEG_KDATA, mm_iomb = 0xFFFF\<rparr>\<rparr>))"

definition zero_trapframe :: trapframe where
  "zero_trapframe =
     \<lparr>tf_edi = 0, tf_esi = 0, tf_ebp = 0, tf_oesp = 0, tf_ebx = 0, tf_edx = 0, tf_ecx = 0, tf_eax = 0,
      tf_gs = 0, tf_fs = 0, tf_es = 0, tf_ds = 0, tf_trapno = 0, tf_err = 0, tf_eip = 0, tf_cs = 0,
      tf_eflags = 0, tf_esp = 0, tf_ss = 0\<rparr>"

definition init_trapframe :: trapframe where
  "init_trapframe =
     (let ds = push_bit 3 SEG_UDATA OR DPL_USER
      in zero_trapframe\<lparr>tf_cs := push_bit 3 SEG_UCODE OR DPL_USER, tf_ds := ds, tf_es := ds, tf_ss := ds,
           tf_eflags := FL_IF, tf_esp := PGSIZE, tf_eip := 0\<rparr>)"

text \<open>\<open>safestrcpy\<close> into the 16 bytes of \<open>p->name\<close>.\<close>

definition proc_name :: "string \<Rightarrow> string" where "proc_name s = take 15 s"

text \<open>\<open>initcode\<close> is the image of the first program. A null result of \<open>allocproc\<close> is not looked at.\<close>

definition userinit :: "syms \<Rightarrow> 'd devsw \<Rightarrow> u8 list \<Rightarrow> 'd os \<Rightarrow> 'd os result" where
  "userinit sy dv initcode s =
     (case allocproc (sy_forkret sy) (sy_trapret sy) (os_pt s) of
        (None, _) \<Rightarrow> Inl (Undefined ''userinit: null process'')
      | (Some i, pt) \<Rightarrow>
          let s = s\<lparr>os_pt := pt\<lparr>pt_initproc := Some i\<rparr>\<rparr>
          in andthen (setupkvm (sy_end sy) (sy_data sy) (os_kmem s)) (\<lambda>(pgdir, m).
             let s = upd_proc i (\<lambda>p. p\<lparr>p_pgdir := pgdir\<rparr>) (set_kmem m s)
             in if pgdir = 0 then Inl (Panic ''userinit: out of memory?'')
                else andthen (inituvm pgdir initcode (os_kmem s)) (\<lambda>m.
                  let s = upd_proc i (\<lambda>p. p\<lparr>p_sz := PGSIZE, p_tf := init_trapframe, p_name := proc_name ''initcode''\<rparr>)
                            (set_kmem m s)
                  in andthen (on_k (fs_do (namei (p_pid (proc_of s i)) 0 dv [slash])) s) (\<lambda>(cwd, s).
                     let s = upd_proc i (\<lambda>p. p\<lparr>p_cwd := cwd\<rparr>) s
                     in case cas (proc_of s i) EMBRYO RUNNABLE of (ok, p) \<Rightarrow>
                          if \<not> ok then Inl (Panic ''assert p->state == EMBRYO violated'')
                          else Inr (upd_proc i (\<lambda>_. p) s)))))"

definition growproc :: "syms \<Rightarrow> nat \<Rightarrow> u32 \<Rightarrow> 'd os \<Rightarrow> (u32 \<times> 'd os) result" where
  "growproc sy i n s =
     (let p = proc_of s i; sz = p_sz p
      in andthen (if sint n > 0 then allocuvm (sy_end sy) (p_pgdir p) sz (sz + n) (os_kmem s)
                  else if sint n < 0 then deallocuvm (sy_end sy) (p_pgdir p) sz (sz + n) (os_kmem s)
                  else Inr (sz, os_kmem s)) (\<lambda>(sz, m).
           let s = set_kmem m s
           in if sint n \<noteq> 0 \<and> sz = 0 then Inr (neg1, s)
              else let s = upd_proc i (\<lambda>p. p\<lparr>p_sz := sz\<rparr>) s
                   in andthen (switchuvm (proc_of s i) s) (\<lambda>s. Inr (0, s))))"

fun fork_files :: "nat \<Rightarrow> nat \<Rightarrow> nat list \<Rightarrow> 'd os \<Rightarrow> 'd os result" where
  "fork_files i j [] s = Inr s"
| "fork_files i j (fd # fds) s =
     (case p_ofile (proc_of s i) ! fd of
        None \<Rightarrow> fork_files i j fds s
      | Some f \<Rightarrow>
          andthen (do_k (filedup f) s) (\<lambda>s.
            fork_files i j fds (upd_proc j (\<lambda>np. np\<lparr>p_ofile := (p_ofile np)[fd := Some f]\<rparr>) s)))"

definition fork :: "syms \<Rightarrow> nat \<Rightarrow> 'd os \<Rightarrow> (int \<times> 'd os) result" where
  "fork sy i s =
     (case allocproc (sy_forkret sy) (sy_trapret sy) (os_pt s) of
        (None, pt) \<Rightarrow> Inr (- 1, s\<lparr>os_pt := pt\<rparr>)
      | (Some j, pt) \<Rightarrow>
          let s = s\<lparr>os_pt := pt\<rparr>; p = proc_of s i
          in andthen (copyuvm (sy_end sy) (sy_data sy) (p_pgdir p) (p_sz p) (os_kmem s)) (\<lambda>(pgdir, m).
             let s = upd_proc j (\<lambda>np. np\<lparr>p_pgdir := pgdir\<rparr>) (set_kmem m s)
             in if pgdir = 0
                then andthen (kfree (sy_end sy) (p_kstack (proc_of s j)) (os_kmem s)) (\<lambda>m.
                     Inr (- 1, upd_proc j (\<lambda>np. snd (cas (np\<lparr>p_kstack := 0\<rparr>) EMBRYO UNUSED)) (set_kmem m s)))
                else let s = upd_proc j (\<lambda>np. np\<lparr>p_sz := p_sz p, p_parent := Some i, p_tf := (p_tf p)\<lparr>tf_eax := 0\<rparr>\<rparr>) s
                     in andthen (fork_files i j [0..<NOFILE] s) (\<lambda>s.
                        andthen (cwd_of p) (\<lambda>cwd.
                        andthen (on_k (fs_do (\<lambda>fs. Inr (idup cwd fs))) s) (\<lambda>(cwd, s).
                          let s = upd_proc j (\<lambda>np. np\<lparr>p_cwd := Some cwd, p_name := proc_name (p_name p),
                                p_mask := p_mask p, p_handlers := p_handlers p\<rparr>) s
                          in case cas (proc_of s j) EMBRYO RUNNABLE of (ok, np) \<Rightarrow>
                               if \<not> ok then Inl (Panic ''assert p->state == EMBRYO violated'')
                               else Inr (p_pid np, upd_proc j (\<lambda>_. np) s))))))"

fun exit_files :: "syms \<Rightarrow> nat \<Rightarrow> nat list \<Rightarrow> 'd os \<Rightarrow> 'd os result" where
  "exit_files sy i [] s = Inr s"
| "exit_files sy i (fd # fds) s =
     (case p_ofile (proc_of s i) ! fd of
        None \<Rightarrow> exit_files sy i fds s
      | Some f \<Rightarrow>
          andthen (do_k (fileclose (p_pid (proc_of s i)) (sy_end sy) f) s) (\<lambda>s.
            exit_files sy i fds (upd_proc i (\<lambda>p. p\<lparr>p_ofile := (p_ofile p)[fd := None]\<rparr>) s)))"

definition os_wakeup1 :: "u32 \<Rightarrow> 'd os \<Rightarrow> 'd os result" where
  "os_wakeup1 chan s =
     andthen (wakeup1 chan (pt_proc (os_pt s))) (\<lambda>ps. Inr (s\<lparr>os_pt := (os_pt s)\<lparr>pt_proc := ps\<rparr>\<rparr>))"

text \<open>The address of the entry, the null pointer for no process.\<close>

definition proc_ptr :: "syms \<Rightarrow> nat option \<Rightarrow> u32" where
  "proc_ptr sy q = (case q of None \<Rightarrow> 0 | Some i \<Rightarrow> sy_proc sy i)"

fun exit_children :: "syms \<Rightarrow> nat \<Rightarrow> nat list \<Rightarrow> 'd os \<Rightarrow> 'd os result" where
  "exit_children sy i [] s = Inr s"
| "exit_children sy i (j # js) s =
     (if p_parent (proc_of s j) = Some i
      then let s = upd_proc j (\<lambda>p. p\<lparr>p_parent := pt_initproc (os_pt s)\<rparr>) s
           in andthen (if p_state (proc_of s j) = ZOMBIE \<or> p_state (proc_of s j) = NEG_ZOMBIE
                       then os_wakeup1 (proc_ptr sy (pt_initproc (os_pt s))) s else Inr s)
                (exit_children sy i js)
      else exit_children sy i js s)"

text \<open>\<open>exit\<close> up to its call of \<open>sched\<close>, which does not return.\<close>

definition exit :: "syms \<Rightarrow> nat \<Rightarrow> 'd os \<Rightarrow> 'd os result" where
  "exit sy i s =
     (if pt_initproc (os_pt s) = Some i then Inl (Panic ''init exiting'')
      else andthen (exit_files sy i [0..<NOFILE] s) (\<lambda>s.
           andthen (do_k k_begin s) (\<lambda>s.
           andthen (cwd_of (proc_of s i)) (\<lambda>cwd.
           andthen (do_k (fs_run (iput (p_pid (proc_of s i)) cwd)) s) (\<lambda>s.
           andthen (do_k k_end s) (\<lambda>s.
             let s = upd_proc i (\<lambda>p. snd (cas (p\<lparr>p_cwd := None\<rparr>) RUNNING NEG_ZOMBIE)) s
             in andthen (os_wakeup1 (proc_ptr sy (p_parent (proc_of s i))) s) (exit_children sy i [0..<NPROC])))))))"

text \<open>The scan of \<open>wait\<close>: \<open>Inl\<close> the pid of a child that was reaped, \<open>Inr\<close> whether there are children.\<close>

fun wait_scan :: "syms \<Rightarrow> nat \<Rightarrow> nat list \<Rightarrow> bool \<Rightarrow> 'd os \<Rightarrow> ((int + bool) \<times> 'd os) result" where
  "wait_scan sy i [] havekids s = Inr (Inr havekids, s)"
| "wait_scan sy i (j # js) havekids s =
     (let p = proc_of s j
      in if p_parent p \<noteq> Some i then wait_scan sy i js havekids s
         else if p_state p = ZOMBIE
         then let s = upd_proc j (\<lambda>p. snd (cas p ZOMBIE NEG_UNUSED)) s
              in andthen (kfree (sy_end sy) (p_kstack p) (os_kmem s)) (\<lambda>m.
                 andthen (freevm (sy_end sy) (p_pgdir p) m) (\<lambda>m.
                   let s = upd_proc j (\<lambda>p. p\<lparr>p_kstack := 0, p_pid := 0, p_parent := None, p_name := [], p_killed := False\<rparr>)
                             (set_kmem m s)
                   in case cas (proc_of s j) NEG_UNUSED UNUSED of (ok, q) \<Rightarrow>
                        if \<not> ok then Inl (Panic ''assert p->state==UNUSED is violated'')
                        else Inr (Inl (p_pid p), upd_proc j (\<lambda>_. q) s)))
         else if p_state p = NEG_ZOMBIE then Inl Spins
         else wait_scan sy i js True s)"

definition wait :: "syms \<Rightarrow> nat \<Rightarrow> 'd os \<Rightarrow> (int \<times> 'd os) result" where
  "wait sy i s =
     andthen (wait_scan sy i [0..<NPROC] False s) (\<lambda>(r, s).
       case r of
         Inl pid \<Rightarrow> Inr (pid, s)
       | Inr havekids \<Rightarrow>
           if \<not> havekids \<or> p_killed (proc_of s i) then Inr (- 1, s) else Inl (Sleeps ''wait''))"

end
