(* ===== verification/Xv6_Exec.thy ===== *)
theory Xv6_Exec
  imports Xv6_Proc
begin

text \<open>
  \<open>exec\<close> (\<open>exec.c\<close>), \<open>sys_exec\<close>, the system calls of \<open>sysproc.c\<close>, the dispatcher \<open>syscall\<close>
  and \<open>trap\<close>. A call that does not return to its process gives \<open>None\<close>.
\<close>

section \<open>exec\<close>

definition ELF_MAGIC :: u32 where "ELF_MAGIC = 0x464C457F"
definition ELF_PROG_LOAD :: u32 where "ELF_PROG_LOAD = 1"

text \<open>The fields of the headers that are used, at their offsets.\<close>

definition sizeof_elfhdr :: nat where "sizeof_elfhdr = 52"
definition elf_magic :: "u8 list \<Rightarrow> u32" where "elf_magic h = get32 h 0"
definition elf_entry :: "u8 list \<Rightarrow> u32" where "elf_entry h = get32 h 24"
definition elf_phoff :: "u8 list \<Rightarrow> u32" where "elf_phoff h = get32 h 28"
definition elf_phnum :: "u8 list \<Rightarrow> u16" where "elf_phnum h = get16 h 44"

definition sizeof_proghdr :: nat where "sizeof_proghdr = 32"
definition ph_type :: "u8 list \<Rightarrow> u32" where "ph_type h = get32 h 0"
definition ph_off :: "u8 list \<Rightarrow> u32" where "ph_off h = get32 h 4"
definition ph_vaddr :: "u8 list \<Rightarrow> u32" where "ph_vaddr h = get32 h 8"
definition ph_filesz :: "u8 list \<Rightarrow> u32" where "ph_filesz h = get32 h 16"
definition ph_memsz :: "u8 list \<Rightarrow> u32" where "ph_memsz h = get32 h 20"

text \<open>The loop over the program headers: the size of the image, \<open>None\<close> for \<open>goto bad\<close>.\<close>

fun exec_load ::
    "u32 \<Rightarrow> u32 \<Rightarrow> 'd devsw \<Rightarrow> nat \<Rightarrow> u32 \<Rightarrow> nat \<Rightarrow> u32 \<Rightarrow> 'd fsys \<Rightarrow> kmem \<Rightarrow> (u32 option \<times> 'd fsys \<times> kmem) result" where
  "exec_load kend pgdir dv ip off 0 sz fs m = Inr (Some sz, fs, m)"
| "exec_load kend pgdir dv ip off (Suc n) sz fs m =
     andthen (readi dv ip off (of_nat sizeof_proghdr) fs) (\<lambda>(r, fs).
       case r of
         None \<Rightarrow> Inr (None, fs, m)
       | Some ph \<Rightarrow>
           if length ph \<noteq> sizeof_proghdr then Inr (None, fs, m)
           else if ph_type ph \<noteq> ELF_PROG_LOAD
                then exec_load kend pgdir dv ip (off + of_nat sizeof_proghdr) n sz fs m
           else if ph_memsz ph < ph_filesz ph then Inr (None, fs, m)
           else if ph_vaddr ph + ph_memsz ph < ph_vaddr ph then Inr (None, fs, m)
           else andthen (allocuvm kend pgdir sz (ph_vaddr ph + ph_memsz ph) m) (\<lambda>(sz, m).
             if sz = 0 then Inr (None, fs, m)
             else if ph_vaddr ph mod PGSIZE \<noteq> 0 then Inr (None, fs, m)
             else andthen (loaduvm pgdir (ph_vaddr ph) dv ip (ph_off ph) (ph_filesz ph) fs m) (\<lambda>(ok, fs, m).
               if \<not> ok then Inr (None, fs, m)
               else exec_load kend pgdir dv ip (off + of_nat sizeof_proghdr) n sz fs m)))"

text \<open>
  From \<open>namei\<close> to the end of the transaction: the entry point, the page directory and the size
  of the new image.
\<close>

definition exec_image ::
    "syms \<Rightarrow> int \<Rightarrow> nat \<Rightarrow> 'd devsw \<Rightarrow> u8 list \<Rightarrow> kmem \<Rightarrow> 'd fsys \<Rightarrow> (((u32 \<times> u32 \<times> u32) option \<times> kmem) \<times> 'd fsys) result" where
  "exec_image sy pid cwd dv path m fs =
     andthen (namei pid cwd dv path fs) (\<lambda>(r, fs).
       case r of
         None \<Rightarrow> Inr ((None, m), fs)
       | Some ip \<Rightarrow>
           andthen (ilock pid ip fs) (\<lambda>fs.
           andthen (readi dv ip 0 (of_nat sizeof_elfhdr) fs) (\<lambda>(r, fs).
             let elf = (case r of None \<Rightarrow> [] | Some bs \<Rightarrow> bs)
             in if length elf \<noteq> sizeof_elfhdr \<or> elf_magic elf \<noteq> ELF_MAGIC
                then andthen (iunlockput pid ip fs) (\<lambda>fs. Inr ((None, m), fs))
                else andthen (setupkvm (sy_end sy) (sy_data sy) m) (\<lambda>(pgdir, m).
                  if pgdir = 0 then andthen (iunlockput pid ip fs) (\<lambda>fs. Inr ((None, m), fs))
                  else andthen (exec_load (sy_end sy) pgdir dv ip (elf_phoff elf) (unat (elf_phnum elf)) 0 fs m)
                    (\<lambda>(r, fs, m).
                      case r of
                        None \<Rightarrow>
                          andthen (freevm (sy_end sy) pgdir m) (\<lambda>m.
                          andthen (iunlockput pid ip fs) (\<lambda>fs. Inr ((None, m), fs)))
                      | Some sz \<Rightarrow>
                          andthen (iunlockput pid ip fs) (\<lambda>fs. Inr ((Some (elf_entry elf, pgdir, sz), m), fs)))))))"

text \<open>
  The argument strings, without their NUL, pushed on the new stack: the stack pointer and the
  entries of \<open>ustack\<close> for the arguments.
\<close>

fun exec_args :: "u32 \<Rightarrow> u8 list list \<Rightarrow> nat \<Rightarrow> u32 \<Rightarrow> u32 list \<Rightarrow> kmem \<Rightarrow> ((u32 \<times> u32 list) option \<times> kmem) result" where
  "exec_args pgdir [] argc sp ptrs m = Inr (Some (sp, ptrs), m)"
| "exec_args pgdir (arg # args) argc sp ptrs m =
     (if argc \<ge> MAXARG then Inr (None, m)
      else let sp = (sp - (of_nat (length arg) + 1)) AND NOT 3
           in andthen (copyout pgdir sp (arg @ [0]) m) (\<lambda>(ok, m).
                if \<not> ok then Inr (None, m) else exec_args pgdir args (Suc argc) sp (ptrs @ [sp]) m))"

text \<open>From the allocation of the stack to the copy of \<open>ustack\<close>: the new size and stack pointer.\<close>

definition exec_stack :: "u32 \<Rightarrow> u32 \<Rightarrow> u32 \<Rightarrow> u8 list list \<Rightarrow> kmem \<Rightarrow> ((u32 \<times> u32) option \<times> kmem) result" where
  "exec_stack kend pgdir sz argv m =
     andthen (allocuvm kend pgdir (PGROUNDUP sz) (PGROUNDUP sz + 2 * PGSIZE) m) (\<lambda>(sz, m).
       if sz = 0 then Inr (None, m)
       else andthen (clearpteu pgdir (sz - 2 * PGSIZE) m) (\<lambda>m.
            andthen (exec_args pgdir argv 0 sz [] m) (\<lambda>(r, m).
              case r of
                None \<Rightarrow> Inr (None, m)
              | Some (sp, ptrs) \<Rightarrow>
                  let argc = of_nat (length ptrs) :: u32;
                      ustack = [0xffffffff, argc, sp - (argc + 1) * 4] @ ptrs @ [0];
                      sp = sp - (3 + argc + 1) * 4
                  in andthen (copyout pgdir sp (concat (map enc32 ustack)) m) (\<lambda>(ok, m).
                       Inr (if ok then Some (sz, sp) else None, m)))))"

text \<open>The part of the path after its last slash.\<close>

definition last_elem :: "u8 list \<Rightarrow> u8 list" where
  "last_elem path = rev (takeWhile (\<lambda>c. c \<noteq> slash) (rev path))"

definition exec :: "syms \<Rightarrow> nat \<Rightarrow> 'd devsw \<Rightarrow> u8 list \<Rightarrow> u8 list list \<Rightarrow> 'd os \<Rightarrow> (u32 \<times> 'd os) result" where
  "exec sy i dv path argv s =
     andthen (do_k k_begin s) (\<lambda>s.
     andthen (cwd_of (proc_of s i)) (\<lambda>cwd.
     andthen (on_k (fs_do (exec_image sy (p_pid (proc_of s i)) cwd dv path (os_kmem s))) s) (\<lambda>((r, m), s).
     andthen (do_k k_end (set_kmem m s)) (\<lambda>s.
       case r of
         None \<Rightarrow> Inr (neg1, s)
       | Some (entry, pgdir, sz) \<Rightarrow>
           andthen (exec_stack (sy_end sy) pgdir sz argv (os_kmem s)) (\<lambda>(r, m).
             case r of
               None \<Rightarrow> andthen (freevm (sy_end sy) pgdir m) (\<lambda>m. Inr (neg1, set_kmem m s))
             | Some (sz, sp) \<Rightarrow>
                 let oldpgdir = p_pgdir (proc_of s i);
                     s = upd_proc i (\<lambda>p. p\<lparr>p_name := proc_name (map (\<lambda>b. char_of (unat b)) (last_elem path)),
                           p_pgdir := pgdir, p_sz := sz, p_tf := (p_tf p)\<lparr>tf_eip := entry, tf_esp := sp\<rparr>,
                           p_handlers := map (\<lambda>h. if h \<noteq> SIG_IGN then SIG_DFL else h) (p_handlers p)\<rparr>) (set_kmem m s)
                 in andthen (switchuvm (proc_of s i) s) (\<lambda>s.
                    andthen (freevm (sy_end sy) oldpgdir (os_kmem s)) (\<lambda>m. Inr (0, set_kmem m s))))))))"

text \<open>The argument vector of \<open>sys_exec\<close>: at most \<open>MAXARG\<close> entries with the null at its end.\<close>

fun exec_argv :: "proc \<Rightarrow> umem \<Rightarrow> u32 \<Rightarrow> nat list \<Rightarrow> u8 list list option" where
  "exec_argv p um uargv [] = None"
| "exec_argv p um uargv (i # is) =
     (case fetchint p um (uargv + 4 * of_nat i) of
        None \<Rightarrow> None
      | Some uarg \<Rightarrow>
          if uarg = 0 then Some []
          else case fetchstr p um uarg of
                 None \<Rightarrow> None
               | Some arg \<Rightarrow> map_option (Cons arg) (exec_argv p um uargv is))"

definition os_um :: "'d os \<Rightarrow> nat \<Rightarrow> umem" where
  "os_um s i = c_um \<lparr>c_proc = proc_of s i, c_k = (os_k s)\<lparr>k_kmem := os_kmem s\<rparr>\<rparr>"

definition sys_exec :: "syms \<Rightarrow> nat \<Rightarrow> 'd devsw \<Rightarrow> 'd os \<Rightarrow> (u32 \<times> 'd os) result" where
  "sys_exec sy i dv s =
     (let p = proc_of s i; um = os_um s i
      in case (argstr p um 0, argint p um 1) of
           (Some path, Some uargv) \<Rightarrow>
             (case exec_argv p um uargv [0..<MAXARG] of
                None \<Rightarrow> Inr (neg1, s)
              | Some argv \<Rightarrow> exec sy i dv path argv s)
         | _ \<Rightarrow> Inr (neg1, s))"

section \<open>sysproc.c\<close>

definition sys_fork :: "syms \<Rightarrow> nat \<Rightarrow> 'd os \<Rightarrow> (u32 \<times> 'd os) result" where
  "sys_fork sy i s = andthen (fork sy i s) (\<lambda>(r, s). Inr (of_int r, s))"

definition sys_wait :: "syms \<Rightarrow> nat \<Rightarrow> 'd os \<Rightarrow> (u32 \<times> 'd os) result" where
  "sys_wait sy i s = andthen (wait sy i s) (\<lambda>(r, s). Inr (of_int r, s))"

definition sys_kill :: "nat \<Rightarrow> 'd os \<Rightarrow> (u32 \<times> 'd os) result" where
  "sys_kill i s =
     (case (argint (proc_of s i) (os_um s i) 0, argint (proc_of s i) (os_um s i) 1) of
        (Some pid, Some signum) \<Rightarrow>
          (case kill (sint pid) (sint signum) (pt_proc (os_pt s)) of (r, ps) \<Rightarrow>
             Inr (of_int r, s\<lparr>os_pt := (os_pt s)\<lparr>pt_proc := ps\<rparr>\<rparr>))
      | _ \<Rightarrow> Inr (neg1, s))"

definition sys_getpid :: "nat \<Rightarrow> 'd os \<Rightarrow> (u32 \<times> 'd os) result" where
  "sys_getpid i s = Inr (of_int (p_pid (proc_of s i)), s)"

definition sys_sbrk :: "syms \<Rightarrow> nat \<Rightarrow> 'd os \<Rightarrow> (u32 \<times> 'd os) result" where
  "sys_sbrk sy i s =
     (case argint (proc_of s i) (os_um s i) 0 of
        None \<Rightarrow> Inr (neg1, s)
      | Some n \<Rightarrow>
          let addr = p_sz (proc_of s i)
          in andthen (growproc sy i n s) (\<lambda>(r, s). Inr (if sint r < 0 then neg1 else addr, s)))"

text \<open>One test of the loop of \<open>sys_sleep\<close> that began at \<open>ticks0\<close>; a sleeper tests again.\<close>

definition sleep_test :: "nat \<Rightarrow> u32 \<Rightarrow> u32 \<Rightarrow> 'd os \<Rightarrow> (u32 \<times> 'd os) result" where
  "sleep_test i ticks0 n s =
     (if os_ticks s - ticks0 < n
      then if p_killed (proc_of s i) then Inr (neg1, s)
           else if p_pending (proc_of s i) AND shl1 (int SIGKILL) \<noteq> 0 then Inr (0, s)
           else Inl (Sleeps ''ticks'')
      else Inr (0, s))"

definition sys_sleep :: "nat \<Rightarrow> 'd os \<Rightarrow> (u32 \<times> 'd os) result" where
  "sys_sleep i s =
     (case argint (proc_of s i) (os_um s i) 0 of
        None \<Rightarrow> Inr (neg1, s)
      | Some n \<Rightarrow> sleep_test i (os_ticks s) n s)"

definition sys_uptime :: "'d os \<Rightarrow> (u32 \<times> 'd os) result" where
  "sys_uptime s = Inr (os_ticks s, s)"

definition sys_sigprocmask :: "nat \<Rightarrow> 'd os \<Rightarrow> (u32 \<times> 'd os) result" where
  "sys_sigprocmask i s =
     (case argint (proc_of s i) (os_um s i) 0 of
        None \<Rightarrow> Inr (neg1, s)
      | Some sigmask \<Rightarrow>
          (case sigprocmask sigmask (proc_of s i) of (r, p) \<Rightarrow> Inr (r, upd_proc i (\<lambda>_. p) s)))"

text \<open>\<open>sigaction\<close> writes the eight bytes of the old action.\<close>

definition sys_sigaction :: "nat \<Rightarrow> 'd os \<Rightarrow> (u32 \<times> 'd os) result" where
  "sys_sigaction i s =
     (let p = proc_of s i; um = os_um s i
      in case (argint p um 0, argptr p um 1 8, argptr p um 2 8) of
           (Some signum, Some act, Some oldact) \<Rightarrow>
             andthen (sigaction (sint signum) act oldact p um) (\<lambda>(r, p, um).
               on_c i (\<lambda>c. Inr (of_int r, if oldact \<noteq> 0 then c_store oldact (um_load um oldact 8) (c\<lparr>c_proc := p\<rparr>)
                                          else c\<lparr>c_proc := p\<rparr>)) s)
         | _ \<Rightarrow> Inr (neg1, s))"

definition sys_sigret :: "nat \<Rightarrow> 'd os \<Rightarrow> (u32 \<times> 'd os) result" where
  "sys_sigret i s = Inr (0, upd_proc i sigret s)"

section \<open>Dispatch\<close>

text \<open>\<open>syscall.h\<close>\<close>

definition SYS_fork :: int where "SYS_fork = 1"
definition SYS_exit :: int where "SYS_exit = 2"
definition SYS_wait :: int where "SYS_wait = 3"
definition SYS_pipe :: int where "SYS_pipe = 4"
definition SYS_read :: int where "SYS_read = 5"
definition SYS_kill :: int where "SYS_kill = 6"
definition SYS_exec :: int where "SYS_exec = 7"
definition SYS_fstat :: int where "SYS_fstat = 8"
definition SYS_chdir :: int where "SYS_chdir = 9"
definition SYS_dup :: int where "SYS_dup = 10"
definition SYS_getpid :: int where "SYS_getpid = 11"
definition SYS_sbrk :: int where "SYS_sbrk = 12"
definition SYS_sleep :: int where "SYS_sleep = 13"
definition SYS_uptime :: int where "SYS_uptime = 14"
definition SYS_open :: int where "SYS_open = 15"
definition SYS_write :: int where "SYS_write = 16"
definition SYS_mknod :: int where "SYS_mknod = 17"
definition SYS_unlink :: int where "SYS_unlink = 18"
definition SYS_link :: int where "SYS_link = 19"
definition SYS_mkdir :: int where "SYS_mkdir = 20"
definition SYS_close :: int where "SYS_close = 21"
definition SYS_sigprocmask :: int where "SYS_sigprocmask = 22"
definition SYS_sigaction :: int where "SYS_sigaction = 23"
definition SYS_sigret :: int where "SYS_sigret = 24"

lemmas syscall_numbers =
  SYS_fork_def SYS_exit_def SYS_wait_def SYS_pipe_def SYS_read_def SYS_kill_def SYS_exec_def SYS_fstat_def SYS_chdir_def SYS_dup_def SYS_getpid_def SYS_sbrk_def SYS_sleep_def SYS_uptime_def SYS_open_def SYS_write_def SYS_mknod_def SYS_unlink_def SYS_link_def SYS_mkdir_def SYS_close_def SYS_sigprocmask_def SYS_sigaction_def SYS_sigret_def

text \<open>The value for \<open>%eax\<close>, \<open>None\<close> when the process has exited. \<open>junk\<close> is what a new page holds.\<close>

definition returns :: "(u32 \<times> 'd os) result \<Rightarrow> (u32 option \<times> 'd os) result" where
  "returns r = andthen r (\<lambda>(v, s). Inr (Some v, s))"

definition syscalls ::
    "syms \<Rightarrow> 'd devsw \<Rightarrow> u8 list \<Rightarrow> nat \<Rightarrow> int \<Rightarrow> ('d os \<Rightarrow> (u32 option \<times> 'd os) result) option" where
  "syscalls sy dv junk i num =
     map_of
       [(SYS_fork, \<lambda>s. returns (sys_fork sy i s)),
        (SYS_exit, \<lambda>s. andthen (exit sy i s) (\<lambda>s. Inr (None, s))),
        (SYS_wait, \<lambda>s. returns (sys_wait sy i s)),
        (SYS_pipe, \<lambda>s. returns (on_c i (sys_pipe (sy_end sy) junk) s)),
        (SYS_read, \<lambda>s. returns (on_c i (sys_read dv) s)),
        (SYS_kill, \<lambda>s. returns (sys_kill i s)),
        (SYS_exec, \<lambda>s. returns (sys_exec sy i dv s)),
        (SYS_fstat, \<lambda>s. returns (on_c i sys_fstat s)),
        (SYS_chdir, \<lambda>s. returns (on_c i (sys_chdir dv) s)),
        (SYS_dup, \<lambda>s. returns (on_c i sys_dup s)),
        (SYS_getpid, \<lambda>s. returns (sys_getpid i s)),
        (SYS_sbrk, \<lambda>s. returns (sys_sbrk sy i s)),
        (SYS_sleep, \<lambda>s. returns (sys_sleep i s)),
        (SYS_uptime, \<lambda>s. returns (sys_uptime s)),
        (SYS_open, \<lambda>s. returns (on_c i (sys_open dv (sy_end sy)) s)),
        (SYS_write, \<lambda>s. returns (on_c i (sys_write dv) s)),
        (SYS_mknod, \<lambda>s. returns (on_c i (sys_mknod dv) s)),
        (SYS_unlink, \<lambda>s. returns (on_c i (sys_unlink dv) s)),
        (SYS_link, \<lambda>s. returns (on_c i (sys_link dv) s)),
        (SYS_mkdir, \<lambda>s. returns (on_c i (sys_mkdir dv) s)),
        (SYS_close, \<lambda>s. returns (on_c i (sys_close (sy_end sy)) s)),
        (SYS_sigprocmask, \<lambda>s. returns (sys_sigprocmask i s)),
        (SYS_sigaction, \<lambda>s. returns (sys_sigaction i s)),
        (SYS_sigret, \<lambda>s. returns (sys_sigret i s))] num"

definition syscall :: "syms \<Rightarrow> 'd devsw \<Rightarrow> u8 list \<Rightarrow> nat \<Rightarrow> 'd os \<Rightarrow> (bool \<times> 'd os) result" where
  "syscall sy dv junk i s =
     (case syscalls sy dv junk i (sint (tf_eax (p_tf (proc_of s i)))) of
        Some f \<Rightarrow>
          andthen (f s) (\<lambda>(r, s).
            case r of
              None \<Rightarrow> Inr (False, s)
            | Some v \<Rightarrow> Inr (True, upd_proc i (\<lambda>p. p\<lparr>p_tf := (p_tf p)\<lparr>tf_eax := v\<rparr>\<rparr>) s))
      | None \<Rightarrow> Inr (True, upd_proc i (\<lambda>p. p\<lparr>p_tf := (p_tf p)\<lparr>tf_eax := neg1\<rparr>\<rparr>) s))"

section \<open>Traps\<close>

definition T_SYSCALL :: u32 where "T_SYSCALL = 64"
definition T_IRQ0 :: u32 where "T_IRQ0 = 32"
definition IRQ_TIMER :: u32 where "IRQ_TIMER = 0"
definition IRQ_KBD :: u32 where "IRQ_KBD = 1"
definition IRQ_COM1 :: u32 where "IRQ_COM1 = 4"
definition IRQ_IDE :: u32 where "IRQ_IDE = 14"
definition IRQ_SPURIOUS :: u32 where "IRQ_SPURIOUS = 31"

text \<open>
  \<open>intr\<close> stands for the interrupt routines of the devices, by interrupt number; \<open>yield\<close> for what
  the other processes have done to the kernel when \<open>yield\<close> returns; \<open>cpu0\<close> says whether this is
  the first CPU and \<open>ticksaddr\<close> is the address of \<open>ticks\<close>. The current process, if there is one, is
  \<open>cur\<close>. The result is \<open>False\<close> when the process has exited.
\<close>

definition trap_device ::
    "(u32 \<Rightarrow> 'd os \<Rightarrow> 'd os result) \<Rightarrow> bool \<Rightarrow> u32 \<Rightarrow> nat option \<Rightarrow> trapframe \<Rightarrow> 'd os \<Rightarrow> 'd os result" where
  "trap_device intr cpu0 ticksaddr cur tf s =
     (let n = tf_trapno tf
      in if n = T_IRQ0 + IRQ_TIMER
         then if cpu0 then os_wakeup1 ticksaddr (s\<lparr>os_ticks := os_ticks s + 1\<rparr>) else Inr s
         else if n = T_IRQ0 + IRQ_IDE then intr IRQ_IDE s
         else if n = T_IRQ0 + IRQ_IDE + 1 then Inr s
         else if n = T_IRQ0 + IRQ_KBD then intr IRQ_KBD s
         else if n = T_IRQ0 + IRQ_COM1 then intr IRQ_COM1 s
         else if n = T_IRQ0 + 7 \<or> n = T_IRQ0 + IRQ_SPURIOUS then Inr s
         else case cur of
                None \<Rightarrow> Inl (Panic ''trap'')
              | Some i \<Rightarrow>
                  if tf_cs tf AND 3 = 0 then Inl (Panic ''trap'')
                  else Inr (upd_proc i (\<lambda>p. p\<lparr>p_killed := True\<rparr>) s))"

definition trap_killed :: "nat option \<Rightarrow> trapframe \<Rightarrow> 'd os \<Rightarrow> bool" where
  "trap_killed cur tf s \<longleftrightarrow>
     (case cur of None \<Rightarrow> False | Some i \<Rightarrow> p_killed (proc_of s i) \<and> tf_cs tf AND 3 = DPL_USER)"

definition trap ::
    "syms \<Rightarrow> 'd devsw \<Rightarrow> u8 list \<Rightarrow> (u32 \<Rightarrow> 'd os \<Rightarrow> 'd os result) \<Rightarrow> ('d os \<Rightarrow> 'd os) \<Rightarrow> bool \<Rightarrow> u32 \<Rightarrow>
     nat option \<Rightarrow> trapframe \<Rightarrow> 'd os \<Rightarrow> (bool \<times> 'd os) result" where
  "trap sy dv junk intr yield cpu0 ticksaddr cur tf s =
     (if tf_trapno tf = T_SYSCALL
      then case cur of
             None \<Rightarrow> Inl (Undefined ''trap: null process'')
           | Some i \<Rightarrow>
               if p_killed (proc_of s i) then andthen (exit sy i s) (\<lambda>s. Inr (False, s))
               else syscall sy dv junk i (upd_proc i (\<lambda>p. p\<lparr>p_tf := tf\<rparr>) s)
      else andthen (trap_device intr cpu0 ticksaddr cur tf s) (\<lambda>s.
             if trap_killed cur tf s then andthen (exit sy (the cur) s) (\<lambda>s. Inr (False, s))
             else let s = (case cur of
                             Some i \<Rightarrow> if p_state (proc_of s i) = RUNNING \<and> tf_trapno tf = T_IRQ0 + IRQ_TIMER
                                       then yield s else s
                           | None \<Rightarrow> s)
                  in if trap_killed cur tf s then andthen (exit sy (the cur) s) (\<lambda>s. Inr (False, s))
                     else Inr (True, s)))"

end
