(* ===== verification/Spec2Isabelle.thy ===== *)
theory Spec2Isabelle
  imports Xv6_Base Xv6_String Xv6_Spinlock Xv6_Kalloc Xv6_Ptable Xv6_Sched Xv6_Signal Xv6_Block Xv6_Bio
    Xv6_Log Xv6_Fs Xv6_Inode Xv6_Dir Xv6_Pipe Xv6_File Xv6_Vm Xv6_Vspace Xv6_Uvm Xv6_Sysfile Xv6_Proc Xv6_Exec
begin

text \<open>
  Verification of the kernel in this repository: an x86 xv6 whose process table is guarded by
  compare-and-swap on the process states instead of a lock, and which has signals. The theories
  translate the C functions one by one; this file imports them.

  \<^bold>\<open>Conventions.\<close> \<open>uint\<close>, \<open>ushort\<close> and \<open>uchar\<close> are 32, 16 and 8 bit words, with the wrap-around of C;
  pointers are 32 bit words with 0 as null, or indices where the pointer only ever points into one
  table (inodes, files, buffers, processes). A routine returns a \<open>result\<close>: a value and the next state,
  or a fault, which is a panic with its message, a call of \<open>sleep\<close>, a busy wait nobody can end, or
  an access that C leaves undefined. Loops over tables are recursions over the list of their
  indices; other loops have termination proofs. The only fuel is in \<open>list_walk\<close> of \<open>Xv6_Bio\<close>: a walk of
  the buffer list makes at most \<open>NBUF + 1\<close> steps, which the list invariant shows is enough.

  \<^bold>\<open>Theories.\<close>
  \<^item> \<open>Xv6_Base\<close>: constants of the headers, results, word arithmetic.
  \<^item> \<open>Xv6_String\<close> (\<open>string.c\<close>): byte memory, \<open>memset\<close>, \<open>memmove\<close>, \<open>strncpy\<close> and the others, against
    reference definitions.
  \<^item> \<open>Xv6_Block\<close>: byte lists with little-endian words, for blocks and structures on disk.
  \<^item> \<open>Xv6_Spinlock\<close> (\<open>spinlock.c\<close>, \<open>sleeplock.c\<close>, \<open>mycpu\<close>): the routines as functions, and
    \<open>acquire\<close>/\<open>release\<close> as a step relation of any number of CPUs with mutual exclusion.
  \<^item> \<open>Xv6_Kalloc\<close> (\<open>kalloc.c\<close>): the free list threaded through memory; the allocator as a locale that
    the model interprets.
  \<^item> \<open>Xv6_Ptable\<close> (\<open>proc.c\<close>): process records, \<open>allocpid\<close> under interleaving, \<open>allocproc\<close>, \<open>wakeup1\<close>,
    \<open>kill\<close>.
  \<^item> \<open>Xv6_Sched\<close> (\<open>proc.c\<close>): \<open>scheduler\<close>, \<open>sched\<close>, \<open>yield\<close>, \<open>sleep\<close>, \<open>wakeup\<close>, \<open>fork\<close>, \<open>exit\<close> and
    \<open>wait\<close> as atomic steps on the shared states, for any number of CPUs: what holds on one CPU and
    on many, and two executions on two CPUs that go wrong.
  \<^item> \<open>Xv6_Signal\<close> (\<open>proc.c\<close>): \<open>signalsHandler\<close>, \<open>sigaction\<close>, \<open>sigprocmask\<close>, \<open>sigret\<close>.
  \<^item> \<open>Xv6_Bio\<close> (\<open>bio.c\<close>, \<open>memide.c\<close>): the buffer cache with its doubly linked list, transparent over
    the disk.
  \<^item> \<open>Xv6_Log\<close> (\<open>log.c\<close>): transactions; the disk is a list of writes, so that a crash is a prefix.
    Recovery, atomicity, refinement of an abstract log, the reservation of \<open>begin_op\<close>.
  \<^item> \<open>Xv6_Fs\<close>, \<open>Xv6_Inode\<close> (\<open>fs.c\<close>): block and inode allocation, the inode cache, \<open>bmap\<close>, \<open>itrunc\<close>,
    \<open>readi\<close>, \<open>writei\<close>; a file is a list of bytes (locale \<open>byte_file\<close>, interpreted by inodes).
  \<^item> \<open>Xv6_Dir\<close> (\<open>fs.c\<close>): directories and path names.
  \<^item> \<open>Xv6_Pipe\<close> (\<open>pipe.c\<close>): the ring buffer as a queue, order and delivery of the bytes.
  \<^item> \<open>Xv6_File\<close> (\<open>file.c\<close>): open files; file-system operations as log transactions.
  \<^item> \<open>Xv6_Vm\<close> (\<open>vm.c\<close>): page tables in memory, user memory. \<open>Xv6_Vspace\<close>: a page directory in memory
    as a function from page numbers to entries, and what \<open>walkpgdir\<close> and \<open>mappages\<close> do to it.
    \<open>Xv6_Uvm\<close>: \<open>setupkvm\<close>, \<open>copyuvm\<close>, \<open>allocuvm\<close>, \<open>deallocuvm\<close> and \<open>freevm\<close> on that function, the
    pages they take and give back.
  \<^item> \<open>Xv6_Sysfile\<close> (\<open>syscall.c\<close>, \<open>sysfile.c\<close>): argument fetching and the file calls.
  \<^item> \<open>Xv6_Proc\<close> (\<open>proc.c\<close>): \<open>userinit\<close>, \<open>growproc\<close>, \<open>fork\<close>, \<open>exit\<close>, \<open>wait\<close> with memory and files, run
    without interference.
  \<^item> \<open>Xv6_Exec\<close> (\<open>exec.c\<close>, \<open>sysproc.c\<close>, \<open>syscall.c\<close>, \<open>trap.c\<close>): \<open>exec\<close>, the remaining calls, dispatch.

  \<^bold>\<open>How the parts fit.\<close> The file system works on a view of the disk blocks and records its calls of
  \<open>log_write\<close>; \<open>fs_do\<close> of \<open>Xv6_File\<close> hands them to the log of \<open>Xv6_Log\<close>, whose blocks the cache of
  \<open>Xv6_Bio\<close> presents. Page tables, kernel stacks and pipes are pages of \<open>Xv6_Kalloc\<close>. The system calls
  act on the calling process, its page table and the files; \<open>trap\<close> and \<open>syscall\<close> dispatch to them.

  \<^bold>\<open>Not modelled.\<close> Device drivers and boot code (\<open>console.c\<close>, \<open>kbd.c\<close>, \<open>uart.c\<close>, \<open>ide.c\<close>, \<open>lapic.c\<close>,
  \<open>ioapic.c\<close>, \<open>picirq.c\<close>, \<open>mp.c\<close>, \<open>main.c\<close>, \<open>bootmain.c\<close> and the assembly files) talk to hardware; a
  driver behind \<open>devsw\<close> and the interrupt routines are parameters. \<open>mkfs.c\<close> runs on the host. The user
  programs and their library are not part of the kernel.
\<close>

end
